(* ===== verification/Fgds_Prelude.thy ===== *)
theory Fgds_Prelude
  imports Main "HOL-Library.Word"
begin

text \<open>
  Shared vocabulary of the development: the machine integer types of the C and C++ sources, the
  ways a C program can go wrong as values of a type \<open>fault\<close>, a small state-and-fault
  monad in which the stateful components are written, and the generic facts on words, lists and
  that monad the component theories share.

  A program is a function \<open>'s \<Rightarrow> fault + 'a \<times> 's\<close>. \<open>Inl f\<close> is undefined behaviour, a
  deadlock or a loop that does not end; \<open>Inr (x, s')\<close> is a normal return of \<open>x\<close> in the new
  state. Error returns of the sources (\<open>-1\<close>, \<open>-EFAULT\<close>, \<open>NULL\<close>) are ordinary values.
\<close>

section \<open>Machine integers\<close>

type_synonym u8 = "8 word"
type_synonym u16 = "16 word"
type_synonym u32 = "32 word"
type_synonym u64 = "64 word"

text \<open>\<open>off_t\<close>, \<open>ssize_t\<close> and \<open>s64\<close> are 64 bit two's complement: a word read with \<open>sint\<close>.\<close>

type_synonym s64 = "64 word"

text \<open>
  C's signed division and remainder truncate towards zero. \<open>sdiv64\<close> and \<open>srem64\<close> are those
  operations on 64 bit two's complement values.
\<close>

definition sdiv64 :: "s64 \<Rightarrow> s64 \<Rightarrow> s64" where
  "sdiv64 a b = word_of_int (sgn (sint a) * sgn (sint b) * (\<bar>sint a\<bar> div \<bar>sint b\<bar>))"

definition srem64 :: "s64 \<Rightarrow> s64 \<Rightarrow> s64" where
  "srem64 a b = word_of_int (sgn (sint a) * (\<bar>sint a\<bar> mod \<bar>sint b\<bar>))"

section \<open>Error numbers\<close>

abbreviation EIO :: int where "EIO \<equiv> 5"
abbreviation ENOMEM :: int where "ENOMEM \<equiv> 12"
abbreviation EFAULT :: int where "EFAULT \<equiv> 14"
abbreviation ENODEV :: int where "ENODEV \<equiv> 19"
abbreviation EINVAL :: int where "EINVAL \<equiv> 22"
abbreviation ENOTTY :: int where "ENOTTY \<equiv> 25"
abbreviation EOPNOTSUPP :: int where "EOPNOTSUPP \<equiv> 95"

section \<open>Faults and the program monad\<close>

datatype fault =
    Out_Of_Bounds      \<comment> \<open>array access outside the array\<close>
  | Use_After_Free     \<comment> \<open>dereference of a freed object\<close>
  | Double_Free        \<comment> \<open>free of an object that is not allocated\<close>
  | Null_Deref         \<comment> \<open>dereference of a null pointer\<close>
  | Uninitialised      \<comment> \<open>read of memory that was never written\<close>
  | Bad_Mutex          \<comment> \<open>lock of a destroyed mutex, unlock of a free one\<close>
  | Deadlock           \<comment> \<open>lock of a mutex the caller holds\<close>
  | Divide_By_Zero
  | Diverges           \<comment> \<open>the loop does not end\<close>

type_synonym ('s, 'a) prog = "'s \<Rightarrow> fault + 'a \<times> 's"

definition ret :: "'a \<Rightarrow> ('s, 'a) prog" where
  "ret x = (\<lambda>s. Inr (x, s))"

definition fail :: "fault \<Rightarrow> ('s, 'a) prog" where
  "fail f = (\<lambda>s. Inl f)"

definition bnd :: "('s, 'a) prog \<Rightarrow> ('a \<Rightarrow> ('s, 'b) prog) \<Rightarrow> ('s, 'b) prog" where
  "bnd m f = (\<lambda>s. case m s of Inl e \<Rightarrow> Inl e | Inr (x, s') \<Rightarrow> f x s')"

definition sq :: "('s, 'a) prog \<Rightarrow> ('s, 'b) prog \<Rightarrow> ('s, 'b) prog" where
  "sq m n = bnd m (\<lambda>_. n)"

definition gets :: "('s \<Rightarrow> 'a) \<Rightarrow> ('s, 'a) prog" where
  "gets f = (\<lambda>s. Inr (f s, s))"

definition modify :: "('s \<Rightarrow> 's) \<Rightarrow> ('s, unit) prog" where
  "modify f = (\<lambda>s. Inr ((), f s))"

definition assert_or :: "fault \<Rightarrow> bool \<Rightarrow> ('s, unit) prog" where
  "assert_or f b = (if b then ret () else fail f)"

definition the_or :: "fault \<Rightarrow> 'a option \<Rightarrow> ('s, 'a) prog" where
  "the_or f x = (case x of None \<Rightarrow> fail f | Some y \<Rightarrow> ret y)"

text \<open>
  \<open>runs_to m s Q\<close>: started in \<open>s\<close>, the program returns without a fault, with a result and a
  state that satisfy \<open>Q\<close>. It is a total statement: a program that faults or does not end does
  not satisfy it for any \<open>Q\<close>.
\<close>

definition runs_to :: "('s, 'a) prog \<Rightarrow> 's \<Rightarrow> ('a \<Rightarrow> 's \<Rightarrow> bool) \<Rightarrow> bool" where
  "runs_to m s Q = (case m s of Inl _ \<Rightarrow> False | Inr (x, s') \<Rightarrow> Q x s')"

named_theorems wp \<open>runs_to of a program, computed from its parts\<close>
named_theorems run \<open>evaluation of the monad on a concrete state\<close>

lemma runs_to_ret [wp, simp]: "runs_to (ret x) s Q = Q x s"
  by (simp add: runs_to_def ret_def)

lemma runs_to_fail [wp, simp]: "runs_to (fail f) s Q = False"
  by (simp add: runs_to_def fail_def)

lemma runs_to_bnd [wp, simp]: "runs_to (bnd m f) s Q = runs_to m s (\<lambda>x s'. runs_to (f x) s' Q)"
  by (auto simp: runs_to_def bnd_def split: sum.splits)

lemma runs_to_sq [wp, simp]: "runs_to (sq m n) s Q = runs_to m s (\<lambda>_ s'. runs_to n s' Q)"
  by (simp add: sq_def)

lemma runs_to_gets [wp, simp]: "runs_to (gets f) s Q = Q (f s) s"
  by (simp add: runs_to_def gets_def)

lemma runs_to_modify [wp, simp]: "runs_to (modify f) s Q = Q () (f s)"
  by (simp add: runs_to_def modify_def)

lemma runs_to_assert_or [wp, simp]: "runs_to (assert_or f b) s Q = (b \<and> Q () s)"
  by (simp add: assert_or_def)

lemma runs_to_the_or [wp, simp]: "runs_to (the_or f x) s Q = (\<exists>y. x = Some y \<and> Q y s)"
  by (cases x) (simp_all add: the_or_def)

lemma runs_to_if [wp]:
  "runs_to (if b then m else n) s Q = (if b then runs_to m s Q else runs_to n s Q)"
  by simp

lemma runs_to_mono:
  assumes "runs_to m s P" and "\<And>x t. P x t \<Longrightarrow> Q x t"
  shows "runs_to m s Q"
  using assms by (auto simp: runs_to_def split: sum.splits)

lemma runs_to_conj: "runs_to m s P \<Longrightarrow> runs_to m s Q \<Longrightarrow> runs_to m s (\<lambda>x t. P x t \<and> Q x t)"
  by (auto simp: runs_to_def split: sum.splits)

lemma runs_toE:
  assumes "runs_to m s Q"
  obtains x t where "m s = Inr (x, t)" and "Q x t"
  using assms by (auto simp: runs_to_def split: sum.splits)

text \<open>A loop over a list that cannot be left early.\<close>

fun for_each :: "'b list \<Rightarrow> ('b \<Rightarrow> ('s, unit) prog) \<Rightarrow> ('s, unit) prog" where
  "for_each [] f = ret ()"
| "for_each (x # xs) f = sq (f x) (for_each xs f)"

text \<open>A loop invariant that holds after each round holds after the loop.\<close>

lemma runs_to_for_each:
  assumes "I [] s" and "\<And>pre x rest t. xs = pre @ x # rest \<Longrightarrow> I pre t \<Longrightarrow> runs_to (f x) t (\<lambda>_. I (pre @ [x]))"
  shows "runs_to (for_each xs f) s (\<lambda>_. I xs)"
proof -
  have "runs_to (for_each rest f) t (\<lambda>_. I xs)" if "xs = pre @ rest" and "I pre t" for pre rest t
    using that
  proof (induction rest arbitrary: pre t)
    case (Cons x rest)
    have "runs_to (f x) t (\<lambda>_. I (pre @ [x]))" using Cons.prems by (intro assms(2)) auto
    then show ?case
      unfolding for_each.simps runs_to_sq by (rule runs_to_mono) (use Cons in auto)
  qed simp
  from this [of "[]" xs s] assms(1) show ?thesis by simp
qed

lemma runs_toI: "m s = Inr (x, t) \<Longrightarrow> Q x t \<Longrightarrow> runs_to m s Q"
  by (simp add: runs_to_def)

lemma runs_to_iff: "runs_to m s Q \<longleftrightarrow> (\<exists>x t. m s = Inr (x, t) \<and> Q x t)"
  by (auto simp: runs_to_def split: sum.splits)

lemma run_simps [run]:
  "ret x s = Inr (x, s)"
  "fail f s = Inl f"
  "bnd m g s = (case m s of Inl e \<Rightarrow> Inl e | Inr (x, s') \<Rightarrow> g x s')"
  "sq m n s = (case m s of Inl e \<Rightarrow> Inl e | Inr (x, s') \<Rightarrow> n s')"
  "gets h s = Inr (h s, s)"
  "modify k s = Inr ((), k s)"
  by (simp_all add: ret_def fail_def bnd_def sq_def gets_def modify_def)

declare assert_or_def [run] the_or_def [run]

section \<open>Words\<close>

named_theorems nat_of_word \<open>word arithmetic and order read as natural numbers\<close>

lemmas word_order_unat [nat_of_word] = word_less_nat_alt word_le_nat_alt

lemma unat_add_no_wrap [nat_of_word]:
  "unat (a::u64) + unat b < 2 ^ 64 \<Longrightarrow> unat (a + b) = unat a + unat b"
  by (simp add: unat_word_ariths)

lemma unat_sub_no_wrap [nat_of_word]: "b \<le> (a::u64) \<Longrightarrow> unat (a - b) = unat a - unat b"
  by (simp add: unat_sub)

lemma unat_div64 [nat_of_word]: "unat ((a::u64) div b) = unat a div unat b"
  by (rule unat_div)

lemma unat_mod64 [nat_of_word]: "unat ((a::u64) mod b) = unat a mod unat b"
  by (rule unat_mod)

lemma unat_u64_less [simp]: "unat (a::u64) < 18446744073709551616"
  using unsigned_less [of a] by simp

lemma unat_of_nat_u64: "n < 18446744073709551616 \<Longrightarrow> unat (of_nat n :: u64) = n"
  by (simp add: unat_of_nat)

lemma unat_of_nat_u32: "n < 4294967296 \<Longrightarrow> unat (of_nat n :: u32) = n"
  by (simp add: unat_of_nat)

lemma of_nat_u32_eq: "m < 4294967296 \<Longrightarrow> n < 4294967296 \<Longrightarrow> (of_nat m :: u32) = of_nat n \<longleftrightarrow> m = n"
  by (metis unat_of_nat_u32)

lemma of_nat_u32_le: "m < 4294967296 \<Longrightarrow> n < 4294967296 \<Longrightarrow> (of_nat m :: u32) \<le> of_nat n \<longleftrightarrow> m \<le> n"
  by (simp add: word_le_nat_alt unat_of_nat_u32)

lemma of_nat_u32_less: "m < 4294967296 \<Longrightarrow> n < 4294967296 \<Longrightarrow> (of_nat m :: u32) < of_nat n \<longleftrightarrow> m < n"
  by (simp add: word_less_nat_alt unat_of_nat_u32)

lemma unat_ucast_u32: "unat (ucast (a::u64) :: u32) = unat a mod 4294967296"
  by (simp add: unsigned_ucast_eq take_bit_eq_mod)

lemma unat_ucast_u64: "unat (ucast (a::u32) :: u64) = unat a"
  using unsigned_less [of a, where 'a = nat] by (simp add: unsigned_ucast_eq take_bit_eq_mod)

lemma of_nat_unat_diff: "b \<le> a \<Longrightarrow> (of_nat a :: u64) - of_nat b = of_nat (a - b)"
  by simp

lemma of_nat_div_u64: "m < 18446744073709551616 \<Longrightarrow> k < 18446744073709551616 \<Longrightarrow>
    (of_nat m :: u64) div of_nat k = of_nat (m div k)"
  by (simp add: word_unat_eq_iff unat_div unat_of_nat_u64 order_le_less_trans [OF div_le_dividend])

lemma of_nat_mod_u64: "m < 18446744073709551616 \<Longrightarrow> k < 18446744073709551616 \<Longrightarrow>
    (of_nat m :: u64) mod of_nat k = of_nat (m mod k)"
  by (simp add: word_unat_eq_iff unat_mod unat_of_nat_u64 order_le_less_trans [OF mod_less_eq_dividend])

lemma sint_u64: 
  "sint (a::u64) = (if unat a < 9223372036854775808 then int (unat a) else int (unat a) - 18446744073709551616)"
proof -
  define n where "n = unat a"
  have a: "uint a = int n" by (simp add: n_def)
  have n: "n < 18446744073709551616" using unsigned_less[of a, where 'a=nat] by (simp add: n_def)
  have s: "sint a = signed_take_bit 63 (int n)" by (simp add: sint_uint a)
  have "sint a = (if n < 9223372036854775808 then int n else int n - 18446744073709551616)"
  proof (cases "n < 9223372036854775808")
    case True
    then show ?thesis by (simp add: s signed_take_bit_int_eq_self)
  next
    case False
    have "signed_take_bit 63 (int n) = signed_take_bit 63 (int n - 18446744073709551616)"
      by (rule signed_take_bit_eq_iff_take_bit_eq[THEN iffD2]) (simp add: take_bit_eq_mod mod_diff_right_eq[symmetric])
    also have "\<dots> = int n - 18446744073709551616"
      using n False by (simp add: signed_take_bit_int_eq_self)
    finally show ?thesis using False by (simp add: s)
  qed
  then show ?thesis by (simp add: n_def)
qed

lemma sint_u32: "unat (a::u32) < 2147483648 \<Longrightarrow> sint a = int (unat a)"
proof -
  assume "unat a < 2147483648"
  define n where "n = unat a"
  have a: "uint a = int n" by (simp add: n_def)
  have "sint a = signed_take_bit 31 (int n)" by (simp add: sint_uint a)
  also have "\<dots> = int n" using \<open>unat a < 2147483648\<close> by (simp add: n_def [symmetric] signed_take_bit_int_eq_self)
  finally show "sint a = int (unat a)" by (simp add: n_def)
qed

lemma sint_nonneg_u64: "0 \<le> sint (a::u64) \<longleftrightarrow> unat a < 9223372036854775808"
proof -
  define n where "n = unat a"
  have n: "n < 18446744073709551616" using unsigned_less[of a, where 'a=nat] by (simp add: n_def)
  then show ?thesis unfolding sint_u64 n_def[symmetric] by auto
qed

lemma sint_eq_unat: "0 \<le> sint (a::u64) \<Longrightarrow> sint a = int (unat a)"
  using sint_nonneg_u64 [of a] sint_u64 [of a] by presburger

lemma sdiv64_nonneg:
  assumes "0 \<le> sint a" and "0 \<le> sint b"
  shows "sdiv64 a b = a div b"
proof -
  have "sdiv64 a b = word_of_int (int (unat a) div int (unat b))"
    unfolding sdiv64_def sint_eq_unat [OF assms(1)] sint_eq_unat [OF assms(2)]
    by (simp add: sgn_if del: of_nat_unat)
  also have "\<dots> = of_nat (unat a div unat b)"
    by (simp only: of_nat_div [symmetric] of_int_of_nat_eq)
  also have "\<dots> = a div b"
    by (simp add: word_unat_eq_iff unat_div unat_of_nat_u64 order_le_less_trans [OF div_le_dividend])
  finally show ?thesis .
qed

lemma srem64_nonneg:
  assumes "0 \<le> sint a" and "0 \<le> sint b"
  shows "srem64 a b = a mod b"
proof -
  have "srem64 a b = word_of_int (int (unat a) mod int (unat b))"
    unfolding srem64_def sint_eq_unat [OF assms(1)] sint_eq_unat [OF assms(2)]
    by (simp add: sgn_if del: of_nat_unat)
  also have "\<dots> = of_nat (unat a mod unat b)"
    by (simp only: of_nat_mod [symmetric] of_int_of_nat_eq)
  also have "\<dots> = a mod b"
    by (simp add: word_unat_eq_iff unat_mod unat_of_nat_u64 order_le_less_trans [OF mod_less_eq_dividend])
  finally show ?thesis .
qed

lemma scast_ucast_small: "unat (a::u64) < 2147483648 \<Longrightarrow> scast (ucast a :: u32) = a"
proof -
  assume a: "unat a < 2147483648"
  then have u: "unat (ucast a :: u32) = unat a" by (simp add: unat_ucast_u32)
  have "(scast (ucast a :: u32) :: u64) = word_of_int (sint (ucast a :: u32))" by simp
  also have "\<dots> = word_of_int (int (unat a))" using sint_u32 [of "ucast a"] a u by simp
  finally show ?thesis by simp
qed

section \<open>Division\<close>

lemma less_Suc_div_mult: "0 < k \<Longrightarrow> (x::nat) < Suc (x div k) * k"
  using dividend_less_div_times [of k x] by simp

lemma le_div_mult: "i \<le> x div k \<Longrightarrow> i * k \<le> (x::nat)"
  by (meson div_times_less_eq_dividend le_trans mult_le_mono1)

lemma less_Suc_mult: "0 < k \<Longrightarrow> x div k \<le> i \<Longrightarrow> (x::nat) < Suc i * k"
  by (meson Suc_le_mono less_Suc_div_mult mult_le_mono1 order_less_le_trans)

section \<open>Lists\<close>

fun remove_first :: "('a \<Rightarrow> bool) \<Rightarrow> 'a list \<Rightarrow> 'a list" where
  "remove_first P [] = []"
| "remove_first P (x # xs) = (if P x then xs else x # remove_first P xs)"

lemma remove_first_append:
  "\<forall>x\<in>set xs. \<not> P x \<Longrightarrow> remove_first P (xs @ ys) = xs @ remove_first P ys"
  by (induction xs) auto

lemma remove_first_none: "\<forall>x\<in>set xs. \<not> P x \<Longrightarrow> remove_first P xs = xs"
  by (induction xs) auto

lemma set_remove_first_subset: "set (remove_first P xs) \<subseteq> set xs"
  by (induction xs) auto

lemma map_remove_first: "map f (remove_first (P \<circ> f) xs) = remove_first P (map f xs)"
  by (induction xs) auto

lemma remove_first_inj_key:
  assumes "distinct (map f xs)" and "x \<in> set xs"
  shows "remove_first (\<lambda>y. f y = f x) xs = filter (\<lambda>y. y \<noteq> x) xs"
  using assms
proof (induction xs)
  case (Cons y xs)
  show ?case
  proof (cases "f y = f x")
    case True
    with Cons.prems have "y = x" by (auto simp: rev_image_eqI)
    moreover have "x \<notin> set xs" using Cons.prems True by (auto simp: rev_image_eqI)
    then have "filter (\<lambda>z. z \<noteq> x) xs = xs" by (auto intro: filter_True)
    ultimately show ?thesis by simp
  next
    case False
    with Cons show ?thesis by auto
  qed
qed simp

lemma find_append_Some: "List.find P (xs @ ys) = (case List.find P xs of None \<Rightarrow> List.find P ys | Some x \<Rightarrow> Some x)"
  by (induction xs) auto

end
