(* ===== verification/Fgds_State.thy ===== *)
theory Fgds_State
  imports Fgds_Prelude
begin

text \<open>
  The state of the user space library (libfgds/fgds.cc) and the calls it makes outside itself.

  The library's own state is the static array \<open>g_dev_ctx\<close> of per-device contexts, the vector
  \<open>fgds_initialized\<close>, and the nodes it allocates with \<open>malloc\<close>; nodes live in \<open>node_heap\<close>, an
  explicit store from node addresses to nodes, so that aliasing and freed nodes are visible
  (a freed address has no entry). \<open>vaddrs_live\<close> and \<open>xfer_live\<close> count the
  allocated address arrays and transfer descriptors, so that leaks are visible too.

  The operating system, the C allocator's success, and liburing are not part of the repository:
  they are the fields of a record \<open>'w os\<close> of functions on an abstract world \<open>'w\<close>, passed to
  every definition that uses them. Every such call is logged in \<open>calls\<close>, oldest first.
\<close>

section \<open>The ioctl argument (libfgds/include/common.h, module/fgds.h)\<close>

text \<open>
  The fields \<open>end_addr\<close> and \<open>shadow_blocks\<close> of the C struct are written by neither side and read
  by neither side, and are left out.
\<close>

record fgds_ioctl_map_s =
  dev_id :: u64
  host_vaddr :: u64
  host_vaddr_size :: u64
  map_gpu_addr :: u64
  gpu_addr_size :: u64

datatype ioctl_cmd = FGDS_IOCTL_MAP | FGDS_IOCTL_UNMAP | Other_Cmd nat

section \<open>Library state\<close>

abbreviation FGDS_GPU_PAGE_SIZE :: u64 where "FGDS_GPU_PAGE_SIZE \<equiv> 65536"
abbreviation FGDS_MMAP_SEGMENT_SIZE :: u64 where "FGDS_MMAP_SEGMENT_SIZE \<equiv> 1073741824"
abbreviation FGDS_MAX_DEVICES :: int where "FGDS_MAX_DEVICES \<equiv> 8"
abbreviation FGDS_SUB_IO_SIZE :: u64 where "FGDS_SUB_IO_SIZE \<equiv> 262144"
abbreviation FGDS_URING_QD :: nat where "FGDS_URING_QD \<equiv> 256"
abbreviation FGDS_URING_READ_THRESH :: u64 where "FGDS_URING_READ_THRESH \<equiv> 524288"
abbreviation FGDS_URING_WRITE_THRESH :: u64 where "FGDS_URING_WRITE_THRESH \<equiv> 2097152"

record fgds_mmap_node =
  vaddrs :: "u64 list"      \<comment> \<open>the entries of the array written so far\<close>
  mmap_count :: u64
  gpu_addr :: u64
  node_length :: u64
  length_left :: u64
  is_mapped :: bool
  next_node :: "nat option"

datatype mutex = Unlocked | Locked | Destroyed

record fgds_mmap_buffer =
  device_id :: int
  dev_fd :: int
  initialized :: bool
  head :: "nat option"
  lock :: mutex
  uring_init :: bool
  uring_lock :: mutex

record fgds_fileid =
  fd :: int
  deviceID :: int

record xfer_addr =
  target_addr :: u64
  nbyte :: u64

datatype io_op = Op_Read | Op_Write

datatype call =
    C_open string int
  | C_close int
  | C_mmap u64 int "u64 option"
  | C_munmap u64 u64 int
  | C_ioctl int ioctl_cmd fgds_ioctl_map_s int
  | C_pread int u64 u64 s64 s64
  | C_pwrite int u64 u64 s64 s64
  | C_ring_init int int
  | C_ring_exit int
  | C_sqe int io_op int u64 u32 s64
  | C_submit int int
  | C_cqe int int int
  | C_peek int int

record 'w lib =
  g_dev_ctx :: "nat \<Rightarrow> fgds_mmap_buffer"
  fgds_initialized :: "nat \<Rightarrow> bool"
  node_heap :: "nat \<rightharpoonup> fgds_mmap_node"
  next_ptr :: nat
  vaddrs_live :: nat
  xfer_live :: nat
  calls :: "call list"
  world :: 'w

section \<open>The environment\<close>

record 'w os =
  os_open :: "string \<Rightarrow> 'w \<Rightarrow> int \<times> 'w"
  os_close :: "int \<Rightarrow> 'w \<Rightarrow> int \<times> 'w"
  os_malloc :: "u64 \<Rightarrow> 'w \<Rightarrow> bool \<times> 'w"
  os_mmap :: "u64 \<Rightarrow> int \<Rightarrow> 'w \<Rightarrow> u64 option \<times> 'w"
  os_munmap :: "u64 \<Rightarrow> u64 \<Rightarrow> 'w \<Rightarrow> int \<times> 'w"
  os_ioctl :: "int \<Rightarrow> ioctl_cmd \<Rightarrow> fgds_ioctl_map_s \<Rightarrow> 'w \<Rightarrow> int \<times> 'w"
  os_pread :: "int \<Rightarrow> u64 \<Rightarrow> u64 \<Rightarrow> s64 \<Rightarrow> 'w \<Rightarrow> s64 \<times> 'w"
  os_pwrite :: "int \<Rightarrow> u64 \<Rightarrow> u64 \<Rightarrow> s64 \<Rightarrow> 'w \<Rightarrow> s64 \<times> 'w"
  ring_queue_init :: "int \<Rightarrow> 'w \<Rightarrow> int \<times> 'w"
  ring_queue_exit :: "int \<Rightarrow> 'w \<Rightarrow> 'w"
  ring_get_sqe :: "int \<Rightarrow> 'w \<Rightarrow> bool \<times> 'w"
  ring_prep_rw :: "int \<Rightarrow> io_op \<Rightarrow> int \<Rightarrow> u64 \<Rightarrow> u32 \<Rightarrow> s64 \<Rightarrow> 'w \<Rightarrow> 'w"
  ring_submit :: "int \<Rightarrow> 'w \<Rightarrow> int \<times> 'w"
  ring_wait_cqe :: "int \<Rightarrow> 'w \<Rightarrow> (int \<times> int) \<times> 'w"
  ring_peek_cqe :: "int \<Rightarrow> 'w \<Rightarrow> int \<times> 'w"
  ring_cqe_seen :: "int \<Rightarrow> 'w \<Rightarrow> 'w"

text \<open>
  A call into the environment: it changes the world, nothing else of the library's state, and is
  logged. \<open>silent\<close> is the same without the log entry, for \<open>malloc\<close>, \<open>io_uring_get_sqe\<close> and
  \<open>io_uring_cqe_seen\<close>.
\<close>

definition ext :: "('w \<Rightarrow> 'a \<times> 'w) \<Rightarrow> ('a \<Rightarrow> call) \<Rightarrow> ('w lib, 'a) prog" where
  "ext f c = (\<lambda>s. case f (world s) of (r, w) \<Rightarrow>
     Inr (r, s\<lparr>world := w, calls := calls s @ [c r]\<rparr>))"

definition silent :: "('w \<Rightarrow> 'a \<times> 'w) \<Rightarrow> ('w lib, 'a) prog" where
  "silent f = (\<lambda>s. case f (world s) of (r, w) \<Rightarrow> Inr (r, s\<lparr>world := w\<rparr>))"

lemma runs_to_ext [wp, simp]:
  "runs_to (ext f c) s Q = (case f (world s) of (r, w) \<Rightarrow>
     Q r (s\<lparr>world := w, calls := calls s @ [c r]\<rparr>))"
  by (auto simp: runs_to_def ext_def split: prod.splits)

lemma runs_to_silent [wp, simp]:
  "runs_to (silent f) s Q = (case f (world s) of (r, w) \<Rightarrow> Q r (s\<lparr>world := w\<rparr>))"
  by (auto simp: runs_to_def silent_def split: prod.splits)

declare ext_def [run] silent_def [run]

definition sys_open :: "'w os \<Rightarrow> string \<Rightarrow> ('w lib, int) prog" where
  "sys_open os path = ext (os_open os path) (C_open path)"

definition sys_close :: "'w os \<Rightarrow> int \<Rightarrow> ('w lib, int) prog" where
  "sys_close os f = ext (os_close os f) (\<lambda>_. C_close f)"

definition malloc :: "'w os \<Rightarrow> u64 \<Rightarrow> ('w lib, bool) prog" where
  "malloc os n = silent (os_malloc os n)"

definition sys_mmap :: "'w os \<Rightarrow> u64 \<Rightarrow> int \<Rightarrow> ('w lib, u64 option) prog" where
  "sys_mmap os len f = ext (os_mmap os len f) (C_mmap len f)"

definition sys_munmap :: "'w os \<Rightarrow> u64 \<Rightarrow> u64 \<Rightarrow> ('w lib, int) prog" where
  "sys_munmap os a len = ext (os_munmap os a len) (C_munmap a len)"

definition sys_ioctl :: "'w os \<Rightarrow> int \<Rightarrow> ioctl_cmd \<Rightarrow> fgds_ioctl_map_s \<Rightarrow> ('w lib, int) prog" where
  "sys_ioctl os f c p = ext (os_ioctl os f c p) (C_ioctl f c p)"

definition sys_pread :: "'w os \<Rightarrow> int \<Rightarrow> u64 \<Rightarrow> u64 \<Rightarrow> s64 \<Rightarrow> ('w lib, s64) prog" where
  "sys_pread os f a n off = ext (os_pread os f a n off) (C_pread f a n off)"

definition sys_pwrite :: "'w os \<Rightarrow> int \<Rightarrow> u64 \<Rightarrow> u64 \<Rightarrow> s64 \<Rightarrow> ('w lib, s64) prog" where
  "sys_pwrite os f a n off = ext (os_pwrite os f a n off) (C_pwrite f a n off)"

text \<open>liburing; the ring of a device is named by the device. The length of a request is an \<open>unsigned\<close>.\<close>

definition io_uring_queue_init :: "'w os \<Rightarrow> int \<Rightarrow> ('w lib, int) prog" where
  "io_uring_queue_init os d = ext (ring_queue_init os d) (C_ring_init d)"

definition io_uring_queue_exit :: "'w os \<Rightarrow> int \<Rightarrow> ('w lib, unit) prog" where
  "io_uring_queue_exit os d = ext (\<lambda>w. ((), ring_queue_exit os d w)) (\<lambda>_. C_ring_exit d)"

definition io_uring_get_sqe :: "'w os \<Rightarrow> int \<Rightarrow> ('w lib, bool) prog" where
  "io_uring_get_sqe os d = silent (ring_get_sqe os d)"

definition io_uring_prep :: "'w os \<Rightarrow> int \<Rightarrow> io_op \<Rightarrow> int \<Rightarrow> u64 \<Rightarrow> u32 \<Rightarrow> s64 \<Rightarrow> ('w lib, unit) prog" where
  "io_uring_prep os d op f a n off = ext (\<lambda>w. ((), ring_prep_rw os d op f a n off w)) (\<lambda>_. C_sqe d op f a n off)"

definition io_uring_submit :: "'w os \<Rightarrow> int \<Rightarrow> ('w lib, int) prog" where
  "io_uring_submit os d = ext (ring_submit os d) (C_submit d)"

definition io_uring_wait_cqe :: "'w os \<Rightarrow> int \<Rightarrow> ('w lib, int \<times> int) prog" where
  "io_uring_wait_cqe os d = ext (ring_wait_cqe os d) (\<lambda>(r, res). C_cqe d r res)"

definition io_uring_peek_cqe :: "'w os \<Rightarrow> int \<Rightarrow> ('w lib, int) prog" where
  "io_uring_peek_cqe os d = ext (ring_peek_cqe os d) (C_peek d)"

definition io_uring_cqe_seen :: "'w os \<Rightarrow> int \<Rightarrow> ('w lib, unit) prog" where
  "io_uring_cqe_seen os d = silent (\<lambda>w. ((), ring_cqe_seen os d w))"

lemmas ring_defs = io_uring_queue_init_def io_uring_queue_exit_def io_uring_get_sqe_def io_uring_prep_def
  io_uring_submit_def io_uring_wait_cqe_def io_uring_peek_cqe_def io_uring_cqe_seen_def

lemmas sys_defs = sys_open_def sys_close_def malloc_def sys_mmap_def sys_munmap_def sys_ioctl_def
  sys_pread_def sys_pwrite_def

section \<open>Device contexts and mutexes\<close>

text \<open>
  \<open>&g_dev_ctx[device_id]\<close> is formed without a range check in most of the library; a context
  outside the array of eight is an out-of-bounds access.
\<close>

definition dev_ctx :: "int \<Rightarrow> ('w lib, fgds_mmap_buffer) prog" where
  "dev_ctx d = sq (assert_or Out_Of_Bounds (0 \<le> d \<and> d < FGDS_MAX_DEVICES))
     (gets (\<lambda>s. g_dev_ctx s (nat d)))"

definition upd_ctx :: "int \<Rightarrow> (fgds_mmap_buffer \<Rightarrow> fgds_mmap_buffer) \<Rightarrow> ('w lib, unit) prog" where
  "upd_ctx d f = sq (assert_or Out_Of_Bounds (0 \<le> d \<and> d < FGDS_MAX_DEVICES))
     (modify (\<lambda>s. s\<lparr>g_dev_ctx := (g_dev_ctx s)(nat d := f (g_dev_ctx s (nat d)))\<rparr>))"

lemma runs_to_dev_ctx [wp, simp]:
  "runs_to (dev_ctx d) s Q = (0 \<le> d \<and> d < 8 \<and> Q (g_dev_ctx s (nat d)) s)"
  by (auto simp: dev_ctx_def)

lemma runs_to_upd_ctx [wp, simp]:
  "runs_to (upd_ctx d f) s Q = (0 \<le> d \<and> d < 8 \<and>
     Q () (s\<lparr>g_dev_ctx := (g_dev_ctx s)(nat d := f (g_dev_ctx s (nat d)))\<rparr>))"
  by (auto simp: upd_ctx_def)

declare dev_ctx_def [run] upd_ctx_def [run]

definition mutex_lock :: "mutex \<Rightarrow> fault + mutex" where
  "mutex_lock m = (case m of Unlocked \<Rightarrow> Inr Locked | Locked \<Rightarrow> Inl Deadlock | Destroyed \<Rightarrow> Inl Bad_Mutex)"

definition mutex_unlock :: "mutex \<Rightarrow> fault + mutex" where
  "mutex_unlock m = (case m of Locked \<Rightarrow> Inr Unlocked | Unlocked \<Rightarrow> Inl Bad_Mutex | Destroyed \<Rightarrow> Inl Bad_Mutex)"

text \<open>A fault or a value computed without the state.\<close>

definition lift :: "fault + 'a \<Rightarrow> ('s, 'a) prog" where
  "lift r = (\<lambda>s. case r of Inl e \<Rightarrow> Inl e | Inr x \<Rightarrow> Inr (x, s))"

lemma runs_to_lift [wp, simp]: "runs_to (lift r) s Q = (\<exists>x. r = Inr x \<and> Q x s)"
  by (auto simp: runs_to_def lift_def split: sum.splits)

lemma mutex_lock_Inr [simp]: "mutex_lock m = Inr m' \<longleftrightarrow> m = Unlocked \<and> m' = Locked"
  by (auto simp: mutex_lock_def split: mutex.splits)

lemma mutex_unlock_Inr [simp]: "mutex_unlock m = Inr m' \<longleftrightarrow> m = Locked \<and> m' = Unlocked"
  by (auto simp: mutex_unlock_def split: mutex.splits)

declare lift_def [run] mutex_lock_def [run] mutex_unlock_def [run]

definition acquire_lock :: "int \<Rightarrow> ('w lib, unit) prog" where
  "acquire_lock d = bnd (dev_ctx d) (\<lambda>b. bnd (lift (mutex_lock (lock b))) (\<lambda>m.
     upd_ctx d (\<lambda>b. b\<lparr>lock := m\<rparr>)))"

definition release_lock :: "int \<Rightarrow> ('w lib, unit) prog" where
  "release_lock d = bnd (dev_ctx d) (\<lambda>b. bnd (lift (mutex_unlock (lock b))) (\<lambda>m.
     upd_ctx d (\<lambda>b. b\<lparr>lock := m\<rparr>)))"

definition acquire_uring_lock :: "int \<Rightarrow> ('w lib, unit) prog" where
  "acquire_uring_lock d = bnd (dev_ctx d) (\<lambda>b. bnd (lift (mutex_lock (uring_lock b))) (\<lambda>m.
     upd_ctx d (\<lambda>b. b\<lparr>uring_lock := m\<rparr>)))"

definition release_uring_lock :: "int \<Rightarrow> ('w lib, unit) prog" where
  "release_uring_lock d = bnd (dev_ctx d) (\<lambda>b. bnd (lift (mutex_unlock (uring_lock b))) (\<lambda>m.
     upd_ctx d (\<lambda>b. b\<lparr>uring_lock := m\<rparr>)))"

text \<open>
  \<open>pthread_mutex_destroy\<close> of a mutex that is held or already destroyed is undefined;
  \<open>pthread_mutex_init\<close> makes a free mutex.
\<close>

definition mutex_destroy :: "mutex \<Rightarrow> fault + mutex" where
  "mutex_destroy m = (case m of Unlocked \<Rightarrow> Inr Destroyed | _ \<Rightarrow> Inl Bad_Mutex)"

lemma mutex_destroy_Inr [simp]: "mutex_destroy m = Inr m' \<longleftrightarrow> m = Unlocked \<and> m' = Destroyed"
  by (auto simp: mutex_destroy_def split: mutex.splits)

declare mutex_destroy_def [run]

lemmas lock_defs = acquire_lock_def release_lock_def acquire_uring_lock_def release_uring_lock_def

section \<open>Nodes\<close>

definition load_node :: "nat \<Rightarrow> ('w lib, fgds_mmap_node) prog" where
  "load_node p = bnd (gets (\<lambda>s. node_heap s p)) (the_or Use_After_Free)"

definition store_node :: "nat \<Rightarrow> fgds_mmap_node \<Rightarrow> ('w lib, unit) prog" where
  "store_node p n = bnd (load_node p) (\<lambda>_. modify (\<lambda>s. s\<lparr>node_heap := (node_heap s)(p \<mapsto> n)\<rparr>))"

text \<open>
  \<open>malloc(sizeof(fgds_mmap_node_t))\<close>: a new address, or none. The fields of a new node hold
  no meaningful value until they are assigned; no code reads one before.
\<close>

definition blank_node :: fgds_mmap_node where
  "blank_node = \<lparr>vaddrs = [], mmap_count = 0, gpu_addr = 0, node_length = 0, length_left = 0,
     is_mapped = False, next_node = None\<rparr>"

definition malloc_node :: "'w os \<Rightarrow> ('w lib, nat option) prog" where
  "malloc_node os = bnd (malloc os 56) (\<lambda>ok. if \<not> ok then ret None else
     bnd (gets next_ptr) (\<lambda>p.
     sq (modify (\<lambda>s. s\<lparr>node_heap := (node_heap s)(p \<mapsto> blank_node), next_ptr := Suc p\<rparr>))
     (ret (Some p))))"

definition free_node :: "nat \<Rightarrow> ('w lib, unit) prog" where
  "free_node p = bnd (gets (\<lambda>s. node_heap s p)) (\<lambda>n.
     sq (assert_or Double_Free (n \<noteq> None)) (modify (\<lambda>s. s\<lparr>node_heap := (node_heap s)(p := None)\<rparr>)))"

lemma runs_to_load_node [wp, simp]:
  "runs_to (load_node p) s Q = (\<exists>n. node_heap s p = Some n \<and> Q n s)"
  by (simp add: load_node_def)

lemma runs_to_store_node [wp, simp]:
  "runs_to (store_node p n) s Q = (node_heap s p \<noteq> None \<and>
     Q () (s\<lparr>node_heap := (node_heap s)(p \<mapsto> n)\<rparr>))"
  by (auto simp: store_node_def)

lemma runs_to_free_node [wp, simp]:
  "runs_to (free_node p) s Q = (node_heap s p \<noteq> None \<and>
     Q () (s\<lparr>node_heap := (node_heap s)(p := None)\<rparr>))"
  by (auto simp: free_node_def)

declare load_node_def [run] store_node_def [run] free_node_def [run] malloc_node_def [run]

section \<open>The state at program start and a concrete environment\<close>

text \<open>
  The library's static objects are zero-initialised; a zero \<open>pthread_mutex_t\<close> is a free mutex.
\<close>

definition ctx_init :: fgds_mmap_buffer where
  "ctx_init = \<lparr>device_id = 0, dev_fd = 0, initialized = False, head = None, lock = Unlocked,
     uring_init = False, uring_lock = Unlocked\<rparr>"

definition lib_init :: "'w \<Rightarrow> 'w lib" where
  "lib_init w = \<lparr>g_dev_ctx = (\<lambda>_. ctx_init), fgds_initialized = (\<lambda>_. False), node_heap = Map.empty,
     next_ptr = 0, vaddrs_live = 0, xfer_live = 0, calls = [], world = w\<rparr>"

text \<open>
  An environment in which every call succeeds, used to evaluate the model. Mappings are placed
  one after the other; a ring keeps the sizes of the requests not yet submitted and those of
  the completions not yet consumed.
\<close>

record sim_world =
  sim_va :: u64
  sim_sq :: "u32 list"
  sim_cq :: "u32 list"

definition sim_os :: "sim_world os" where
  "sim_os = \<lparr>
     os_open = (\<lambda>_ w. (3, w)),
     os_close = (\<lambda>_ w. (0, w)),
     os_malloc = (\<lambda>_ w. (True, w)),
     os_mmap = (\<lambda>len _ w. (Some (sim_va w), w\<lparr>sim_va := sim_va w + len\<rparr>)),
     os_munmap = (\<lambda>_ _ w. (0, w)),
     os_ioctl = (\<lambda>_ _ _ w. (0, w)),
     os_pread = (\<lambda>_ _ n _ w. (n, w)),
     os_pwrite = (\<lambda>_ _ n _ w. (n, w)),
     ring_queue_init = (\<lambda>_ w. (0, w\<lparr>sim_sq := [], sim_cq := []\<rparr>)),
     ring_queue_exit = (\<lambda>_ w. w\<lparr>sim_sq := [], sim_cq := []\<rparr>),
     ring_get_sqe = (\<lambda>_ w. (length (sim_sq w) < FGDS_URING_QD, w)),
     ring_prep_rw = (\<lambda>_ _ _ _ n _ w. w\<lparr>sim_sq := sim_sq w @ [n]\<rparr>),
     ring_submit = (\<lambda>_ w. (int (length (sim_sq w)), w\<lparr>sim_sq := [], sim_cq := sim_cq w @ sim_sq w\<rparr>)),
     ring_wait_cqe = (\<lambda>_ w. (case sim_cq w of [] \<Rightarrow> (-4, 0) | n # _ \<Rightarrow> (0, uint n), w)),
     ring_peek_cqe = (\<lambda>_ w. (case sim_cq w of [] \<Rightarrow> -11 | _ \<Rightarrow> 0, w)),
     ring_cqe_seen = (\<lambda>_ w. w\<lparr>sim_cq := tl (sim_cq w)\<rparr>)\<rparr>"

definition sim_world_init :: sim_world where
  "sim_world_init = \<lparr>sim_va = 0x7f0000000000, sim_sq = [], sim_cq = []\<rparr>"

end
