(* ===== verification/Fgds_Registry.thy ===== *)
theory Fgds_Registry
  imports Fgds_State
begin

text \<open>
  The registry of registered GPU buffers: one singly linked list of nodes per device
  (libfgds/fgds.cc, \<open>insert_fgds_mmap_node\<close>, \<open>find_fgds_mmap_node\<close>, \<open>delete_fgds_mmap_node\<close>,
  \<open>fgds_free_mmap_nodes\<close>). The operations work on \<open>next\<close> pointers in the node store. A walk
  along a list carries fuel, the number of nodes ever allocated; a list with no cycle is
  shorter than that, so running out of fuel is a loop that does not end.

  The locale \<open>node_registry\<close> is the contract the rest of the library relies on, over an
  abstract list of entries per device; its interpretation on the pointer operations is the
  refinement proof.
\<close>

section \<open>Operations\<close>

definition insert_fgds_mmap_node :: "int \<Rightarrow> nat option \<Rightarrow> ('w lib, int) prog" where
  "insert_fgds_mmap_node d new_node =
     (case new_node of None \<Rightarrow> ret (-1)
      | Some p \<Rightarrow>
          sq (acquire_lock d) (
          bnd (dev_ctx d) (\<lambda>b.
          bnd (load_node p) (\<lambda>n.
          sq (store_node p (n\<lparr>next_node := head b\<rparr>)) (
          sq (upd_ctx d (\<lambda>b. b\<lparr>head := Some p\<rparr>)) (
          sq (release_lock d) (
          ret 0)))))))"

text \<open>The test of the search loop; both sums wrap around at 64 bits.\<close>

definition node_covers :: "u64 \<Rightarrow> u64 \<Rightarrow> fgds_mmap_node \<Rightarrow> bool" where
  "node_covers addr len n \<longleftrightarrow> gpu_addr n \<le> addr \<and> addr + len \<le> gpu_addr n + node_length n"

fun find_loop :: "nat \<Rightarrow> nat option \<Rightarrow> u64 \<Rightarrow> u64 \<Rightarrow> ('w lib, nat option) prog" where
  "find_loop fuel None addr len = ret None"
| "find_loop fuel (Some p) addr len =
     (if fuel = 0 then fail Diverges
      else bnd (load_node p) (\<lambda>n.
        if node_covers addr len n then ret (Some p)
        else find_loop (fuel - 1) (next_node n) addr len))"

definition find_fgds_mmap_node :: "int \<Rightarrow> u64 \<Rightarrow> u64 \<Rightarrow> ('w lib, nat option) prog" where
  "find_fgds_mmap_node d addr len = bnd (dev_ctx d) (\<lambda>b. bnd (gets next_ptr) (\<lambda>fuel.
     find_loop fuel (head b) addr len))"

fun delete_loop :: "nat \<Rightarrow> int \<Rightarrow> nat \<Rightarrow> nat option \<Rightarrow> nat option \<Rightarrow> ('w lib, int) prog" where
  "delete_loop fuel d node previous None = sq (release_lock d) (ret (-1))"
| "delete_loop fuel d node previous (Some c) =
     (if fuel = 0 then fail Diverges
      else bnd (load_node c) (\<lambda>cn. bnd (load_node node) (\<lambda>nn.
        if gpu_addr cn = gpu_addr nn then
          sq (case previous of
                Some q \<Rightarrow> bnd (load_node q) (\<lambda>qn. store_node q (qn\<lparr>next_node := next_node cn\<rparr>))
              | None \<Rightarrow> upd_ctx d (\<lambda>b. b\<lparr>head := next_node cn\<rparr>))
          (sq (release_lock d) (ret 0))
        else delete_loop (fuel - 1) d node (Some c) (next_node cn))))"

definition delete_fgds_mmap_node :: "int \<Rightarrow> nat \<Rightarrow> ('w lib, int) prog" where
  "delete_fgds_mmap_node d node = bnd (dev_ctx d) (\<lambda>b. bnd (gets next_ptr) (\<lambda>fuel.
     sq (acquire_lock d) (delete_loop fuel d node None (head b))))"

fun free_loop :: "nat \<Rightarrow> nat option \<Rightarrow> ('w lib, unit) prog" where
  "free_loop fuel None = ret ()"
| "free_loop fuel (Some c) =
     (if fuel = 0 then fail Diverges
      else bnd (load_node c) (\<lambda>cn. sq (free_node c) (free_loop (fuel - 1) (next_node cn))))"

definition fgds_free_mmap_nodes :: "int \<Rightarrow> ('w lib, unit) prog" where
  "fgds_free_mmap_nodes d = bnd (dev_ctx d) (\<lambda>b. bnd (gets next_ptr) (\<lambda>fuel.
     sq (acquire_lock d) (
     sq (free_loop fuel (head b)) (
     sq (upd_ctx d (\<lambda>b. b\<lparr>head := None\<rparr>)) (
     release_lock d)))))"

declare insert_fgds_mmap_node_def [run] find_fgds_mmap_node_def [run]
  delete_fgds_mmap_node_def [run] fgds_free_mmap_nodes_def [run] node_covers_def [run]

section \<open>Lists in the store\<close>

fun chain :: "(nat \<rightharpoonup> fgds_mmap_node) \<Rightarrow> nat option \<Rightarrow> nat list \<Rightarrow> bool" where
  "chain h p [] \<longleftrightarrow> p = None"
| "chain h p (x # xs) \<longleftrightarrow> p = Some x \<and> (\<exists>n. h x = Some n \<and> chain h (next_node n) xs)"

text \<open>The pointers of a list, read from the store.\<close>

fun chain_ptrs :: "(nat \<rightharpoonup> fgds_mmap_node) \<Rightarrow> nat \<Rightarrow> nat option \<Rightarrow> nat list" where
  "chain_ptrs h fuel None = []"
| "chain_ptrs h fuel (Some p) =
     (if fuel = 0 then [] else case h p of None \<Rightarrow> [] | Some n \<Rightarrow> p # chain_ptrs h (fuel - 1) (next_node n))"

lemma chain_ptrs_eq: "chain h p xs \<Longrightarrow> length xs \<le> fuel \<Longrightarrow> chain_ptrs h fuel p = xs"
  by (induction xs arbitrary: p fuel) auto

lemma chain_unique: "chain h p xs \<Longrightarrow> chain h p ys \<Longrightarrow> xs = ys"
proof (induction xs arbitrary: p ys)
  case Nil
  then show ?case by (cases ys) auto
next
  case (Cons x xs)
  then show ?case by (cases ys) auto
qed


lemma chain_dom: "chain h p xs \<Longrightarrow> x \<in> set xs \<Longrightarrow> \<exists>n. h x = Some n"
  by (induction xs arbitrary: p) auto

lemma chain_suffix: "chain h p (xs @ x # ys) \<Longrightarrow> chain h (Some x) (x # ys)"
  by (induction xs arbitrary: p) auto

lemma chain_distinct: "chain h p xs \<Longrightarrow> distinct xs"
proof (induction xs arbitrary: p)
  case (Cons x xs)
  then obtain n where n: "h x = Some n" "chain h (next_node n) xs" by auto
  have "x \<notin> set xs"
  proof
    assume "x \<in> set xs"
    then obtain ys zs where "xs = ys @ x # zs" by (meson split_list)
    with n have "chain h (Some x) (x # zs)" and "chain h (Some x) (x # xs)"
      by (auto dest: chain_suffix)
    then have "zs = xs" by (blast dest: chain_unique)
    with \<open>xs = ys @ x # zs\<close> show False by simp
  qed
  with Cons n show ?case by auto
qed simp

lemma chain_cong: "(\<And>x. x \<in> set xs \<Longrightarrow> h' x = h x) \<Longrightarrow> chain h' p xs = chain h p xs"
  by (induction xs arbitrary: p) auto

lemma chain_upd_other [simp]: "x \<notin> set xs \<Longrightarrow> chain (h(x := v)) p xs = chain h p xs"
  by (rule chain_cong) auto

lemma chain_splice:
  assumes "chain h p (xs @ q # x # ys)" and "h q = Some qn" and "h x = Some xn"
  shows "chain (h(q \<mapsto> qn\<lparr>next_node := next_node xn\<rparr>)) p (xs @ q # ys)"
  using assms
proof (induction xs arbitrary: p)
  case Nil
  have "q \<notin> set (x # ys)" using chain_distinct [OF Nil(1)] by simp
  with Nil show ?case by (auto simp del: fun_upd_apply simp: fun_upd_same)
next
  case (Cons z xs)
  have "z \<noteq> q" using chain_distinct [OF Cons.prems(1)] by simp
  with Cons show ?case by auto
qed

section \<open>Entries and invariant\<close>

definition payload :: "fgds_mmap_node \<Rightarrow> fgds_mmap_node" where
  "payload n = n\<lparr>next_node := None\<rparr>"

lemma payload_simps [simp]:
  "vaddrs (payload n) = vaddrs n" "mmap_count (payload n) = mmap_count n"
  "gpu_addr (payload n) = gpu_addr n" "node_length (payload n) = node_length n"
  "length_left (payload n) = length_left n" "is_mapped (payload n) = is_mapped n"
  "node_covers a l (payload n) = node_covers a l n"
  "payload (n\<lparr>next_node := q\<rparr>) = payload n"
  by (simp_all add: payload_def node_covers_def)

definition dev_ptrs :: "'w lib \<Rightarrow> int \<Rightarrow> nat list" where
  "dev_ptrs s d = chain_ptrs (node_heap s) (next_ptr s) (head (g_dev_ctx s (nat d)))"

definition entries_at :: "(nat \<rightharpoonup> fgds_mmap_node) \<Rightarrow> nat list \<Rightarrow> (nat \<times> fgds_mmap_node) list" where
  "entries_at h ps = map (\<lambda>p. (p, payload (the (h p)))) ps"

definition reg_entries :: "'w lib \<Rightarrow> int \<Rightarrow> (nat \<times> fgds_mmap_node) list" where
  "reg_entries s d = entries_at (node_heap s) (dev_ptrs s d)"

abbreviation valid_dev :: "int \<Rightarrow> bool" where
  "valid_dev d \<equiv> 0 \<le> d \<and> d < FGDS_MAX_DEVICES"

definition reg_inv :: "'w lib \<Rightarrow> bool" where
  "reg_inv s \<longleftrightarrow>
     (\<forall>d. valid_dev d \<longrightarrow> chain (node_heap s) (head (g_dev_ctx s (nat d))) (dev_ptrs s d)) \<and>
     (\<forall>d e. valid_dev d \<longrightarrow> valid_dev e \<longrightarrow> d \<noteq> e \<longrightarrow> set (dev_ptrs s d) \<inter> set (dev_ptrs s e) = {}) \<and>
     (\<forall>p. node_heap s p \<noteq> None \<longrightarrow> p < next_ptr s)"

definition reg_ready :: "'w lib \<Rightarrow> int \<Rightarrow> bool" where
  "reg_ready s d \<longleftrightarrow> valid_dev d \<and> lock (g_dev_ctx s (nat d)) = Unlocked"

text \<open>Node \<open>p\<close> is allocated with contents \<open>n\<close>; it is loose when it is in no list.\<close>

definition holds_node :: "'w lib \<Rightarrow> nat \<Rightarrow> fgds_mmap_node \<Rightarrow> bool" where
  "holds_node s p n \<longleftrightarrow> map_option payload (node_heap s p) = Some n"

definition loose_node :: "'w lib \<Rightarrow> nat \<Rightarrow> fgds_mmap_node \<Rightarrow> bool" where
  "loose_node s p n \<longleftrightarrow> holds_node s p n \<and> (\<forall>d. valid_dev d \<longrightarrow> p \<notin> fst ` set (reg_entries s d))"

lemma reg_entries_ptrs: "fst ` set (reg_entries s d) = set (dev_ptrs s d)" "map fst (reg_entries s d) = dev_ptrs s d"
  by (auto simp: reg_entries_def entries_at_def comp_def image_iff)

lemma chain_length_le:
  assumes "chain h p xs" and "\<forall>q. h q \<noteq> None \<longrightarrow> q < k"
  shows "length xs \<le> k"
proof -
  have "set xs \<subseteq> {..<k}" using assms by (auto dest: chain_dom)
  then have "card (set xs) \<le> k" using card_mono [of "{..<k}"] by fastforce
  with chain_distinct [OF assms(1)] show ?thesis by (simp add: distinct_card)
qed

text \<open>To establish the invariant, exhibit a list of pointers for each device.\<close>

lemma reg_invI:
  assumes "\<And>d. valid_dev d \<Longrightarrow> chain (node_heap s) (head (g_dev_ctx s (nat d))) (P d)"
    and "\<And>d e. valid_dev d \<Longrightarrow> valid_dev e \<Longrightarrow> d \<noteq> e \<Longrightarrow> set (P d) \<inter> set (P e) = {}"
    and "\<And>p. node_heap s p \<noteq> None \<Longrightarrow> p < next_ptr s"
  shows "reg_inv s" and "valid_dev d \<Longrightarrow> dev_ptrs s d = P d"
proof -
  have P: "dev_ptrs s d = P d" if "valid_dev d" for d
    unfolding dev_ptrs_def using assms(1) [OF that] assms(3)
    by (intro chain_ptrs_eq chain_length_le) auto
  then show "valid_dev d \<Longrightarrow> dev_ptrs s d = P d" .
  show "reg_inv s" unfolding reg_inv_def using P assms by simp
qed

lemma reg_inv_chain: "reg_inv s \<Longrightarrow> valid_dev d \<Longrightarrow>
    chain (node_heap s) (head (g_dev_ctx s (nat d))) (dev_ptrs s d)"
  by (simp add: reg_inv_def)

lemma reg_inv_disjoint: "reg_inv s \<Longrightarrow> valid_dev d \<Longrightarrow> valid_dev e \<Longrightarrow> d \<noteq> e \<Longrightarrow>
    set (dev_ptrs s d) \<inter> set (dev_ptrs s e) = {}"
  by (simp add: reg_inv_def)

lemma reg_inv_fresh: "reg_inv s \<Longrightarrow> node_heap s p = Some n \<Longrightarrow> p < next_ptr s"
  by (simp add: reg_inv_def)

lemma reg_inv_length: "reg_inv s \<Longrightarrow> valid_dev d \<Longrightarrow> length (dev_ptrs s d) \<le> next_ptr s"
  by (rule chain_length_le [OF reg_inv_chain]) (auto simp: reg_inv_def)

lemma entries_at_cong: "(\<And>p. p \<in> set ps \<Longrightarrow> payload (the (h' p)) = payload (the (h p))) \<Longrightarrow>
    entries_at h' ps = entries_at h ps"
  by (simp add: entries_at_def)

text \<open>The registry depends on the store, the number of allocations and the heads only.\<close>

lemma reg_inv_cong:
  assumes "node_heap t = node_heap s" and "next_ptr t = next_ptr s"
    and "\<And>d. valid_dev d \<Longrightarrow> head (g_dev_ctx t (nat d)) = head (g_dev_ctx s (nat d))"
  shows "reg_inv t = reg_inv s" and "valid_dev d \<Longrightarrow> dev_ptrs t d = dev_ptrs s d"
proof -
  have P: "dev_ptrs t d = dev_ptrs s d" if "valid_dev d" for d using assms that by (simp add: dev_ptrs_def)
  then show "valid_dev d \<Longrightarrow> dev_ptrs t d = dev_ptrs s d" .
  show "reg_inv t = reg_inv s" unfolding reg_inv_def using assms P by simp
qed

lemma reg_frame [simp]:
  "dev_ptrs (s\<lparr>world := w\<rparr>) d = dev_ptrs s d" "dev_ptrs (s\<lparr>calls := c\<rparr>) d = dev_ptrs s d"
  "dev_ptrs (s\<lparr>xfer_live := k\<rparr>) d = dev_ptrs s d" "dev_ptrs (s\<lparr>vaddrs_live := k\<rparr>) d = dev_ptrs s d"
  "dev_ptrs (s\<lparr>fgds_initialized := f\<rparr>) d = dev_ptrs s d"
  "reg_inv (s\<lparr>world := w\<rparr>) = reg_inv s" "reg_inv (s\<lparr>calls := c\<rparr>) = reg_inv s"
  "reg_inv (s\<lparr>xfer_live := k\<rparr>) = reg_inv s" "reg_inv (s\<lparr>vaddrs_live := k\<rparr>) = reg_inv s"
  "reg_inv (s\<lparr>fgds_initialized := f\<rparr>) = reg_inv s"
  "reg_entries (s\<lparr>world := w\<rparr>) d = reg_entries s d" "reg_entries (s\<lparr>calls := c\<rparr>) d = reg_entries s d"
  "reg_entries (s\<lparr>xfer_live := k\<rparr>) d = reg_entries s d" "reg_entries (s\<lparr>vaddrs_live := k\<rparr>) d = reg_entries s d"
  "reg_entries (s\<lparr>fgds_initialized := f\<rparr>) d = reg_entries s d"
  by (simp_all add: dev_ptrs_def reg_inv_def reg_entries_def)

lemma head_comp_upd [simp]: "head b = head (f k) \<Longrightarrow> head \<circ> f(k := b) = head \<circ> f"
  by (auto simp: fun_eq_iff)

lemma reg_frame_ctx [simp]:
  assumes "head \<circ> c = head \<circ> g_dev_ctx s"
  shows "dev_ptrs (s\<lparr>g_dev_ctx := c\<rparr>) d = dev_ptrs s d"
    and "reg_inv (s\<lparr>g_dev_ctx := c\<rparr>) = reg_inv s"
    and "reg_entries (s\<lparr>g_dev_ctx := c\<rparr>) d = reg_entries s d"
proof -
  have h: "head (c i) = head (g_dev_ctx s i)" for i using assms by (metis comp_apply)
  then show "dev_ptrs (s\<lparr>g_dev_ctx := c\<rparr>) d = dev_ptrs s d"
    "reg_inv (s\<lparr>g_dev_ctx := c\<rparr>) = reg_inv s"
    "reg_entries (s\<lparr>g_dev_ctx := c\<rparr>) d = reg_entries s d"
    by (simp_all add: dev_ptrs_def reg_inv_def reg_entries_def)
qed

section \<open>The loops on a list\<close>

lemma find_loop_eq:
  assumes "chain (node_heap s) p ps" and "length ps \<le> fuel"
  shows "find_loop fuel p addr len s =
    Inr (map_option fst (List.find (node_covers addr len \<circ> snd) (entries_at (node_heap s) ps)), s)"
  using assms
proof (induction ps arbitrary: p fuel)
  case Nil
  then show ?case by (simp add: entries_at_def run)
next
  case (Cons x ps)
  then obtain n where "node_heap s x = Some n" "chain (node_heap s) (next_node n) ps" "p = Some x"
    by auto
  with Cons show ?case by (auto simp: entries_at_def run)
qed

definition same_payloads :: "(nat \<rightharpoonup> fgds_mmap_node) \<Rightarrow> (nat \<rightharpoonup> fgds_mmap_node) \<Rightarrow> bool" where
  "same_payloads h h' \<longleftrightarrow> (\<forall>p. map_option payload (h' p) = map_option payload (h p))"

lemma same_payloads_refl [simp]: "same_payloads h h"
  by (simp add: same_payloads_def)

lemma same_payloads_next: "h q = Some n \<Longrightarrow> same_payloads h (h(q \<mapsto> n\<lparr>next_node := x\<rparr>))"
  by (simp add: same_payloads_def)

lemma same_payloads_None: "same_payloads h h' \<Longrightarrow> h' p = None \<longleftrightarrow> h p = None"
  by (simp add: same_payloads_def) (metis map_option_is_None)

lemma same_payloads_entries:
  assumes "same_payloads h h'" and "\<forall>p\<in>set ps. h p \<noteq> None"
  shows "entries_at h' ps = entries_at h ps"
proof (rule entries_at_cong)
  fix p assume "p \<in> set ps"
  with assms have "map_option payload (h' p) = map_option payload (h p)" and "h p \<noteq> None"
    by (auto simp: same_payloads_def)
  then show "payload (the (h' p)) = payload (the (h p))" by (cases "h' p") auto
qed

text \<open>
  The state after a successful deletion: only the store's \<open>next\<close> pointers and the head and lock
  of the device's context have changed.
\<close>

definition relinked :: "'w lib \<Rightarrow> int \<Rightarrow> nat set \<Rightarrow> nat list \<Rightarrow> 'w lib \<Rightarrow> bool" where
  "relinked s d old ps t \<longleftrightarrow>
     (\<exists>h hp. t = s\<lparr>node_heap := h,
          g_dev_ctx := (g_dev_ctx s)(nat d := (g_dev_ctx s (nat d))\<lparr>head := hp, lock := Unlocked\<rparr>)\<rparr> \<and>
        same_payloads (node_heap s) h \<and> (\<forall>p. p \<notin> old \<longrightarrow> h p = node_heap s p) \<and> chain h hp ps)"

lemma relinkedI_head:
  assumes "chain (node_heap s) hp ps"
  shows "relinked s d old ps (s\<lparr>g_dev_ctx := (g_dev_ctx s)(nat d := (g_dev_ctx s (nat d))\<lparr>head := hp, lock := Unlocked\<rparr>)\<rparr>)"
  unfolding relinked_def
  by (rule exI [of _ "node_heap s"], rule exI [of _ hp]) (simp add: assms)

lemma delete_loop_spec:
  assumes "chain (node_heap s) (head (g_dev_ctx s (nat d))) (ps1 @ ps2)"
    and "chain (node_heap s) cur ps2"
    and "prev = (if ps1 = [] then None else Some (last ps1))"
    and "length ps2 \<le> fuel" and "valid_dev d" and "lock (g_dev_ctx s (nat d)) = Locked"
    and "node_heap s node = Some nn"
    and "\<exists>x\<in>set ps2. gpu_addr (the (node_heap s x)) = gpu_addr nn"
  shows "runs_to (delete_loop fuel d node prev cur) s (\<lambda>r t. r = 0 \<and>
    relinked s d (set (ps1 @ ps2)) (ps1 @ remove_first (\<lambda>x. gpu_addr (the (node_heap s x)) = gpu_addr nn) ps2) t)"
  using assms
proof (induction ps2 arbitrary: ps1 prev cur fuel)
  case Nil
  then show ?case by simp
next
  case (Cons c ps2)
  then obtain cn where c: "node_heap s c = Some cn" "chain (node_heap s) (next_node cn) ps2" "cur = Some c"
    by auto
  from Cons.prems(4) have fuel: "fuel \<noteq> 0" by simp
  show ?case
  proof (cases "gpu_addr cn = gpu_addr nn")
    case False
    have "chain (node_heap s) (head (g_dev_ctx s (nat d))) ((ps1 @ [c]) @ ps2)"
      using Cons.prems(1) by simp
    from Cons.IH [OF this c(2), of "Some c" "fuel - 1"] Cons.prems False c fuel
    show ?thesis by auto
  next
    case True
    show ?thesis
    proof (cases "ps1 = []")
      case True
      with Cons.prems c fuel \<open>gpu_addr cn = gpu_addr nn\<close> show ?thesis
        by (simp add: lock_defs relinkedI_head)
    next
      case False
      define q where "q = last ps1"
      have ps1: "ps1 = butlast ps1 @ [q]" using False by (simp add: q_def)
      have ch: "chain (node_heap s) (head (g_dev_ctx s (nat d))) (butlast ps1 @ q # c # ps2)"
        using Cons.prems(1) ps1 by (metis append.assoc append_Cons append_Nil)
      then obtain qn where qn: "node_heap s q = Some qn" by (auto dest: chain_dom)
      let ?h = "(node_heap s)(q \<mapsto> qn\<lparr>next_node := next_node cn\<rparr>)"
      have "chain ?h (head (g_dev_ctx s (nat d))) (butlast ps1 @ q # ps2)"
        by (rule chain_splice [OF ch qn c(1)])
      then have ch': "chain ?h (head (g_dev_ctx s (nat d))) (ps1 @ ps2)"
        using ps1 by (metis append.assoc append_Cons append_Nil)
      have "q \<in> set (ps1 @ c # ps2)" using False by (simp add: q_def)
      then have "relinked s d (set (ps1 @ c # ps2)) (ps1 @ ps2) (s\<lparr>node_heap := ?h,
          g_dev_ctx := (g_dev_ctx s)(nat d := (g_dev_ctx s (nat d))\<lparr>head := head (g_dev_ctx s (nat d)), lock := Unlocked\<rparr>)\<rparr>)"
        unfolding relinked_def using ch' same_payloads_next [of "node_heap s", OF qn]
        by (intro exI conjI) (auto simp del: set_append)
      with Cons.prems c fuel \<open>gpu_addr cn = gpu_addr nn\<close> False qn show ?thesis
        by (simp add: lock_defs q_def)
    qed
  qed
qed

lemma relinked_reg_inv:
  assumes "reg_inv s" and "valid_dev d" and "relinked s d old ps t"
    and "set ps \<subseteq> old" and "\<forall>e. valid_dev e \<longrightarrow> e \<noteq> d \<longrightarrow> old \<inter> set (dev_ptrs s e) = {}"
  shows "reg_inv t" and "dev_ptrs t d = ps" and "valid_dev e \<Longrightarrow> e \<noteq> d \<Longrightarrow> dev_ptrs t e = dev_ptrs s e"
proof -
  define P where "P e = (if e = d then ps else dev_ptrs s e)" for e
  from assms(3) obtain h hp where
    t: "t = s\<lparr>node_heap := h, g_dev_ctx := (g_dev_ctx s)(nat d := (g_dev_ctx s (nat d))\<lparr>head := hp, lock := Unlocked\<rparr>)\<rparr>"
    and same: "same_payloads (node_heap s) h" "\<forall>p. p \<notin> old \<longrightarrow> h p = node_heap s p" and ch: "chain h hp ps"
    unfolding relinked_def by blast
  have other: "chain h (head (g_dev_ctx s (nat e))) (dev_ptrs s e)" if "valid_dev e" "e \<noteq> d" for e
  proof -
    have "chain (node_heap s) (head (g_dev_ctx s (nat e))) (dev_ptrs s e)"
      by (rule reg_inv_chain [OF assms(1) that(1)])
    moreover have "h x = node_heap s x" if "x \<in> set (dev_ptrs s e)" for x
      using that same(2) assms(5) \<open>valid_dev e\<close> \<open>e \<noteq> d\<close> by blast
    ultimately show ?thesis using chain_cong [of "dev_ptrs s e" h "node_heap s"] by blast
  qed
  have chP: "chain (node_heap t) (head (g_dev_ctx t (nat e))) (P e)" if "valid_dev e" for e
    using that ch other assms(2) by (auto simp: t P_def)
  have disj: "set (P e) \<inter> set (P e') = {}" if "valid_dev e" "valid_dev e'" "e \<noteq> e'" for e e'
    using that reg_inv_disjoint [OF assms(1)] assms(4,5) unfolding P_def by (auto split: if_splits) blast+
  have fresh: "p < next_ptr t" if "node_heap t p \<noteq> None" for p
    using that assms(1) same_payloads_None [OF same(1)] by (auto simp: t reg_inv_def)
  note I = reg_invI [of t P, OF chP disj fresh]
  show "reg_inv t" by (rule I(1))
  show "dev_ptrs t d = ps" using I(2) [of d] assms(2) by (simp add: P_def)
  show "valid_dev e \<Longrightarrow> e \<noteq> d \<Longrightarrow> dev_ptrs t e = dev_ptrs s e" using I(2) [of e] by (simp add: P_def)
qed

section \<open>The contract of the registry\<close>

text \<open>
  What the clients of the registry rely on. \<open>entries s d\<close> is the list of registered buffers of
  device \<open>d\<close>, newest first; \<open>holds s p n\<close> says that node \<open>p\<close> is allocated with contents \<open>n\<close>;
  \<open>dev\<close> are the devices there are and \<open>ready\<close> those whose list can be locked; \<open>rest\<close> is the part
  of the state the registry does not touch. A deletion removes the first entry whose GPU address
  is that of the given node, as the code compares addresses and not pointers.
\<close>

locale node_registry =
  fixes find_op :: "int \<Rightarrow> u64 \<Rightarrow> u64 \<Rightarrow> ('s, nat option) prog"
    and insert_op :: "int \<Rightarrow> nat option \<Rightarrow> ('s, int) prog"
    and delete_op :: "int \<Rightarrow> nat \<Rightarrow> ('s, int) prog"
    and inv :: "'s \<Rightarrow> bool"
    and dev :: "int \<Rightarrow> bool"
    and ready :: "'s \<Rightarrow> int \<Rightarrow> bool"
    and holds :: "'s \<Rightarrow> nat \<Rightarrow> fgds_mmap_node \<Rightarrow> bool"
    and entries :: "'s \<Rightarrow> int \<Rightarrow> (nat \<times> fgds_mmap_node) list"
    and rest :: "'s \<Rightarrow> 'r"
  assumes find_law: "inv s \<Longrightarrow> dev d \<Longrightarrow>
      find_op d a l s = Inr (map_option fst (List.find (node_covers a l \<circ> snd) (entries s d)), s)"
    and insert_law: "inv s \<Longrightarrow> ready s d \<Longrightarrow> holds s p n \<Longrightarrow> \<forall>e. dev e \<longrightarrow> p \<notin> fst ` set (entries s e) \<Longrightarrow>
      runs_to (insert_op d (Some p)) s (\<lambda>r t. r = 0 \<and> inv t \<and> ready t d \<and> rest t = rest s \<and>
        (\<forall>q m. holds s q m \<longrightarrow> holds t q m) \<and>
        entries t d = (p, n) # entries s d \<and> (\<forall>e. dev e \<longrightarrow> e \<noteq> d \<longrightarrow> entries t e = entries s e))"
    and delete_law: "inv s \<Longrightarrow> ready s d \<Longrightarrow> (p, n) \<in> set (entries s d) \<Longrightarrow>
      runs_to (delete_op d p) s (\<lambda>r t. r = 0 \<and> inv t \<and> ready t d \<and> rest t = rest s \<and>
        (\<forall>q m. holds s q m \<longrightarrow> holds t q m) \<and>
        entries t d = remove_first (\<lambda>e. gpu_addr (snd e) = gpu_addr n) (entries s d) \<and>
        (\<forall>e. dev e \<longrightarrow> e \<noteq> d \<longrightarrow> entries t e = entries s e))"
    and ready_dev: "ready s d \<Longrightarrow> dev d"
    and entries_hold: "inv s \<Longrightarrow> dev d \<Longrightarrow> (p, n) \<in> set (entries s d) \<Longrightarrow> holds s p n"
    and entries_distinct: "inv s \<Longrightarrow> dev d \<Longrightarrow> distinct (map fst (entries s d))"
    and entries_disjoint: "inv s \<Longrightarrow> dev d \<Longrightarrow> dev e \<Longrightarrow> d \<noteq> e \<Longrightarrow>
      fst ` set (entries s d) \<inter> fst ` set (entries s e) = {}"
begin

text \<open>A buffer just registered is the one a covered address range finds.\<close>

lemma insert_then_find:
  assumes "inv s" and "ready s d" and "holds s p n" and "\<forall>e. dev e \<longrightarrow> p \<notin> fst ` set (entries s e)"
  shows "runs_to (sq (insert_op d (Some p)) (find_op d a l)) s (\<lambda>r t. r =
    (if node_covers a l n then Some p else map_option fst (List.find (node_covers a l \<circ> snd) (entries s d))))"
  unfolding runs_to_sq
proof (rule runs_to_mono [OF insert_law [OF assms]], elim conjE)
  fix r t
  assume "inv t" and "entries t d = (p, n) # entries s d"
  then show "runs_to (find_op d a l) t (\<lambda>r t. r =
      (if node_covers a l n then Some p else map_option fst (List.find (node_covers a l \<circ> snd) (entries s d))))"
    using ready_dev [OF assms(2)] by (intro runs_toI [OF find_law]) auto
qed

text \<open>
  Where no two registered buffers of the device start at the same address, deletion removes
  exactly the given node, which is then in no list.
\<close>

lemma delete_exact:
  assumes "inv s" and "ready s d" and "(p, n) \<in> set (entries s d)"
    and "distinct (map (gpu_addr \<circ> snd) (entries s d))"
  shows "runs_to (delete_op d p) s (\<lambda>r t. r = 0 \<and> inv t \<and> ready t d \<and> rest t = rest s \<and>
    entries t d = filter (\<lambda>e. fst e \<noteq> p) (entries s d) \<and> (\<forall>e. dev e \<longrightarrow> e \<noteq> d \<longrightarrow> entries t e = entries s e) \<and>
    holds t p n \<and> (\<forall>e. dev e \<longrightarrow> p \<notin> fst ` set (entries t e)))"
proof (rule runs_to_mono [OF delete_law [OF assms(1-3)]], elim conjE)
  fix r t
  assume t: "r = 0" "inv t" "ready t d" "rest t = rest s" "\<forall>q m. holds s q m \<longrightarrow> holds t q m"
    and rem: "entries t d = remove_first (\<lambda>e. gpu_addr (snd e) = gpu_addr n) (entries s d)"
    and other: "\<forall>e. dev e \<longrightarrow> e \<noteq> d \<longrightarrow> entries t e = entries s e"
  have d: "dev d" by (rule ready_dev [OF assms(2)])
  have "remove_first (\<lambda>e. (gpu_addr \<circ> snd) e = (gpu_addr \<circ> snd) (p, n)) (entries s d) =
      filter (\<lambda>e. e \<noteq> (p, n)) (entries s d)"
    by (rule remove_first_inj_key [OF assms(4) assms(3)])
  moreover have "filter (\<lambda>e. e \<noteq> (p, n)) (entries s d) = filter (\<lambda>e. fst e \<noteq> p) (entries s d)"
  proof (rule filter_cong [OF refl])
    fix e assume "e \<in> set (entries s d)"
    then have "fst e = p \<Longrightarrow> snd e = n"
      using eq_key_imp_eq_value [OF entries_distinct [OF assms(1) d] _ assms(3)] by (metis prod.collapse)
    then show "(e \<noteq> (p, n)) = (fst e \<noteq> p)" by (cases e) auto
  qed
  ultimately have ent: "entries t d = filter (\<lambda>e. fst e \<noteq> p) (entries s d)" using rem by simp
  have "p \<in> fst ` set (entries s d)" using assms(3) by force
  then have "p \<notin> fst ` set (entries t e)" if "dev e" for e
    using that ent other entries_disjoint [OF assms(1) d, of e] by (cases "e = d") auto
  then show "r = 0 \<and> inv t \<and> ready t d \<and> rest t = rest s \<and>
      entries t d = filter (\<lambda>e. fst e \<noteq> p) (entries s d) \<and> (\<forall>e. dev e \<longrightarrow> e \<noteq> d \<longrightarrow> entries t e = entries s e) \<and>
      holds t p n \<and> (\<forall>e. dev e \<longrightarrow> p \<notin> fst ` set (entries t e))"
    using t ent other entries_hold [OF assms(1) d assms(3)] by blast
qed

end

section \<open>The pointer operations meet the contract\<close>

definition reg_rest :: "'w lib \<Rightarrow> 'w lib" where
  "reg_rest s = s\<lparr>node_heap := Map.empty,
     g_dev_ctx := (\<lambda>d. (g_dev_ctx s d)\<lparr>head := None, lock := Unlocked\<rparr>)\<rparr>"

lemma find_fgds_mmap_node_eq:
  assumes "reg_inv s" and "valid_dev d"
  shows "find_fgds_mmap_node d a l s =
    Inr (map_option fst (List.find (node_covers a l \<circ> snd) (reg_entries s d)), s)"
proof -
  have "find_loop (next_ptr s) (head (g_dev_ctx s (nat d))) a l s =
      Inr (map_option fst (List.find (node_covers a l \<circ> snd) (entries_at (node_heap s) (dev_ptrs s d))), s)"
    by (rule find_loop_eq [OF reg_inv_chain [OF assms] reg_inv_length [OF assms]])
  then show ?thesis using assms(2) by (simp add: run reg_entries_def)
qed

lemma reg_entries_load:
  assumes "reg_inv s" and "valid_dev d" and "(p, nd) \<in> set (reg_entries s d)"
  obtains m where "node_heap s p = Some m" and "payload m = nd"
proof -
  have "p \<in> set (dev_ptrs s d)" and nd: "nd = payload (the (node_heap s p))"
    using assms(3) by (auto simp: reg_entries_def entries_at_def)
  then obtain m where "node_heap s p = Some m"
    using chain_dom [OF reg_inv_chain [OF assms(1,2)]] by blast
  with nd that show thesis by simp
qed

lemma find_in_set: "List.find P xs = Some x \<Longrightarrow> x \<in> set xs \<and> P x"
  by (auto simp: find_Some_iff)

lemma insert_relinked:
  assumes "reg_inv s" and "reg_ready s d" and "loose_node s p n"
  shows "runs_to (insert_fgds_mmap_node d (Some p)) s (\<lambda>r t. r = 0 \<and>
    relinked s d (insert p (set (dev_ptrs s d))) (p # dev_ptrs s d) t)"
proof -
  let ?c = "g_dev_ctx s (nat d)"
  from assms obtain m where m: "node_heap s p = Some m" "p \<notin> set (dev_ptrs s d)"
    by (auto simp: loose_node_def holds_node_def reg_ready_def reg_entries_ptrs)
  let ?h = "(node_heap s)(p \<mapsto> m\<lparr>next_node := head ?c\<rparr>)"
  have "chain ?h (Some p) (p # dev_ptrs s d)"
    using reg_inv_chain [OF assms(1), of d] assms(2) m by (simp add: reg_ready_def del: fun_upd_apply) simp
  then have "relinked s d (insert p (set (dev_ptrs s d))) (p # dev_ptrs s d)
      (s\<lparr>node_heap := ?h, g_dev_ctx := (g_dev_ctx s)(nat d := ?c\<lparr>head := Some p, lock := Unlocked\<rparr>)\<rparr>)"
    unfolding relinked_def using same_payloads_next [of "node_heap s", OF m(1)]
    by (intro exI conjI) auto
  then show ?thesis
    using assms(2) m(1) by (simp add: insert_fgds_mmap_node_def lock_defs reg_ready_def)
qed

lemma delete_relinked:
  assumes "reg_inv s" and "reg_ready s d" and "(p, n) \<in> set (reg_entries s d)"
  shows "runs_to (delete_fgds_mmap_node d p) s (\<lambda>r t. r = 0 \<and>
    relinked s d (set (dev_ptrs s d))
      (remove_first (\<lambda>x. gpu_addr (the (node_heap s x)) = gpu_addr n) (dev_ptrs s d)) t)"
proof -
  let ?c = "g_dev_ctx s (nat d)"
  let ?s = "s\<lparr>g_dev_ctx := (g_dev_ctx s)(nat d := ?c\<lparr>lock := Locked\<rparr>)\<rparr>"
  from assms(2) have d: "valid_dev d" "lock ?c = Unlocked" by (auto simp: reg_ready_def)
  from assms(3) have p: "p \<in> set (dev_ptrs s d)" "n = payload (the (node_heap s p))"
    by (auto simp: reg_entries_def entries_at_def)
  note ch = reg_inv_chain [OF assms(1) d(1)]
  with p obtain m where m: "node_heap s p = Some m" "n = payload m" by (auto dest: chain_dom)
  have ex: "\<exists>x\<in>set (dev_ptrs s d). gpu_addr (the (node_heap s x)) = gpu_addr m"
    using p(1) m(1) by force
  have "runs_to (delete_loop (next_ptr s) d p None (head ?c)) ?s (\<lambda>r t. r = 0 \<and>
      relinked ?s d (set ([] @ dev_ptrs s d))
        ([] @ remove_first (\<lambda>x. gpu_addr (the (node_heap ?s x)) = gpu_addr m) (dev_ptrs s d)) t)"
    by (rule delete_loop_spec) (use ch d m ex reg_inv_length [OF assms(1) d(1)] in auto)
  then have "runs_to (delete_loop (next_ptr s) d p None (head ?c)) ?s (\<lambda>r t. r = 0 \<and>
      relinked s d (set (dev_ptrs s d))
        (remove_first (\<lambda>x. gpu_addr (the (node_heap s x)) = gpu_addr n) (dev_ptrs s d)) t)"
    by (rule runs_to_mono) (use m in \<open>auto simp: relinked_def\<close>)
  then show ?thesis using d by (simp add: delete_fgds_mmap_node_def lock_defs)
qed

lemma relinked_rest: "relinked s d old ps t \<Longrightarrow> reg_rest t = reg_rest s"
  by (auto simp: relinked_def reg_rest_def fun_eq_iff)

lemma relinked_ready: "relinked s d old ps t \<Longrightarrow> valid_dev d \<Longrightarrow> reg_ready t d"
  by (auto simp: relinked_def reg_ready_def)

lemma relinked_payloads: "relinked s d old ps t \<Longrightarrow> same_payloads (node_heap s) (node_heap t)"
  by (auto simp: relinked_def)

lemma entries_relinked:
  assumes "same_payloads (node_heap s) (node_heap t)" and "reg_inv s" and "valid_dev d"
    and "set ps \<subseteq> insert p (set (dev_ptrs s d))" and "node_heap s p \<noteq> None"
  shows "entries_at (node_heap t) ps = entries_at (node_heap s) ps"
  by (rule same_payloads_entries [OF assms(1)])
    (use assms(4,5) chain_dom [OF reg_inv_chain [OF assms(2,3)]] in blast)

lemma holds_relinked: "relinked s d old ps t \<Longrightarrow> holds_node s q m \<Longrightarrow> holds_node t q m"
  using relinked_payloads [of s d old ps t] by (simp add: holds_node_def same_payloads_def)

interpretation reg: node_registry find_fgds_mmap_node insert_fgds_mmap_node delete_fgds_mmap_node
  reg_inv valid_dev reg_ready holds_node reg_entries reg_rest
proof (unfold_locales, goal_cases)
  case (1 s d a l)
  then show ?case by (simp add: find_fgds_mmap_node_eq)
next
  case (2 s d p n)
  then have d: "valid_dev d" and p: "node_heap s p \<noteq> None" "payload (the (node_heap s p)) = n"
    by (auto simp: reg_ready_def holds_node_def)
  have loose: "loose_node s p n" using 2 by (simp add: loose_node_def)
  from 2 have other: "\<forall>e. valid_dev e \<longrightarrow> e \<noteq> d \<longrightarrow> insert p (set (dev_ptrs s d)) \<inter> set (dev_ptrs s e) = {}"
    using d reg_inv_disjoint [of s d] by (simp add: reg_entries_ptrs)
  show ?case
  proof (rule runs_to_mono [OF insert_relinked [OF 2(1,2) loose]], elim conjE)
    fix r t
    assume r: "r = 0" and t: "relinked s d (insert p (set (dev_ptrs s d))) (p # dev_ptrs s d) t"
    have sub: "set (p # dev_ptrs s d) \<subseteq> insert p (set (dev_ptrs s d))" by simp
    note I = relinked_reg_inv [OF 2(1) d t sub other]
    have "entries_at (node_heap t) (p # dev_ptrs s d) = entries_at (node_heap s) (p # dev_ptrs s d)"
      by (rule entries_relinked [OF relinked_payloads [OF t] 2(1) d _ p(1)]) simp
    moreover have "entries_at (node_heap t) (dev_ptrs s e) = entries_at (node_heap s) (dev_ptrs s e)"
      if "valid_dev e" for e
      by (rule entries_relinked [OF relinked_payloads [OF t] 2(1) that _ p(1)]) blast
    ultimately show "r = 0 \<and> reg_inv t \<and> reg_ready t d \<and> reg_rest t = reg_rest s \<and>
        (\<forall>q m. holds_node s q m \<longrightarrow> holds_node t q m) \<and>
        reg_entries t d = (p, n) # reg_entries s d \<and>
        (\<forall>e. valid_dev e \<longrightarrow> e \<noteq> d \<longrightarrow> reg_entries t e = reg_entries s e)"
      unfolding reg_entries_def I(2)
      using r I(1,3) relinked_rest [OF t] relinked_ready [OF t d] p(2) holds_relinked [OF t]
      by (auto simp: entries_at_def)
  qed
next
  case (3 s d p n)
  then have d: "valid_dev d" by (auto simp: reg_ready_def)
  from 3 have p: "p \<in> set (dev_ptrs s d)" by (auto simp: reg_entries_def entries_at_def)
  with chain_dom [OF reg_inv_chain [OF 3(1) d]] have pn: "node_heap s p \<noteq> None" by auto
  from 3 have other: "\<forall>e. valid_dev e \<longrightarrow> e \<noteq> d \<longrightarrow> set (dev_ptrs s d) \<inter> set (dev_ptrs s e) = {}"
    using d reg_inv_disjoint [of s d] by simp
  let ?rem = "remove_first (\<lambda>x. gpu_addr (the (node_heap s x)) = gpu_addr n) (dev_ptrs s d)"
  have sub: "set ?rem \<subseteq> set (dev_ptrs s d)" by (rule set_remove_first_subset)
  have ents: "entries_at (node_heap s) ?rem = remove_first (\<lambda>e. gpu_addr (snd e) = gpu_addr n) (reg_entries s d)"
    using map_remove_first [of "\<lambda>p. (p, payload (the (node_heap s p)))" "\<lambda>e. gpu_addr (snd e) = gpu_addr n"]
    by (simp add: reg_entries_def entries_at_def comp_def)
  show ?case
  proof (rule runs_to_mono [OF delete_relinked [OF 3]], elim conjE)
    fix r t
    assume r: "r = 0" and t: "relinked s d (set (dev_ptrs s d)) ?rem t"
    note I = relinked_reg_inv [OF 3(1) d t sub other]
    have "entries_at (node_heap t) ?rem = entries_at (node_heap s) ?rem"
      by (rule entries_relinked [OF relinked_payloads [OF t] 3(1) d _ pn]) (use sub in blast)
    moreover have "entries_at (node_heap t) (dev_ptrs s e) = entries_at (node_heap s) (dev_ptrs s e)"
      if "valid_dev e" for e
      by (rule entries_relinked [OF relinked_payloads [OF t] 3(1) that _ pn]) blast
    ultimately show "r = 0 \<and> reg_inv t \<and> reg_ready t d \<and> reg_rest t = reg_rest s \<and>
        (\<forall>q m. holds_node s q m \<longrightarrow> holds_node t q m) \<and>
        reg_entries t d = remove_first (\<lambda>e. gpu_addr (snd e) = gpu_addr n) (reg_entries s d) \<and>
        (\<forall>e. valid_dev e \<longrightarrow> e \<noteq> d \<longrightarrow> reg_entries t e = reg_entries s e)"
      unfolding I(2) reg_entries_def
      using r I(1,3) relinked_rest [OF t] relinked_ready [OF t d] ents holds_relinked [OF t]
      by (simp add: reg_entries_def)
  qed
next
  case (4 s d)
  then show ?case by (simp add: reg_ready_def)
next
  case (5 s d p n)
  then obtain m where "node_heap s p = Some m" "payload m = n" by (rule reg_entries_load)
  then show ?case by (simp add: holds_node_def)
next
  case (6 s d)
  then show ?case using chain_distinct [OF reg_inv_chain [of s d]] by (simp add: reg_entries_ptrs)
next
  case (7 s d e)
  then show ?case using reg_inv_disjoint [of s d e] by (simp add: reg_entries_ptrs)
qed

section \<open>Allocation\<close>

lemma fresh_ptr: "reg_inv s \<Longrightarrow> node_heap s (next_ptr s) = None"
  by (meson less_irrefl not_None_eq reg_inv_fresh)

lemma fresh_not_listed: "reg_inv s \<Longrightarrow> valid_dev d \<Longrightarrow> next_ptr s \<notin> set (dev_ptrs s d)"
  using chain_dom [OF reg_inv_chain] fresh_ptr by fastforce

lemma alloc_reg:
  fixes s :: "'w lib" and x :: "fgds_mmap_node option"
  assumes "reg_inv s" and "valid_dev d"
  defines "t \<equiv> s\<lparr>node_heap := (node_heap s)(next_ptr s := x), next_ptr := Suc (next_ptr s)\<rparr>"
  shows "reg_inv t" and "dev_ptrs t d = dev_ptrs s d" and "reg_entries t d = reg_entries s d"
    and "x = Some n \<Longrightarrow> loose_node t (next_ptr s) (payload n)"
proof -
  have 1: "chain (node_heap t) (head (g_dev_ctx t (nat e))) (dev_ptrs s e)" if "valid_dev e" for e
    using reg_inv_chain [OF assms(1) that] fresh_not_listed [OF assms(1) that] by (simp add: t_def)
  have 2: "set (dev_ptrs s e) \<inter> set (dev_ptrs s e') = {}" if "valid_dev e" "valid_dev e'" "e \<noteq> e'" for e e'
    by (rule reg_inv_disjoint [OF assms(1) that])
  have 3: "p < next_ptr t" if "node_heap t p \<noteq> None" for p
    using that assms(1) by (auto simp: t_def reg_inv_def less_Suc_eq split: if_splits)
  note I = reg_invI [of t "dev_ptrs s", OF 1 2 3]
  show "reg_inv t" by (rule I(1))
  show P: "dev_ptrs t d = dev_ptrs s d" using I(2) assms(2) by simp
  show "reg_entries t d = reg_entries s d" unfolding reg_entries_def P
    using fresh_not_listed [OF assms(1,2)] by (intro entries_at_cong) (auto simp: t_def)
  show "loose_node t (next_ptr s) (payload n)" if "x = Some n"
    using that I(2) fresh_not_listed [OF assms(1)] by (simp add: loose_node_def holds_node_def reg_entries_ptrs t_def)
qed

lemma free_loose:
  assumes "reg_inv s" and "loose_node s p n" and "valid_dev d"
  defines "t \<equiv> s\<lparr>node_heap := (node_heap s)(p := None)\<rparr>"
  shows "reg_inv t" and "reg_entries t d = reg_entries s d"
proof -
  have out: "p \<notin> set (dev_ptrs s e)" if "valid_dev e" for e
    using assms(2) that by (simp add: loose_node_def reg_entries_ptrs)
  have 1: "chain (node_heap t) (head (g_dev_ctx t (nat e))) (dev_ptrs s e)" if "valid_dev e" for e
    using reg_inv_chain [OF assms(1) that] out [OF that] by (simp add: t_def)
  have 2: "set (dev_ptrs s e) \<inter> set (dev_ptrs s e') = {}" if "valid_dev e" "valid_dev e'" "e \<noteq> e'" for e e'
    by (rule reg_inv_disjoint [OF assms(1) that])
  have 3: "q < next_ptr t" if "node_heap t q \<noteq> None" for q
    using that assms(1) by (auto simp: t_def reg_inv_def split: if_splits)
  note I = reg_invI [of t "dev_ptrs s", OF 1 2 3]
  show "reg_inv t" by (rule I(1))
  have P: "dev_ptrs t d = dev_ptrs s d" using I(2) assms(3) by simp
  show "reg_entries t d = reg_entries s d" unfolding reg_entries_def P
    using out [OF assms(3)] by (intro entries_at_cong) (auto simp: t_def)
qed

section \<open>Freeing a list\<close>

lemma free_loop_eq:
  assumes "chain (node_heap s) p ps" and "length ps \<le> fuel"
  shows "free_loop fuel p s = Inr ((), s\<lparr>node_heap := node_heap s |` (- set ps)\<rparr>)"
  using assms
proof (induction ps arbitrary: p fuel s)
  case Nil
  then show ?case by (simp add: run)
next
  case (Cons x ps)
  then obtain n where n: "node_heap s x = Some n" "chain (node_heap s) (next_node n) ps" "p = Some x" by auto
  have "x \<notin> set ps" using chain_distinct [OF Cons.prems(1)] by simp
  with n have "chain (node_heap (s\<lparr>node_heap := (node_heap s)(x := None)\<rparr>)) (next_node n) ps" by simp
  from Cons.IH [OF this, of "fuel - 1"] Cons.prems n(1,3) show ?case
    by (auto simp: run restrict_map_def fun_eq_iff intro!: arg_cong [where f = "\<lambda>h. s\<lparr>node_heap := h\<rparr>"])
qed

text \<open>The state once the nodes of a device are freed.\<close>

definition freed :: "'w lib \<Rightarrow> int \<Rightarrow> 'w lib" where
  "freed s d = s\<lparr>node_heap := node_heap s |` (- set (dev_ptrs s d)),
     g_dev_ctx := (g_dev_ctx s)(nat d := (g_dev_ctx s (nat d))\<lparr>head := None, lock := Unlocked\<rparr>)\<rparr>"

lemma free_nodes_eq:
  assumes "reg_inv s" and "reg_ready s d"
  shows "fgds_free_mmap_nodes d s = Inr ((), freed s d)"
proof -
  let ?s = "s\<lparr>g_dev_ctx := (g_dev_ctx s)(nat d := (g_dev_ctx s (nat d))\<lparr>lock := Locked\<rparr>)\<rparr>"
  have d: "valid_dev d" "lock (g_dev_ctx s (nat d)) = Unlocked" using assms(2) by (auto simp: reg_ready_def)
  have "free_loop (next_ptr s) (head (g_dev_ctx s (nat d))) ?s =
      Inr ((), ?s\<lparr>node_heap := node_heap ?s |` (- set (dev_ptrs s d))\<rparr>)"
    by (rule free_loop_eq) (use reg_inv_chain [OF assms(1) d(1)] reg_inv_length [OF assms(1) d(1)] in simp_all)
  then show ?thesis using d by (simp add: fgds_free_mmap_nodes_def run lock_defs freed_def)
qed

lemma runs_to_free_nodes:
  "reg_inv s \<Longrightarrow> reg_ready s d \<Longrightarrow> runs_to (fgds_free_mmap_nodes d) s Q = Q () (freed s d)"
  by (simp add: runs_to_def free_nodes_eq)

lemma freed_reg:
  assumes "reg_inv s" and "valid_dev d"
  shows "reg_inv (freed s d)" and "valid_dev e \<Longrightarrow> dev_ptrs (freed s d) e = (if e = d then [] else dev_ptrs s e)"
proof -
  define P where "P e = (if e = d then [] else dev_ptrs s e)" for e
  have 1: "chain (node_heap (freed s d)) (head (g_dev_ctx (freed s d) (nat e))) (P e)" if "valid_dev e" for e
  proof (cases "e = d")
    case False
    have "x \<notin> set (dev_ptrs s d)" if "x \<in> set (dev_ptrs s e)" for x
      using reg_inv_disjoint [OF assms \<open>valid_dev e\<close>] False that by blast
    then have "chain (node_heap s |` (- set (dev_ptrs s d))) q (dev_ptrs s e) = chain (node_heap s) q (dev_ptrs s e)" for q
      by (intro chain_cong) (simp add: restrict_map_def)
    then show ?thesis using reg_inv_chain [OF assms(1) that] False that assms(2) by (simp add: freed_def P_def eq_nat_nat_iff)
  qed (simp add: freed_def P_def)
  have 2: "set (P e) \<inter> set (P e') = {}" if "valid_dev e" "valid_dev e'" "e \<noteq> e'" for e e'
    using that reg_inv_disjoint [OF assms(1)] by (simp add: P_def)
  have 3: "p < next_ptr (freed s d)" if "node_heap (freed s d) p \<noteq> None" for p
    using that assms(1) by (auto simp: freed_def reg_inv_def restrict_map_def split: if_splits)
  note I = reg_invI [of "freed s d" P, OF 1 2 3]
  show "reg_inv (freed s d)" by (rule I(1))
  show "valid_dev e \<Longrightarrow> dev_ptrs (freed s d) e = (if e = d then [] else dev_ptrs s e)"
    using I(2) [of e] by (simp add: P_def)
qed

section \<open>A state with a buffer of two pieces\<close>

text \<open>Device 0 is open and a buffer of 2 GB at GPU address \<open>0x10000000\<close> is registered.\<close>

definition two_gb_node :: fgds_mmap_node where
  "two_gb_node = \<lparr>vaddrs = [0x7f0000000000, 0x7e0000000000], mmap_count = 2, gpu_addr = 0x10000000,
     node_length = 0x80000000, length_left = 0, is_mapped = True, next_node = None\<rparr>"

definition two_gb_lib :: "sim_world lib" where
  "two_gb_lib = (lib_init sim_world_init)\<lparr>
     g_dev_ctx := (\<lambda>_. ctx_init)(0 := ctx_init\<lparr>dev_fd := 3, initialized := True, head := Some 0\<rparr>),
     fgds_initialized := (\<lambda>_. False)(0 := True),
     node_heap := [0 \<mapsto> two_gb_node], next_ptr := 1, vaddrs_live := 1\<rparr>"

lemma two_gb_reg: "reg_inv two_gb_lib" "reg_entries two_gb_lib 0 = [(0, two_gb_node)]"
proof -
  define P :: "int \<Rightarrow> nat list" where "P d = (if d = 0 then [0] else [])" for d
  have 1: "chain (node_heap two_gb_lib) (head (g_dev_ctx two_gb_lib (nat d))) (P d)" if "valid_dev d" for d
    using that by (auto simp: P_def two_gb_lib_def lib_init_def ctx_init_def two_gb_node_def)
  have 2: "set (P d) \<inter> set (P e) = {}" if "valid_dev d" "valid_dev e" "d \<noteq> e" for d e
    using that by (auto simp: P_def)
  have 3: "p < next_ptr two_gb_lib" if "node_heap two_gb_lib p \<noteq> None" for p
    using that by (auto simp: two_gb_lib_def split: if_splits)
  note I = reg_invI [of two_gb_lib P, OF 1 2 3]
  show "reg_inv two_gb_lib" by (rule I(1))
  show "reg_entries two_gb_lib 0 = [(0, two_gb_node)]"
    using I(2) [of 0] by (simp add: P_def reg_entries_def entries_at_def two_gb_lib_def payload_def two_gb_node_def)
qed

end
