(* ===== verification/Fgds_Xfer.thy ===== *)
theory Fgds_Xfer
  imports Fgds_Registry
begin

text \<open>
  Address translation: \<open>fgds_do_xfer_addr\<close> of libfgds/fgds.cc turns an I/O window of a
  registered GPU buffer into the list of host address ranges it occupies. A registered buffer is
  mapped in pieces of 1 GB at unrelated host addresses, so a window may need several ranges.

  Offsets and sizes are 64 bit words and the piece indices 32 bit words, as in the source, with
  the signed and unsigned divisions the C types imply.
\<close>

section \<open>Definitions\<close>

text \<open>The loop over the pieces \<open>i = start .. end\<close>; \<open>left\<close> is \<open>nbyte_left\<close>, \<open>acc\<close> the entries written.\<close>

fun xfer_loop :: "nat \<Rightarrow> u64 list \<Rightarrow> u32 \<Rightarrow> u32 \<Rightarrow> u32 \<Rightarrow> s64 \<Rightarrow> u64 \<Rightarrow> u32 \<Rightarrow> u64 \<Rightarrow>
    xfer_addr list \<Rightarrow> fault + u64 \<times> xfer_addr list" where
  "xfer_loop fuel vs start end_ix count buf_offset n i left acc =
     (if \<not> i \<le> end_ix then Inr (left, acc)
      else if fuel = 0 then Inl Diverges
      else if \<not> unat i < length vs then Inl Uninitialised
      else
        let v = vs ! unat i;
            e = (if i = start then
                   (let offset_in_page = srem64 buf_offset FGDS_MMAP_SEGMENT_SIZE;
                        nbyte_per_iter = (if 1 < count then FGDS_MMAP_SEGMENT_SIZE - offset_in_page else left)
                    in \<lparr>target_addr = v + offset_in_page, nbyte = nbyte_per_iter\<rparr>)
                 else if i = end_ix then
                   \<lparr>target_addr = v, nbyte = (buf_offset + n - 1) mod FGDS_MMAP_SEGMENT_SIZE + 1\<rparr>
                 else \<lparr>target_addr = v, nbyte = FGDS_MMAP_SEGMENT_SIZE\<rparr>)
        in xfer_loop (fuel - 1) vs start end_ix count buf_offset n (i + 1) (left - nbyte e) (acc @ [e]))"

declare xfer_loop.simps [simp del]

definition seg_start :: "s64 \<Rightarrow> u32" where
  "seg_start buf_offset = ucast (sdiv64 buf_offset FGDS_MMAP_SEGMENT_SIZE)"

definition seg_end :: "s64 \<Rightarrow> u64 \<Rightarrow> u32" where
  "seg_end buf_offset n = ucast ((buf_offset + n - 1) div FGDS_MMAP_SEGMENT_SIZE)"

definition fgds_do_xfer_addr ::
    "'w os \<Rightarrow> int \<Rightarrow> u64 \<Rightarrow> s64 \<Rightarrow> u64 \<Rightarrow> ('w lib, xfer_addr list option) prog" where
  "fgds_do_xfer_addr os d gpu_buf buf_offset n =
     bnd (find_fgds_mmap_node d gpu_buf n) (\<lambda>node. case node of None \<Rightarrow> ret None | Some p \<Rightarrow>
     bnd (load_node p) (\<lambda>mn.
     if \<not> is_mapped mn then ret None
     else if node_length mn < n + buf_offset then ret None
     else
       let start = seg_start buf_offset; end_ix = seg_end buf_offset n; count = end_ix - start + 1 in
       bnd (malloc os (24 + ucast (count - 1) * 16)) (\<lambda>ok.
       if \<not> ok then ret None
       else sq (modify (\<lambda>s. s\<lparr>xfer_live := Suc (xfer_live s)\<rparr>)) (
         if mmap_count mn < ucast (start + count) \<or> mmap_count mn < ucast end_ix \<or> mmap_count mn < ucast count
         then ret None
         else bnd (lift (xfer_loop (unat count) (vaddrs mn) start end_ix count buf_offset n start n []))
           (\<lambda>(left, xs). if left \<noteq> 0 \<or> of_nat (length xs) \<noteq> count then ret None else ret (Some xs))))))"

text \<open>\<open>std::free\<close> of a transfer descriptor.\<close>

definition free_xfer :: "('w lib, unit) prog" where
  "free_xfer = bnd (gets xfer_live) (\<lambda>k. sq (assert_or Double_Free (k \<noteq> 0))
     (modify (\<lambda>s. s\<lparr>xfer_live := k - 1\<rparr>)))"

lemma runs_to_free_xfer [wp, simp]:
  "runs_to free_xfer s Q = (xfer_live s \<noteq> 0 \<and> Q () (s\<lparr>xfer_live := xfer_live s - 1\<rparr>))"
  by (simp add: free_xfer_def)

declare free_xfer_def [run]

section \<open>Well-formed nodes and the bytes of a buffer\<close>

abbreviation seg_size :: nat where "seg_size \<equiv> 1073741824"

text \<open>
  What \<open>fgds_regmem\<close> establishes for a node it inserts: the number of pieces is the length divided
  by 1 GB and rounded up, every piece has its host address, and the range does not wrap. The
  length is below \<open>2 ^ 61\<close> bytes, so that the piece indices fit 32 bits with room for their
  sums.
\<close>

definition node_wf :: "fgds_mmap_node \<Rightarrow> bool" where
  "node_wf n \<longleftrightarrow> is_mapped n \<and> unat (node_length n) < 2 ^ 61 \<and>
     unat (mmap_count n) = (unat (node_length n) + seg_size - 1) div seg_size \<and>
     length_left n = node_length n mod FGDS_MMAP_SEGMENT_SIZE \<and>
     length (vaddrs n) = unat (mmap_count n) \<and>
     unat (gpu_addr n) + unat (node_length n) < 2 ^ 64"

text \<open>The host address of byte \<open>k\<close> of a registered buffer.\<close>

definition host_byte :: "fgds_mmap_node \<Rightarrow> nat \<Rightarrow> u64" where
  "host_byte n k = vaddrs n ! (k div seg_size) + of_nat (k mod seg_size)"

definition seg_bytes :: "xfer_addr \<Rightarrow> u64 list" where
  "seg_bytes x = map (\<lambda>k. target_addr x + of_nat k) [0..<unat (nbyte x)]"

text \<open>The part of a window \<open>[b, b + n)\<close> inside piece \<open>i\<close>.\<close>

definition piece_lo :: "nat \<Rightarrow> nat \<Rightarrow> nat" where
  "piece_lo b i = max b (i * seg_size)"

definition piece_hi :: "nat \<Rightarrow> nat \<Rightarrow> nat \<Rightarrow> nat" where
  "piece_hi b n i = min (b + n) (Suc i * seg_size)"

definition piece_entry :: "u64 list \<Rightarrow> nat \<Rightarrow> nat \<Rightarrow> nat \<Rightarrow> xfer_addr" where
  "piece_entry vs b n i = \<lparr>target_addr = vs ! i + of_nat (piece_lo b i - i * seg_size),
     nbyte = of_nat (piece_hi b n i - piece_lo b i)\<rparr>"

section \<open>Pieces of a window\<close>

lemma piece_bounds:
  assumes "b div seg_size \<le> i" and "i \<le> (b + n - 1) div seg_size" and "0 < n"
  shows "piece_lo b i \<le> piece_hi b n i" and "i * seg_size \<le> piece_lo b i"
    and "piece_hi b n i \<le> Suc i * seg_size"
    and "b + n - piece_hi b n i = b + n - piece_lo b (Suc i)"
proof -
  have 1: "b < Suc i * seg_size" using assms(1) by (simp only: less_Suc_mult zero_less_numeral)
  have 2: "i * seg_size \<le> b + n - 1" using assms(2) by (rule le_div_mult)
  show "piece_lo b i \<le> piece_hi b n i" "i * seg_size \<le> piece_lo b i" "piece_hi b n i \<le> Suc i * seg_size"
    using 1 2 assms(3) by (auto simp: piece_lo_def piece_hi_def)
  show "b + n - piece_hi b n i = b + n - piece_lo b (Suc i)"
    using 1 by (auto simp: piece_lo_def piece_hi_def)
qed

lemma piece_first:
  assumes "b div seg_size \<le> (b + n - 1) div seg_size" and "0 < n"
  shows "piece_lo b (b div seg_size) - b div seg_size * seg_size = b mod seg_size"
    and "piece_hi b n (b div seg_size) - piece_lo b (b div seg_size) =
      (if b div seg_size < (b + n - 1) div seg_size then seg_size - b mod seg_size else n)"
proof -
  let ?i = "b div seg_size"
  have b: "?i * seg_size + b mod seg_size = b" by simp
  have lo: "piece_lo b ?i = b" by (simp add: piece_lo_def)
  then show "piece_lo b ?i - ?i * seg_size = b mod seg_size" using b by linarith
  show "piece_hi b n ?i - piece_lo b ?i =
      (if ?i < (b + n - 1) div seg_size then seg_size - b mod seg_size else n)"
  proof (cases "?i < (b + n - 1) div seg_size")
    case True
    then have "Suc ?i * seg_size \<le> b + n - 1" by (intro le_div_mult) simp
    then have "piece_hi b n ?i = seg_size + ?i * seg_size" unfolding piece_hi_def mult_Suc by linarith
    then have "piece_hi b n ?i - piece_lo b ?i = seg_size - b mod seg_size" using b lo by linarith
    then show ?thesis using True by simp
  next
    case False
    then have "b + n - 1 < Suc ?i * seg_size" by (intro less_Suc_mult) simp_all
    then show ?thesis using False lo assms(2) unfolding piece_hi_def by simp
  qed
qed

lemma piece_later:
  assumes "b div seg_size < i" and "i \<le> (b + n - 1) div seg_size"
  shows "piece_lo b i = i * seg_size"
    and "piece_hi b n i - piece_lo b i =
      (if i = (b + n - 1) div seg_size then (b + n - 1) mod seg_size + 1 else seg_size)"
proof -
  have "b < Suc (b div seg_size) * seg_size" by (rule less_Suc_div_mult) simp
  also have "\<dots> \<le> i * seg_size" using assms(1) by (intro mult_le_mono1) simp
  finally have bi: "b < i * seg_size" .
  then show lo: "piece_lo b i = i * seg_size" by (simp add: piece_lo_def)
  have le: "i * seg_size \<le> b + n - 1" using assms(2) by (rule le_div_mult)
  show "piece_hi b n i - piece_lo b i =
      (if i = (b + n - 1) div seg_size then (b + n - 1) mod seg_size + 1 else seg_size)"
  proof (cases "i = (b + n - 1) div seg_size")
    case True
    have "i * seg_size + (b + n - 1) mod seg_size = b + n - 1" unfolding True by simp
    moreover have "(b + n - 1) mod seg_size < seg_size" by simp
    ultimately have "piece_hi b n i - piece_lo b i = (b + n - 1) mod seg_size + 1"
      using lo bi le unfolding piece_hi_def mult_Suc by linarith
    then show ?thesis using True by simp
  next
    case False
    then have "Suc i * seg_size \<le> b + n - 1" using assms(2) by (intro le_div_mult) simp
    then show ?thesis using False lo unfolding piece_hi_def mult_Suc by simp
  qed
qed

text \<open>A piece is 1 GB long, except for the last one of a buffer that is not a multiple of 1 GB.\<close>

lemma piece_min:
  assumes "0 < l" and "n = (l + seg_size - 1) div seg_size" and "j < n"
  shows "(if Suc j = n \<and> l mod seg_size \<noteq> 0 then l mod seg_size else seg_size) = min seg_size (l - j * seg_size)"
proof -
  have "l + seg_size - 1 = l - 1 + seg_size" using assms(1) by simp
  then have n: "n = Suc ((l - 1) div seg_size)" using assms(2) by simp
  show ?thesis
  proof (cases "Suc j = n")
    case True
    then have j: "j = (l - 1) div seg_size" using n by simp
    have "j * seg_size + (l - 1) mod seg_size = l - 1" unfolding j by simp
    moreover have "(l - 1) mod seg_size < seg_size" by simp
    ultimately obtain r where r: "l = j * seg_size + Suc r" "r < seg_size"
      using assms(1) by (metis Suc_diff_1 add_Suc_right)
    show ?thesis
    proof (cases "Suc r = seg_size")
      case True
      then have "l = Suc j * seg_size" using r(1) by simp
      then show ?thesis using True r by simp
    next
      case False
      then have "Suc r < seg_size" using r(2) by simp
      then have "l mod seg_size = Suc r" unfolding r(1) by simp
      then show ?thesis using \<open>Suc j = n\<close> r by simp
    qed
  next
    case False
    then have "Suc j < n" using assms(3) by simp
    then have "Suc j * seg_size \<le> l - 1" using n by (intro le_div_mult) simp
    then show ?thesis using False assms(1) by simp
  qed
qed

section \<open>The loop computes the pieces\<close>

lemma window_word:
  assumes "0 < unat n" and "unat off + unat n < 18446744073709551616"
  shows "off + n - 1 = (of_nat (unat off + unat n - 1) :: u64)"
  using assms(1) by (simp add: of_nat_diff)

lemma srem_seg:
  assumes "0 \<le> sint off"
  shows "srem64 off FGDS_MMAP_SEGMENT_SIZE = of_nat (unat off mod seg_size)"
proof -
  have "srem64 off FGDS_MMAP_SEGMENT_SIZE = off mod FGDS_MMAP_SEGMENT_SIZE"
    by (rule srem64_nonneg [OF assms]) simp
  also have "\<dots> = of_nat (unat off mod seg_size)"
    using of_nat_mod_u64 [of "unat off" seg_size] by simp
  finally show ?thesis .
qed

lemma xfer_loop_pieces:
  fixes off n :: u64
  defines "B \<equiv> unat off" and "N \<equiv> unat n"
  defines "st \<equiv> B div seg_size" and "en \<equiv> (B + N - 1) div seg_size"
  assumes "0 \<le> sint off" and "0 < N" and "B + N < 2305843009213693952"
    and "en < length vs" and "st \<le> i" and "i \<le> Suc en" and "Suc en - i \<le> fuel"
  shows "xfer_loop fuel vs (of_nat st) (of_nat en) (of_nat (en - st + 1)) off n (of_nat i)
      (of_nat (B + N - piece_lo B i)) acc = Inr (0, acc @ map (piece_entry vs B N) [i..<Suc en])"
  using assms(9-)
proof (induction "Suc en - i" arbitrary: i fuel acc)
  case 0
  then have i: "i = Suc en" by simp
  have en: "en < 2147483648" using assms(7) unfolding en_def by (simp add: div_less_iff_less_mult)
  have "B + N - 1 < Suc en * seg_size" unfolding en_def by (rule less_Suc_div_mult) simp
  then have "B + N - piece_lo B i = 0" using i by (simp add: piece_lo_def)
  moreover have "\<not> (of_nat i :: u32) \<le> of_nat en" using i en by (simp add: of_nat_u32_le del: of_nat_Suc)
  ultimately show ?case using i by (simp add: xfer_loop.simps)
next
  case (Suc k)
  then have i: "i \<le> en" by simp
  have en: "en < 2147483648" using assms(7) unfolding en_def by (simp add: div_less_iff_less_mult)
  have st: "st \<le> en" using Suc.prems i by simp
  let ?left = "of_nat (B + N - piece_lo B i) :: u64"
  define e where "e = (if (of_nat i :: u32) = of_nat st then
       (let offset_in_page = srem64 off FGDS_MMAP_SEGMENT_SIZE;
            nbyte_per_iter = (if 1 < (of_nat (en - st + 1) :: u32) then FGDS_MMAP_SEGMENT_SIZE - offset_in_page else ?left)
        in \<lparr>target_addr = vs ! i + offset_in_page, nbyte = nbyte_per_iter\<rparr>)
     else if (of_nat i :: u32) = of_nat en then
       \<lparr>target_addr = vs ! i, nbyte = (off + n - 1) mod FGDS_MMAP_SEGMENT_SIZE + 1\<rparr>
     else \<lparr>target_addr = vs ! i, nbyte = FGDS_MMAP_SEGMENT_SIZE\<rparr>)"
  have e: "e = piece_entry vs B N i"
  proof (cases "i = st")
    case True
    have c: "(1 < (of_nat (en - st + 1) :: u32)) = (st < en)"
      using of_nat_u32_less [of 1 "en - st + 1"] en by simp
    note pf = piece_first [of B N, folded st_def en_def, OF st assms(6)]
    have nb: "nbyte e = of_nat (piece_hi B N st - piece_lo B st)"
    proof (cases "st < en")
      case True
      have "FGDS_MMAP_SEGMENT_SIZE - of_nat (B mod seg_size) = (of_nat (seg_size - B mod seg_size) :: u64)"
        by (simp add: of_nat_diff)
      then show ?thesis unfolding e_def using \<open>i = st\<close> True c pf(2)
        by (simp add: srem_seg [OF assms(5)] B_def [symmetric] Let_def)
    next
      case False
      have "piece_lo B st = B" by (simp add: piece_lo_def st_def)
      then show ?thesis unfolding e_def using \<open>i = st\<close> False c pf(2) by (simp add: Let_def)
    qed
    have ta: "target_addr e = vs ! st + of_nat (piece_lo B st - st * seg_size)"
      unfolding e_def using True pf(1) by (simp add: srem_seg [OF assms(5)] B_def [symmetric] Let_def)
    show ?thesis using nb ta True by (cases e) (simp add: piece_entry_def)
  next
    case False
    then have lt: "st < i" using Suc.prems by simp
    note pl = piece_later [of B i N, folded st_def en_def, OF lt i]
    have ne: "(of_nat i :: u32) \<noteq> of_nat st" "((of_nat i :: u32) = of_nat en) = (i = en)"
      using False en i st by (simp_all add: of_nat_u32_eq)
    have w: "off + n - 1 = of_nat (B + N - 1)"
      unfolding B_def N_def by (rule window_word) (use assms(6,7) in \<open>simp_all add: B_def N_def\<close>)
    have m: "(of_nat (B + N - 1) :: u64) mod FGDS_MMAP_SEGMENT_SIZE = of_nat ((B + N - 1) mod seg_size)"
      using of_nat_mod_u64 [of "B + N - 1" seg_size] assms(7) by simp
    show ?thesis unfolding e_def w m using ne pl by (auto simp: piece_entry_def)
  qed
  note pb = piece_bounds [of B i N, folded st_def en_def, OF Suc.prems(1) i assms(6)]
  have "?left - nbyte e = of_nat (B + N - piece_hi B N i)"
  proof -
    have "piece_hi B N i \<le> B + N" by (simp add: piece_hi_def)
    then have "B + N - piece_lo B i - (piece_hi B N i - piece_lo B i) = B + N - piece_hi B N i"
      and "piece_hi B N i - piece_lo B i \<le> B + N - piece_lo B i" using pb(1) by auto
    then show ?thesis unfolding e by (simp add: piece_entry_def of_nat_unat_diff del: of_nat_diff)
  qed
  then have left: "?left - nbyte e = of_nat (B + N - piece_lo B (Suc i))" using pb(4) by simp
  have "xfer_loop fuel vs (of_nat st) (of_nat en) (of_nat (en - st + 1)) off n (of_nat i) ?left acc =
      xfer_loop (fuel - 1) vs (of_nat st) (of_nat en) (of_nat (en - st + 1)) off n (of_nat (Suc i))
        (?left - nbyte e) (acc @ [e])"
  proof -
    have "(of_nat i :: u32) \<le> of_nat en" "unat (of_nat i :: u32) = i" "i < length vs"
      using i en assms(8) by (simp_all add: of_nat_u32_le unat_of_nat_u32)
    moreover have "fuel \<noteq> 0" using Suc.prems i by simp
    ultimately show ?thesis unfolding e_def
      by (subst xfer_loop.simps) (simp add: Let_def add.commute [of 1] del: of_nat_diff of_nat_add)
  qed
  also have "\<dots> = Inr (0, (acc @ [e]) @ map (piece_entry vs B N) [Suc i..<Suc en])"
    unfolding left by (rule Suc.hyps(1)) (use Suc i in auto)
  also have "\<dots> = Inr (0, acc @ map (piece_entry vs B N) [i..<Suc en])"
    using i by (simp add: e upt_conv_Cons del: upt_Suc)
  finally show ?case .
qed

lemma seg_start_eq:
  assumes "0 \<le> sint off"
  shows "seg_start off = of_nat (unat off div seg_size)"
proof -
  have "unat off < 9223372036854775808" using assms by (simp add: sint_nonneg_u64)
  then have lt: "unat off div seg_size < 18446744073709551616" by simp
  have "sdiv64 off FGDS_MMAP_SEGMENT_SIZE = of_nat (unat off div seg_size)"
    using sdiv64_nonneg [OF assms, of FGDS_MMAP_SEGMENT_SIZE] of_nat_div_u64 [of "unat off" seg_size] by simp
  then show ?thesis using lt unfolding seg_start_def
    by (simp add: word_unat_eq_iff unat_ucast_u32 unat_of_nat_u64 unat_of_nat)
qed

lemma seg_end_eq:
  assumes "0 < unat n" and "unat off + unat n < 18446744073709551616"
  shows "seg_end off n = of_nat ((unat off + unat n - 1) div seg_size)"
proof -
  have lt: "(unat off + unat n - 1) div seg_size < 18446744073709551616"
    using assms by (intro order_le_less_trans [OF div_le_dividend]) linarith
  have "(off + n - 1) div FGDS_MMAP_SEGMENT_SIZE = of_nat ((unat off + unat n - 1) div seg_size)"
    unfolding window_word [OF assms] using of_nat_div_u64 [of "unat off + unat n - 1" seg_size] assms(2) by simp
  then show ?thesis using lt unfolding seg_end_def
    by (simp add: word_unat_eq_iff unat_ucast_u32 unat_of_nat_u64 unat_of_nat)
qed

text \<open>The last piece a window touches is one of the pieces of the node.\<close>

lemma last_piece_less:
  assumes "node_wf nd" and "0 < n" and "b + n \<le> unat (node_length nd)"
  shows "(b + n - 1) div seg_size < unat (mmap_count nd)"
proof -
  have "(b + n - 1) div seg_size \<le> (unat (node_length nd) - 1) div seg_size"
    using assms(3) by (intro div_le_mono) simp
  also have "\<dots> < (unat (node_length nd) - 1) div seg_size + 1" by simp
  also have "\<dots> = (unat (node_length nd) - 1 + seg_size) div seg_size" by simp
  also have "\<dots> = (unat (node_length nd) + seg_size - 1) div seg_size" using assms(2,3) by simp
  finally show ?thesis using assms(1) by (simp add: node_wf_def)
qed

text \<open>The descriptor of a window, as a list.\<close>

definition window_segs :: "fgds_mmap_node \<Rightarrow> nat \<Rightarrow> nat \<Rightarrow> xfer_addr list" where
  "window_segs nd b n =
     map (piece_entry (vaddrs nd) b n) [b div seg_size..<Suc ((b + n - 1) div seg_size)]"

lemma window_checks:
  fixes off n :: u64
  defines "st \<equiv> unat off div seg_size" and "en \<equiv> (unat off + unat n - 1) div seg_size"
  assumes "node_wf nd" and "0 \<le> sint off" and "0 < unat n" and "unat off + unat n \<le> unat (node_length nd)"
  shows "seg_end off n - seg_start off + 1 = of_nat (en - st + 1)"
    and "seg_start off = of_nat st" and "seg_end off n = of_nat en" and "st \<le> en" and "en < 2147483648"
    and "\<not> (mmap_count nd < ucast (seg_start off + (seg_end off n - seg_start off + 1)) \<or>
      mmap_count nd < ucast (seg_end off n) \<or> mmap_count nd < ucast (seg_end off n - seg_start off + 1))"
proof -
  have len: "unat (node_length nd) < 2305843009213693952" using assms(3) by (simp add: node_wf_def)
  show a: "seg_start off = of_nat st" unfolding st_def by (rule seg_start_eq [OF assms(4)])
  show b: "seg_end off n = of_nat en" unfolding en_def
    by (rule seg_end_eq) (use assms(5,6) len in linarith)+
  show c: "st \<le> en" unfolding st_def en_def using assms(5) by (intro div_le_mono) simp
  show d: "en < 2147483648" unfolding en_def using assms(6) len by (simp add: div_less_iff_less_mult)
  show e: "seg_end off n - seg_start off + 1 = of_nat (en - st + 1)"
    unfolding a b using c by (simp add: of_nat_diff)
  have f: "seg_start off + of_nat (en - st + 1) = of_nat (Suc en)"
    unfolding a using c by (simp add: of_nat_diff)
  have "Suc en \<le> unat (mmap_count nd)"
    using last_piece_less [OF assms(3,5,6)] unfolding en_def by simp
  then show "\<not> (mmap_count nd < ucast (seg_start off + (seg_end off n - seg_start off + 1)) \<or>
      mmap_count nd < ucast (seg_end off n) \<or> mmap_count nd < ucast (seg_end off n - seg_start off + 1))"
    unfolding e f unfolding b using d
    by (simp add: word_less_nat_alt unat_ucast_u64 unat_of_nat_u32 del: of_nat_Suc of_nat_add of_nat_diff)
qed

lemma xfer_loop_window:
  assumes "node_wf nd" and "0 \<le> sint off" and "0 < unat n" and "unat off + unat n \<le> unat (node_length nd)"
  shows "xfer_loop (unat (seg_end off n - seg_start off + 1)) (vaddrs nd) (seg_start off) (seg_end off n)
      (seg_end off n - seg_start off + 1) off n (seg_start off) n [] =
    Inr (0, window_segs nd (unat off) (unat n))"
    and "of_nat (length (window_segs nd (unat off) (unat n))) = seg_end off n - seg_start off + 1"
proof -
  define st en where "st = unat off div seg_size" and "en = (unat off + unat n - 1) div seg_size"
  note w = window_checks [OF assms, folded st_def en_def]
  have cnt: "unat (of_nat (en - st + 1) :: u32) = en - st + 1"
    using w(5) by (intro unat_of_nat_u32) simp
  have lo: "piece_lo (unat off) st = unat off" by (simp add: piece_lo_def st_def)
  have len: "en < length (vaddrs nd)" "unat off + unat n < 2305843009213693952"
    using last_piece_less [OF assms(1,3,4)] assms(1,4) by (simp_all add: node_wf_def en_def)
  have ws: "window_segs nd (unat off) (unat n) = map (piece_entry (vaddrs nd) (unat off) (unat n)) [st..<Suc en]"
    by (simp only: window_segs_def st_def en_def)
  show "xfer_loop (unat (seg_end off n - seg_start off + 1)) (vaddrs nd) (seg_start off) (seg_end off n)
      (seg_end off n - seg_start off + 1) off n (seg_start off) n [] =
    Inr (0, window_segs nd (unat off) (unat n))"
    unfolding w(1) cnt unfolding w(2,3)
    using xfer_loop_pieces [of off n "vaddrs nd" st "en - st + 1" "[]", folded st_def en_def]
      assms(2,3) len w(4) lo ws
    by (simp del: of_nat_add of_nat_diff of_nat_Suc upt_Suc)
  show "of_nat (length (window_segs nd (unat off) (unat n))) = seg_end off n - seg_start off + 1"
    unfolding w(1) ws using w(4) by (simp add: Suc_diff_le del: upt_Suc)
qed

section \<open>The bytes of the pieces\<close>

lemma upt_append_map: "a \<le> b \<Longrightarrow> b \<le> c \<Longrightarrow> map f [a..<b] @ map f [b..<c] = map f [a..<c]"
  by (metis le_Suc_ex map_append upt_add_eq_append)

lemma piece_entry_bytes:
  assumes "b div seg_size \<le> i" and "i \<le> (b + n - 1) div seg_size" and "0 < n"
  shows "seg_bytes (piece_entry (vaddrs nd) b n i) = map (host_byte nd) [piece_lo b i..<piece_hi b n i]"
proof -
  note pb = piece_bounds [OF assms]
  have nb: "unat (of_nat (piece_hi b n i - piece_lo b i) :: u64) = piece_hi b n i - piece_lo b i"
    using pb by (intro unat_of_nat_u64) simp
  have pt: "vaddrs nd ! i + of_nat (piece_lo b i - i * seg_size) + of_nat k = host_byte nd (piece_lo b i + k)"
    if "k < piece_hi b n i - piece_lo b i" for k
  proof -
    define r where "r = piece_lo b i - i * seg_size + k"
    have r: "piece_lo b i + k = i * seg_size + r" "r < seg_size" using that pb by (auto simp: r_def)
    have "(i * seg_size + r) div seg_size = i" "(i * seg_size + r) mod seg_size = r" using r(2) by simp_all
    then show ?thesis unfolding host_byte_def r(1) by (simp add: r_def add.assoc)
  qed
  have "[piece_lo b i..<piece_hi b n i] = map (\<lambda>k. piece_lo b i + k) [0..<piece_hi b n i - piece_lo b i]"
    using pb(1) by (intro nth_equalityI) auto
  then show ?thesis unfolding seg_bytes_def piece_entry_def using nb pt by simp
qed

lemma window_segs_prefix_bytes:
  assumes "0 < n" and "b div seg_size \<le> i" and "i \<le> (b + n - 1) div seg_size"
  shows "concat (map (seg_bytes \<circ> piece_entry (vaddrs nd) b n) [b div seg_size..<Suc i]) =
    map (host_byte nd) [b..<piece_hi b n i]"
  using assms(2,3)
proof (induction rule: dec_induct)
  case base
  have "piece_lo b (b div seg_size) = b" by (simp add: piece_lo_def)
  then show ?case using piece_entry_bytes [of b "b div seg_size" n nd] assms(1) base by simp
next
  case (step i)
  have i: "i \<le> (b + n - 1) div seg_size" using step.prems by simp
  have "Suc i * seg_size \<le> b + n - 1" using step.prems by (rule le_div_mult)
  then have "piece_hi b n i = Suc i * seg_size" using assms(1) unfolding piece_hi_def by linarith
  moreover have "piece_lo b (Suc i) = Suc i * seg_size"
    using piece_later(1) [of b "Suc i" n] step by simp
  ultimately have eq: "piece_lo b (Suc i) = piece_hi b n i" by simp
  have le: "b \<le> piece_lo b (Suc i)" by (simp add: piece_lo_def)
  have hi: "piece_lo b (Suc i) \<le> piece_hi b n (Suc i)" using step assms(1) by (intro piece_bounds) auto
  have "seg_bytes (piece_entry (vaddrs nd) b n (Suc i)) = map (host_byte nd) [piece_hi b n i..<piece_hi b n (Suc i)]"
    unfolding eq [symmetric] using step assms(1) by (intro piece_entry_bytes) auto
  moreover have "[b div seg_size..<Suc (Suc i)] = [b div seg_size..<Suc i] @ [Suc i]" using step(1) by simp
  ultimately show ?case
    using step.IH [OF i] le hi unfolding eq by (simp add: upt_append_map del: upt_Suc)
qed

lemma window_segs_bytes:
  assumes "0 < n"
  shows "concat (map seg_bytes (window_segs nd b n)) = map (host_byte nd) [b..<b + n]"
proof -
  let ?e = "(b + n - 1) div seg_size"
  have le: "b div seg_size \<le> ?e" using assms by (intro div_le_mono) simp
  have "b + n - 1 < Suc ?e * seg_size" by (rule less_Suc_div_mult) simp
  then have "piece_hi b n ?e = b + n" using assms unfolding piece_hi_def by linarith
  then show ?thesis
    using window_segs_prefix_bytes [OF assms le order_refl, of nd] by (simp add: window_segs_def del: upt_Suc)
qed

section \<open>The translation\<close>

text \<open>The registered buffer the search of \<open>fgds_do_xfer_addr\<close> stops at.\<close>

definition covering :: "'w lib \<Rightarrow> int \<Rightarrow> u64 \<Rightarrow> u64 \<Rightarrow> (nat \<times> fgds_mmap_node) option" where
  "covering s d addr len = List.find (node_covers addr len \<circ> snd) (reg_entries s d)"

lemma find_node_covering:
  "reg_inv s \<Longrightarrow> valid_dev d \<Longrightarrow> find_fgds_mmap_node d a l s = Inr (map_option fst (covering s d a l), s)"
  by (simp add: find_fgds_mmap_node_eq covering_def)

lemma covering_load:
  assumes "reg_inv s" and "valid_dev d" and "covering s d a l = Some (p, nd)"
  obtains m where "node_heap s p = Some m" and "payload m = nd"
  using assms find_in_set reg_entries_load [OF assms(1,2)] unfolding covering_def by metis

lemma node_wf_payload [simp]: "node_wf (payload n) = node_wf n"
  by (simp add: node_wf_def)

lemma window_segs_payload [simp]: "window_segs (payload n) = window_segs n"
  by (simp add: window_segs_def fun_eq_iff)

definition xfer_bytes :: "s64 \<Rightarrow> u64 \<Rightarrow> u64" where
  "xfer_bytes off n = 24 + ucast (seg_end off n - seg_start off + 1 - 1) * 16"

definition in_window :: "fgds_mmap_node \<Rightarrow> s64 \<Rightarrow> u64 \<Rightarrow> bool" where
  "in_window nd off n \<longleftrightarrow> 0 \<le> sint off \<and> 0 < unat n \<and> unat off + unat n \<le> unat (node_length nd)"

lemma do_xfer_addr_eq:
  assumes "reg_inv s" and "valid_dev d" and "covering s d g n = Some (p, nd)"
    and "node_wf nd" and "in_window nd off n" and "os_malloc os (xfer_bytes off n) (world s) = (ok, w)"
  shows "fgds_do_xfer_addr os d g off n s =
    (if ok then Inr (Some (window_segs nd (unat off) (unat n)), s\<lparr>world := w, xfer_live := Suc (xfer_live s)\<rparr>)
     else Inr (None, s\<lparr>world := w\<rparr>))"
proof -
  obtain m where m: "node_heap s p = Some m" and pay: "payload m = nd"
    by (rule covering_load [OF assms(1-3)])
  have wf: "node_wf m" and win: "0 \<le> sint off" "0 < unat n" "unat off + unat n \<le> unat (node_length m)"
    using assms(4,5) pay by (auto simp: in_window_def)
  have small: "unat (node_length m) < 2305843009213693952" using wf by (simp add: node_wf_def)
  have "unat (n + off) = unat n + unat off" using win small by (intro unat_add_no_wrap) simp
  then have range: "\<not> node_length m < n + off" using win by (simp add: word_less_nat_alt)
  note chk = window_checks(6) [OF wf win] and loop = xfer_loop_window [OF wf win]
  have "is_mapped m" using wf by (simp add: node_wf_def)
  then show ?thesis
    unfolding fgds_do_xfer_addr_def
    using find_node_covering [OF assms(1,2)] assms(3,6) m range chk loop pay
    by (auto simp: run malloc_def xfer_bytes_def Let_def)
qed

lemma do_xfer_addr_refused:
  assumes "reg_inv s" and "valid_dev d"
    and "case covering s d g n of None \<Rightarrow> True | Some (p, nd) \<Rightarrow> \<not> is_mapped nd \<or> node_length nd < n + off"
  shows "fgds_do_xfer_addr os d g off n s = Inr (None, s)"
proof (cases "covering s d g n")
  case None
  then show ?thesis
    unfolding fgds_do_xfer_addr_def using find_node_covering [OF assms(1,2)] by (simp add: run)
next
  case (Some e)
  then obtain p nd where e: "covering s d g n = Some (p, nd)" by (cases e) auto
  obtain m where "node_heap s p = Some m" and "payload m = nd"
    by (rule covering_load [OF assms(1,2) e])
  then show ?thesis
    unfolding fgds_do_xfer_addr_def using find_node_covering [OF assms(1,2)] assms(3) e by (auto simp: run)
qed

lemma window_segs_length:
  "0 < n \<Longrightarrow> length (window_segs nd b n) = Suc ((b + n - 1) div seg_size) - b div seg_size"
  by (simp add: window_segs_def del: upt_Suc)

lemma window_segs_le_2:
  assumes "0 < n" and "n \<le> seg_size"
  shows "window_segs nd b n \<noteq> [] \<and> length (window_segs nd b n) \<le> 2"
proof -
  have "(b + n - 1) div seg_size \<le> (b + seg_size) div seg_size" using assms(2) by (intro div_le_mono) simp
  moreover have "(b + seg_size) div seg_size = Suc (b div seg_size)" by simp
  moreover have "b div seg_size \<le> (b + n - 1) div seg_size" using assms(1) by (intro div_le_mono) simp
  moreover have "Suc x - y \<le> 2 \<and> 0 < Suc x - y" if "x \<le> Suc y" "y \<le> x" for x y :: nat using that by auto
  ultimately show ?thesis unfolding length_greater_0_conv [symmetric] window_segs_length [OF assms(1)] by metis
qed

text \<open>The number of bytes mapped by piece \<open>i\<close> of a node.\<close>

definition piece_len :: "fgds_mmap_node \<Rightarrow> nat \<Rightarrow> nat" where
  "piece_len nd i = min seg_size (unat (node_length nd) - i * seg_size)"

lemma window_segs_inside:
  assumes "node_wf nd" and "in_window nd off n" and "x \<in> set (window_segs nd (unat off) (unat n))"
  shows "\<exists>i < unat (mmap_count nd). \<exists>k. target_addr x = vaddrs nd ! i + of_nat k \<and>
    k + unat (nbyte x) \<le> piece_len nd i"
proof -
  have win: "0 < unat n" "unat off + unat n \<le> unat (node_length nd)" using assms(2) by (auto simp: in_window_def)
  obtain i where i: "unat off div seg_size \<le> i" "i \<le> (unat off + unat n - 1) div seg_size"
    and x: "x = piece_entry (vaddrs nd) (unat off) (unat n) i"
    using assms(3) by (auto simp: window_segs_def simp del: upt_Suc)
  note pb = piece_bounds [OF i win(1)]
  have nb: "unat (nbyte x) = piece_hi (unat off) (unat n) i - piece_lo (unat off) i"
    unfolding x piece_entry_def using pb by (simp add: unat_of_nat_u64 del: of_nat_diff)
  have hi: "piece_hi (unat off) (unat n) i \<le> unat (node_length nd)" using win(2) by (simp add: piece_hi_def)
  let ?k = "piece_lo (unat off) i - i * seg_size"
  have "?k + unat (nbyte x) \<le> piece_len nd i" unfolding nb piece_len_def using pb hi by auto
  moreover have "i < unat (mmap_count nd)"
    using i(2) last_piece_less [OF assms(1) win] by simp
  moreover have "target_addr x = vaddrs nd ! i + of_nat ?k" by (simp add: x piece_entry_def)
  ultimately show ?thesis by blast
qed

section \<open>Negative offsets\<close>

lemma seg_of_negative:
  assumes "- 1073741824 < sint off" and "sint off < 0"
  shows "seg_start off = 0" and "srem64 off FGDS_MMAP_SEGMENT_SIZE = off"
proof -
  have S: "sint FGDS_MMAP_SEGMENT_SIZE = 1073741824" by simp
  have "\<bar>sint off\<bar> div 1073741824 = 0" "\<bar>sint off\<bar> mod 1073741824 = - sint off" using assms by simp_all
  then show "seg_start off = 0" "srem64 off FGDS_MMAP_SEGMENT_SIZE = off"
    unfolding seg_start_def sdiv64_def srem64_def S using assms(2) by (simp_all add: sgn_if)
qed

lemma do_xfer_addr_negative:
  assumes "reg_inv s" and "valid_dev d" and "covering s d g n = Some (p, nd)" and "is_mapped nd"
    and "- 1073741824 < sint off" and "sint off < 0"
    and "0 < n + off" and "n + off \<le> node_length nd" and "n + off \<le> FGDS_MMAP_SEGMENT_SIZE"
    and "vaddrs nd \<noteq> []" and "0 < mmap_count nd" and "os_malloc os (xfer_bytes off n) (world s) = (True, w)"
  shows "fgds_do_xfer_addr os d g off n s =
    Inr (Some [\<lparr>target_addr = vaddrs nd ! 0 + off, nbyte = n\<rparr>], s\<lparr>world := w, xfer_live := Suc (xfer_live s)\<rparr>)"
proof -
  obtain m where m: "node_heap s p = Some m" and pay: "payload m = nd"
    by (rule covering_load [OF assms(1-3)])
  have "0 < unat (off + n)" "unat (off + n) \<le> seg_size"
    using assms(7,9) by (simp_all add: word_less_nat_alt word_le_nat_alt add.commute [of n])
  then have "unat (off + n - 1) < seg_size" by (simp add: unat_sub word_le_nat_alt)
  then have "(off + n - 1) div FGDS_MMAP_SEGMENT_SIZE = 0" by (simp add: word_unat_eq_iff unat_div)
  then have en: "seg_end off n = 0" by (simp add: seg_end_def)
  note st = seg_of_negative [OF assms(5,6)]
  have loop: "xfer_loop 1 (vaddrs m) 0 0 1 off n 0 n [] =
      Inr (0, [\<lparr>target_addr = vaddrs m ! 0 + off, nbyte = n\<rparr>])"
    using assms(10) pay by (auto simp: xfer_loop.simps st(2))
  have "mmap_count m \<noteq> 0" using assms(11) pay by auto
  then show ?thesis
    unfolding fgds_do_xfer_addr_def
    using find_node_covering [OF assms(1,2)] assms(3,4,8,12) m pay loop
    by (auto simp: run malloc_def xfer_bytes_def Let_def en st(1))
qed

lemma two_gb_covering:
  "covering two_gb_lib 0 0x10000000 0x20000000 = Some (0, two_gb_node)"
  "node_wf two_gb_node" "in_window two_gb_node 0x30000000 0x20000000"
  "world two_gb_lib = sim_world_init" "os_malloc sim_os k v = (True, v)"
proof -
  show "covering two_gb_lib 0 0x10000000 0x20000000 = Some (0, two_gb_node)"
    unfolding covering_def two_gb_reg(2) by (simp add: node_covers_def two_gb_node_def)
qed (simp_all add: two_gb_node_def node_wf_def in_window_def two_gb_lib_def lib_init_def sim_os_def)

section \<open>Properties\<close>

text \<open>
  C3. Address translation is byte-exact. For a window inside the registered buffer the search
  stops at, \<open>fgds_do_xfer_addr\<close> returns a descriptor whose ranges, read one after the other, are
  exactly the host addresses of the bytes \<open>buf_offset .. buf_offset + nbyte - 1\<close> of that buffer,
  in order; it changes nothing but the allocation of that descriptor.
\<close>

theorem xfer_byte_exact:
  assumes "reg_inv s" and "valid_dev d" and "covering s d g n = Some (p, nd)"
    and "node_wf nd" and "in_window nd off n" and "os_malloc os (xfer_bytes off n) (world s) = (True, w)"
  shows "\<exists>xs. fgds_do_xfer_addr os d g off n s = Inr (Some xs, s\<lparr>world := w, xfer_live := Suc (xfer_live s)\<rparr>) \<and>
    concat (map seg_bytes xs) = map (host_byte nd) [unat off..<unat off + unat n]"
proof -
  have "0 < unat n" using assms(5) by (simp add: in_window_def)
  then show ?thesis using do_xfer_addr_eq [OF assms] window_segs_bytes [of "unat n" nd] by simp
qed

text \<open>The window of 512 MB at offset 768 MB of a buffer of 2 GB, the example in the source.\<close>

theorem xfer_byte_exact_witness:
  "\<exists>xs. fgds_do_xfer_addr sim_os 0 0x10000000 0x30000000 0x20000000 two_gb_lib =
      Inr (Some xs, two_gb_lib\<lparr>world := sim_world_init, xfer_live := Suc (xfer_live two_gb_lib)\<rparr>) \<and>
    concat (map seg_bytes xs) =
      map (host_byte two_gb_node) [unat (0x30000000 :: u64)..<unat (0x30000000 :: u64) + unat (0x20000000 :: u64)]"
  by (rule xfer_byte_exact [OF two_gb_reg(1) _ two_gb_covering(1-3)]) (simp_all add: two_gb_covering(4,5))

text \<open>
  C6. No range of a valid window leaves its mapping. When the buffer found is well formed and the window lies in it
  (\<open>in_window\<close>: a positive length, an offset that is not negative, the end at or before the end of the buffer),
  every range of the descriptor lies inside one piece of the buffer: it starts \<open>k\<close> bytes into the mapping of piece \<open>i\<close>
  and ends at or before the end of that mapping. The condition is needed: a window at a small
  negative offset is not refused and starts below the mapping.
\<close>

theorem xfer_inside_mapping:
  assumes "reg_inv s" and "valid_dev d" and "covering s d g n = Some (p, nd)"
    and "node_wf nd" and "in_window nd off n"
  shows "runs_to (fgds_do_xfer_addr os d g off n) s (\<lambda>r t. \<forall>xs. r = Some xs \<longrightarrow> (\<forall>x\<in>set xs.
    \<exists>i < unat (mmap_count nd). \<exists>k. target_addr x = vaddrs nd ! i + of_nat k \<and>
      k + unat (nbyte x) \<le> piece_len nd i))"
proof -
  obtain ok w where "os_malloc os (xfer_bytes off n) (world s) = (ok, w)" by fastforce
  from do_xfer_addr_eq [OF assms this] show ?thesis
    using window_segs_inside [OF assms(4,5)] by (auto simp: runs_to_def)
qed

theorem xfer_inside_mapping_witness:
  "runs_to (fgds_do_xfer_addr sim_os 0 0x10000000 0x30000000 0x20000000) two_gb_lib
    (\<lambda>r t. \<forall>xs. r = Some xs \<longrightarrow> (\<forall>x\<in>set xs. \<exists>i < unat (mmap_count two_gb_node).
      \<exists>k. target_addr x = vaddrs two_gb_node ! i + of_nat k \<and> k + unat (nbyte x) \<le> piece_len two_gb_node i))"
  by (rule xfer_inside_mapping [OF two_gb_reg(1) _ two_gb_covering(1-3)]) simp

text \<open>
  A window of at most 1 GB, in particular every 256 KB request of the pipelines, needs one
  or two ranges.
\<close>

theorem xfer_at_most_two:
  assumes "reg_inv s" and "valid_dev d" and "covering s d g n = Some (p, nd)"
    and "node_wf nd" and "in_window nd off n" and "n \<le> FGDS_MMAP_SEGMENT_SIZE"
  shows "runs_to (fgds_do_xfer_addr os d g off n) s
    (\<lambda>r t. \<forall>xs. r = Some xs \<longrightarrow> length xs = 1 \<or> length xs = 2)"
proof -
  obtain ok w where m: "os_malloc os (xfer_bytes off n) (world s) = (ok, w)" by fastforce
  have n: "0 < unat n" "unat n \<le> seg_size" using assms(5,6) by (simp_all add: in_window_def word_le_nat_alt)
  from do_xfer_addr_eq [OF assms(1-5) m] window_segs_le_2 [OF n, of nd "unat off"] show ?thesis
    by (cases "window_segs nd (unat off) (unat n)") (auto simp: runs_to_def le_Suc_eq)
qed

theorem xfer_at_most_two_witness:
  "runs_to (fgds_do_xfer_addr sim_os 0 0x10000000 0x30000000 0x20000000) two_gb_lib
    (\<lambda>r t. \<forall>xs. r = Some xs \<longrightarrow> length xs = 1 \<or> length xs = 2)"
  by (rule xfer_at_most_two [OF two_gb_reg(1) _ two_gb_covering(1-3)]) simp_all

text \<open>
  C16. What is refused. If no registered buffer covers the range, or the one found is not mapped
  or is shorter than the window (computed at 64 bits), the translation returns \<open>NULL\<close> and
  leaves the state as it was.
\<close>

theorem xfer_refused:
  assumes "reg_inv s" and "valid_dev d"
    and "case covering s d g n of None \<Rightarrow> True | Some (p, nd) \<Rightarrow> \<not> is_mapped nd \<or> node_length nd < n + off"
  shows "fgds_do_xfer_addr os d g off n s = Inr (None, s)"
  by (rule do_xfer_addr_refused [OF assms])

theorem xfer_refused_witness:
  "fgds_do_xfer_addr sim_os 0 0x10000000 0x70000000 0x20000000 two_gb_lib = Inr (None, two_gb_lib)"
  by (rule xfer_refused [OF two_gb_reg(1)]) (simp_all add: two_gb_covering(1), simp add: two_gb_node_def)

text \<open>
  C17. A negative offset reaches before the mapping. The range check adds \<open>buf_offset\<close> at 64 bits
  and does not look at its sign: with an offset in \<open>(-1 GB, 0)\<close> and a window that ends inside the
  first piece, the translation succeeds with one range that starts below the first mapping.
\<close>

theorem xfer_negative_offset:
  assumes "reg_inv s" and "valid_dev d" and "covering s d g n = Some (p, nd)" and "node_wf nd"
    and "- 1073741824 < sint off" and "sint off < 0"
    and "0 < n + off" and "n + off \<le> node_length nd" and "n + off \<le> FGDS_MMAP_SEGMENT_SIZE"
    and "os_malloc os (xfer_bytes off n) (world s) = (True, w)"
  shows "runs_to (fgds_do_xfer_addr os d g off n) s
    (\<lambda>r t. r = Some [\<lparr>target_addr = vaddrs nd ! 0 - of_nat (nat (- sint off)), nbyte = n\<rparr>])"
proof -
  have "0 < node_length nd" using assms(7,8) by simp
  then have "0 < unat (node_length nd)" by (simp add: word_less_nat_alt)
  then have cnt: "0 < unat (mmap_count nd)" using last_piece_less [OF assms(4), of 1 0] by simp
  then have "0 < mmap_count nd" "vaddrs nd \<noteq> []" "is_mapped nd"
    using assms(4) by (auto simp: word_less_nat_alt node_wf_def)
  note eq = do_xfer_addr_negative [OF assms(1-3) this(3) assms(5-9) this(2,1) assms(10)]
  have "of_nat (nat (- sint off)) = (of_int (- sint off) :: u64)" using assms(6) by (intro of_nat_nat) simp
  also have "\<dots> = - off" by simp
  finally show ?thesis using eq by (simp add: runs_to_def)
qed

theorem xfer_negative_offset_witness:
  "runs_to (fgds_do_xfer_addr sim_os 0 0x10000000 (-65536) 0x20000000) two_gb_lib
    (\<lambda>r t. r = Some [\<lparr>target_addr = vaddrs two_gb_node ! 0 - of_nat (nat (- sint (-65536 :: s64))), nbyte = 0x20000000\<rparr>])"
  by (rule xfer_negative_offset [OF two_gb_reg(1) _ two_gb_covering(1,2)])
    (simp_all add: two_gb_covering(4,5), simp_all add: two_gb_node_def)

end
