(* ===== verification/Fgds_Device.thy ===== *)
theory Fgds_Device
  imports Fgds_Registry
begin

text \<open>
  Opening and closing devices: \<open>__fgds_open\<close>, \<open>__fgds_close\<close>, \<open>fgds_close_all\<close>, \<open>fgds_close\<close>,
  \<open>is_fgds_initialized\<close> and \<open>fgds_open\<close> of libfgds/fgds.cc. A device has two flags: the context's
  \<open>initialized\<close>, set by a successful \<open>__fgds_open\<close> and never cleared, and the entry of the
  vector \<open>fgds_initialized\<close>, which the public operations consult.
\<close>

section \<open>Operations\<close>

definition fgds_dev_path :: "string list" where
  "fgds_dev_path = [''/dev/fgds_dev0'', ''/dev/fgds_dev1'', ''/dev/fgds_dev2'', ''/dev/fgds_dev3'',
     ''/dev/fgds_dev4'', ''/dev/fgds_dev5'', ''/dev/fgds_dev6'', ''/dev/fgds_dev7'']"

definition get_init :: "int \<Rightarrow> ('w lib, bool) prog" where
  "get_init d = gets (\<lambda>s. fgds_initialized s (nat d))"

definition set_init :: "int \<Rightarrow> bool \<Rightarrow> ('w lib, unit) prog" where
  "set_init d b = modify (\<lambda>s. s\<lparr>fgds_initialized := (fgds_initialized s)(nat d := b)\<rparr>)"

definition fgds_close_ctx :: "'w os \<Rightarrow> int \<Rightarrow> ('w lib, int) prog" where
  "fgds_close_ctx os d = bnd (dev_ctx d) (\<lambda>b.
     if \<not> initialized b then ret (-1)
     else
       sq (if uring_init b then sq (io_uring_queue_exit os d) (upd_ctx d (\<lambda>b. b\<lparr>uring_init := False\<rparr>)) else ret ()) (
       sq (if 0 < dev_fd b then sq (sys_close os (dev_fd b)) (ret ()) else ret ()) (
       sq (fgds_free_mmap_nodes d) (
       bnd (dev_ctx d) (\<lambda>b1.
       bnd (lift (mutex_destroy (lock b1))) (\<lambda>m1.
       sq (upd_ctx d (\<lambda>b. b\<lparr>lock := m1\<rparr>)) (
       bnd (lift (mutex_destroy (uring_lock b1))) (\<lambda>m2.
       sq (upd_ctx d (\<lambda>b. b\<lparr>uring_lock := m2\<rparr>)) (
       ret 0)))))))))"

definition fgds_close_all :: "'w os \<Rightarrow> ('w lib, int) prog" where
  "fgds_close_all os =
     sq (for_each [0..FGDS_MAX_DEVICES - 1] (\<lambda>i. bnd (get_init i) (\<lambda>b.
           if b then sq (fgds_close_ctx os i) (set_init i False) else ret ())))
        (ret 0)"

definition fgds_close :: "'w os \<Rightarrow> int \<Rightarrow> ('w lib, int) prog" where
  "fgds_close os d =
     (if 0 \<le> d \<and> d < FGDS_MAX_DEVICES then
        bnd (get_init d) (\<lambda>b.
        sq (if b then sq (fgds_close_ctx os d) (set_init d False) else ret ())
           (ret 0))
      else ret (-1))"

definition fgds_open_ctx :: "'w os \<Rightarrow> string \<Rightarrow> int \<Rightarrow> ('w lib, int) prog" where
  "fgds_open_ctx os path d = bnd (sys_open os path) (\<lambda>f.
     sq (upd_ctx d (\<lambda>b. b\<lparr>dev_fd := f\<rparr>)) (
     if f = -1 then ret (-1)
     else sq (upd_ctx d (\<lambda>b. b\<lparr>head := None, lock := Unlocked, uring_lock := Unlocked,
            initialized := True, uring_init := False\<rparr>)) (ret 0)))"

definition is_fgds_initialized :: "('w lib, bool) prog" where
  "is_fgds_initialized = gets (\<lambda>s. foldl (\<lambda>r i. r \<or> fgds_initialized s (nat i)) False [0..FGDS_MAX_DEVICES - 1])"

fun open_loop :: "'w os \<Rightarrow> int list \<Rightarrow> ('w lib, int) prog" where
  "open_loop os [] = ret 0"
| "open_loop os (i # is) = bnd (get_init i) (\<lambda>b.
     if b then open_loop os is
     else bnd (fgds_open_ctx os (fgds_dev_path ! nat i) i) (\<lambda>r.
       if r < 0 then sq (fgds_close_all os) (ret r)
       else sq (set_init i True) (open_loop os is)))"

definition fgds_open :: "'w os \<Rightarrow> int \<Rightarrow> ('w lib, int) prog" where
  "fgds_open os d = bnd is_fgds_initialized (\<lambda>any.
     if any then ret 0
     else if d = -1 then open_loop os [0..FGDS_MAX_DEVICES - 1]
     else if 0 \<le> d \<and> d < FGDS_MAX_DEVICES then
       bnd (get_init d) (\<lambda>b. if b then ret 0
         else bnd (fgds_open_ctx os (fgds_dev_path ! nat d) d) (\<lambda>r. sq (set_init d True) (ret r)))
     else
       bnd (get_init 0) (\<lambda>b. if b then ret 0
         else bnd (fgds_open_ctx os (fgds_dev_path ! 0) 0) (\<lambda>r. sq (set_init 0 True) (ret r))))"

declare fgds_close_ctx_def [run] fgds_close_all_def [run] fgds_close_def [run] fgds_open_ctx_def [run]
  is_fgds_initialized_def [run] fgds_open_def [run] get_init_def [run] set_init_def [run] fgds_dev_path_def [run]

lemma runs_to_get_init [wp, simp]: "runs_to (get_init d) s Q = Q (fgds_initialized s (nat d)) s"
  by (simp add: get_init_def)

lemma runs_to_set_init [wp, simp]:
  "runs_to (set_init d b) s Q = Q () (s\<lparr>fgds_initialized := (fgds_initialized s)(nat d := b)\<rparr>)"
  by (simp add: set_init_def)

section \<open>Closing one device\<close>

text \<open>A context that is open: what a successful \<open>__fgds_open\<close> establishes and \<open>__fgds_close\<close> needs.\<close>

definition ctx_open :: "'w lib \<Rightarrow> int \<Rightarrow> bool" where
  "ctx_open s d \<longleftrightarrow> initialized (g_dev_ctx s (nat d)) \<and> lock (g_dev_ctx s (nat d)) = Unlocked \<and>
     uring_lock (g_dev_ctx s (nat d)) = Unlocked"

text \<open>The calls \<open>__fgds_close\<close> makes.\<close>

definition close_calls :: "fgds_mmap_buffer \<Rightarrow> int \<Rightarrow> call list" where
  "close_calls b d = (if uring_init b then [C_ring_exit d] else []) @ (if 0 < dev_fd b then [C_close (dev_fd b)] else [])"

text \<open>
  The state after \<open>__fgds_close\<close>, up to the world: the nodes are freed, the mutexes destroyed and
  the calls of \<open>close_calls\<close> made.
\<close>

definition closed :: "'w lib \<Rightarrow> int \<Rightarrow> 'w \<Rightarrow> 'w lib" where
  "closed s d w = s\<lparr>node_heap := node_heap s |` (- set (dev_ptrs s d)),
     g_dev_ctx := (g_dev_ctx s)(nat d := (g_dev_ctx s (nat d))\<lparr>head := None, lock := Destroyed,
       uring_init := False, uring_lock := Destroyed\<rparr>),
     calls := calls s @ close_calls (g_dev_ctx s (nat d)) d, world := w\<rparr>"

lemma ctx_closed_upd: "\<not> uring_init b \<Longrightarrow> b\<lparr>head := None, lock := Destroyed, uring_lock := Destroyed\<rparr> =
    b\<lparr>head := None, lock := Destroyed, uring_init := False, uring_lock := Destroyed\<rparr>"
  by (cases b) simp

lemma runs_to_close_ctx:
  assumes "reg_inv s" and "valid_dev d" and "ctx_open s d"
  shows "runs_to (fgds_close_ctx os d) s (\<lambda>r t. r = 0 \<and> t = closed s d (world t))"
  using assms
  by (cases "uring_init (g_dev_ctx s (nat d))"; cases "0 < dev_fd (g_dev_ctx s (nat d))")
    (simp_all add: fgds_close_ctx_def ring_defs sys_defs ctx_open_def reg_ready_def runs_to_free_nodes
      freed_def closed_def close_calls_def ctx_closed_upd split: prod.split)

lemma closed_reg:
  assumes "reg_inv s" and "valid_dev d"
  shows "reg_inv (closed s d w)"
    and "valid_dev e \<Longrightarrow> dev_ptrs (closed s d w) e = (if e = d then [] else dev_ptrs s e)"
proof -
  have eq: "closed s d w = (freed s d)\<lparr>
      g_dev_ctx := (g_dev_ctx (freed s d))(nat d := (g_dev_ctx (freed s d) (nat d))\<lparr>lock := Destroyed,
        uring_init := False, uring_lock := Destroyed\<rparr>),
      calls := calls s @ close_calls (g_dev_ctx s (nat d)) d, world := w\<rparr>"
    by (simp add: closed_def freed_def)
  show "reg_inv (closed s d w)" unfolding eq using freed_reg(1) [OF assms] by simp
  show "valid_dev e \<Longrightarrow> dev_ptrs (closed s d w) e = (if e = d then [] else dev_ptrs s e)"
    unfolding eq using freed_reg(2) [OF assms] by simp
qed

section \<open>The device invariant\<close>

text \<open>The registry is well formed and every device marked as initialised has an open context.\<close>

definition marked :: "'w lib \<Rightarrow> int \<Rightarrow> bool" where
  "marked s d = fgds_initialized s (nat d)"

definition dev_inv :: "'w lib \<Rightarrow> bool" where
  "dev_inv s \<longleftrightarrow> reg_inv s \<and> (\<forall>d. valid_dev d \<longrightarrow> marked s d \<longrightarrow> ctx_open s d)"

text \<open>What a public close of a marked device does.\<close>

definition shut :: "'w lib \<Rightarrow> int \<Rightarrow> 'w \<Rightarrow> 'w lib" where
  "shut s d w = (closed s d w)\<lparr>fgds_initialized := (fgds_initialized s)(nat d := False)\<rparr>"

lemma close_marked:
  assumes "dev_inv s" and "valid_dev d" and "marked s d"
  shows "runs_to (sq (fgds_close_ctx os d) (set_init d False)) s (\<lambda>_ t. t = shut s d (world t))"
proof -
  have "reg_inv s" "ctx_open s d" using assms by (auto simp: dev_inv_def)
  note run = runs_to_close_ctx [OF this(1) assms(2) this(2), of os]
  show ?thesis unfolding runs_to_sq
  proof (rule runs_to_mono [OF run], elim conjE)
    fix r t
    assume t: "t = closed s d (world t)"
    have "fgds_initialized t = fgds_initialized s"
      using arg_cong [OF t, of fgds_initialized] by (simp add: closed_def)
    then show "runs_to (set_init d False) t (\<lambda>_ t. t = shut s d (world t))"
      using t by (simp add: shut_def)
  qed
qed

lemma shut_simps:
  assumes "dev_inv s" and "valid_dev d" and "valid_dev e"
  shows "dev_inv (shut s d w)" and "marked (shut s d w) e = (marked s e \<and> e \<noteq> d)"
    and "dev_ptrs (shut s d w) e = (if e = d then [] else dev_ptrs s e)"
    and "e \<noteq> d \<Longrightarrow> g_dev_ctx (shut s d w) (nat e) = g_dev_ctx s (nat e)"
proof -
  have reg: "reg_inv s" using assms(1) by (simp add: dev_inv_def)
  have ne: "nat e \<noteq> nat d" if "e \<noteq> d" "valid_dev e" for e using that assms(2) by (simp add: eq_nat_nat_iff)
  show mk: "marked (shut s d w) e = (marked s e \<and> e \<noteq> d)" 
    using assms(3) ne by (auto simp: shut_def closed_def marked_def)
  show ctx: "e \<noteq> d \<Longrightarrow> g_dev_ctx (shut s d w) (nat e) = g_dev_ctx s (nat e)"
    using assms(3) ne by (simp add: shut_def closed_def)
  show "dev_ptrs (shut s d w) e = (if e = d then [] else dev_ptrs s e)"
    unfolding shut_def using closed_reg(2) [OF reg assms(2,3)] by simp
  have "ctx_open (shut s d w) i" if "valid_dev i" "marked (shut s d w) i" for i
  proof -
    have "i \<noteq> d" using that by (auto simp: shut_def closed_def marked_def)
    then have "marked s i" "g_dev_ctx (shut s d w) (nat i) = g_dev_ctx s (nat i)"
      using that ne by (auto simp: shut_def closed_def marked_def)
    then show ?thesis using assms(1) that(1) by (auto simp: dev_inv_def ctx_open_def)
  qed
  then show "dev_inv (shut s d w)" unfolding dev_inv_def using closed_reg(1) [OF reg assms(2)] by (simp add: shut_def)
qed

section \<open>Closing every device\<close>

lemma dev_list [run]: "[0..7::int] = [0, 1, 2, 3, 4, 5, 6, 7]"
  by (simp add: upto_rec1)

lemma dev_range: "(d \<in> set [0..FGDS_MAX_DEVICES - 1]) = valid_dev d"
  by auto

text \<open>The state of a context that has been closed.\<close>

definition ctx_closed :: "'w lib \<Rightarrow> int \<Rightarrow> bool" where
  "ctx_closed s d \<longleftrightarrow> head (g_dev_ctx s (nat d)) = None \<and> \<not> uring_init (g_dev_ctx s (nat d)) \<and>
     lock (g_dev_ctx s (nat d)) = Destroyed \<and> uring_lock (g_dev_ctx s (nat d)) = Destroyed"

lemma shut_ctx: "ctx_closed (shut s d w) d" "calls (shut s d w) = calls s @ close_calls (g_dev_ctx s (nat d)) d"
  by (simp_all add: ctx_closed_def shut_def closed_def)

text \<open>
  The devices \<open>ds\<close> of \<open>s\<close> that were marked have been closed in \<open>t\<close>, in the order of the list, the others are as
  they were.
\<close>

definition closed_devs :: "'w lib \<Rightarrow> int list \<Rightarrow> 'w lib \<Rightarrow> bool" where
  "closed_devs s ds t \<longleftrightarrow> dev_inv t \<and> (\<forall>d. valid_dev d \<longrightarrow>
     marked t d = (marked s d \<and> d \<notin> set ds) \<and>
     dev_ptrs t d = (if marked s d \<and> d \<in> set ds then [] else dev_ptrs s d) \<and>
     (marked s d \<and> d \<in> set ds \<longrightarrow> ctx_closed t d) \<and>
     (\<not> (marked s d \<and> d \<in> set ds) \<longrightarrow> g_dev_ctx t (nat d) = g_dev_ctx s (nat d))) \<and>
     calls t = calls s @ concat (map (\<lambda>d. if marked s d then close_calls (g_dev_ctx s (nat d)) d else []) ds)"

lemma closed_devs_step:
  assumes "closed_devs s ds t" and "valid_dev i" and "i \<notin> set ds"
  shows "marked t i \<Longrightarrow> closed_devs s (ds @ [i]) (shut t i w)"
    and "\<not> marked t i \<Longrightarrow> closed_devs s (ds @ [i]) t"
proof -
  have inv: "dev_inv t" using assms(1) by (simp add: closed_devs_def)
  have i: "marked t i = marked s i" "g_dev_ctx t (nat i) = g_dev_ctx s (nat i)"
    using assms by (auto simp: closed_devs_def)
  assume m: "marked t i"
  have "marked (shut t i w) d = (marked s d \<and> d \<notin> set (ds @ [i])) \<and>
     dev_ptrs (shut t i w) d = (if marked s d \<and> d \<in> set (ds @ [i]) then [] else dev_ptrs s d) \<and>
     (marked s d \<and> d \<in> set (ds @ [i]) \<longrightarrow> ctx_closed (shut t i w) d) \<and>
     (\<not> (marked s d \<and> d \<in> set (ds @ [i])) \<longrightarrow> g_dev_ctx (shut t i w) (nat d) = g_dev_ctx s (nat d))" if "valid_dev d" for d
    using assms m that i shut_ctx(1) [of t i w] shut_simps(2-4) [OF inv assms(2) that, of w]
    by (cases "d = i") (auto simp: closed_devs_def ctx_closed_def)
  moreover have "calls (shut t i w) =
      calls s @ concat (map (\<lambda>d. if marked s d then close_calls (g_dev_ctx s (nat d)) d else []) (ds @ [i]))"
    using assms(1) m i shut_ctx(2) [of t i w] by (simp add: closed_devs_def)
  ultimately show "closed_devs s (ds @ [i]) (shut t i w)"
    using shut_simps(1) [OF inv assms(2,2)] unfolding closed_devs_def by blast
next
  assume "\<not> marked t i"
  then show "closed_devs s (ds @ [i]) t" using assms by (auto simp: closed_devs_def)
qed

lemma close_all_spec:
  assumes "dev_inv s"
  shows "runs_to (fgds_close_all os) s (\<lambda>r t. r = 0 \<and> closed_devs s [0..7] t)"
proof -
  have "runs_to (for_each [0..7] (\<lambda>i. bnd (get_init i) (\<lambda>b.
           if b then sq (fgds_close_ctx os i) (set_init i False) else ret ()))) s (\<lambda>_. closed_devs s [0..7])"
  proof (rule runs_to_for_each)
    show "closed_devs s [] s" using assms by (simp add: closed_devs_def)
  next
    fix pre i rest t
    assume split: "[0..7] = pre @ i # rest" and t: "closed_devs s pre t"
    have i: "valid_dev i" "i \<notin> set pre"
    proof -
      have "distinct (pre @ i # rest)" and "set (pre @ i # rest) = {0..7}"
        unfolding split [symmetric] by (rule distinct_upto, rule set_upto)
      moreover have "i \<in> set (pre @ i # rest)" by simp
      ultimately show "valid_dev i" "i \<notin> set pre" by (simp_all del: set_append)
    qed
    have inv: "dev_inv t" using t by (simp add: closed_devs_def)
    show "runs_to (bnd (get_init i) (\<lambda>b. if b then sq (fgds_close_ctx os i) (set_init i False) else ret ())) t
        (\<lambda>_. closed_devs s (pre @ [i]))"
    proof (cases "marked t i")
      case True
      have "runs_to (sq (fgds_close_ctx os i) (set_init i False)) t (\<lambda>_. closed_devs s (pre @ [i]))"
        by (rule runs_to_mono [OF close_marked [OF inv i(1) True]])
          (metis closed_devs_step(1) [OF t i True])
      then show ?thesis using True by (simp add: marked_def)
    next
      case False
      then show ?thesis using closed_devs_step(2) [OF t i False] by (simp add: marked_def)
    qed
  qed
  then show ?thesis by (simp add: fgds_close_all_def)
qed

section \<open>Opening\<close>

lemma is_fgds_initialized_eq:
  "runs_to is_fgds_initialized s Q = Q (\<exists>d. valid_dev d \<and> marked s d) s"
proof -
  have "foldl (\<lambda>r i. r \<or> P i) r xs = (r \<or> (\<exists>i\<in>set xs. P i))" for P r and xs :: "int list"
    by (induction xs arbitrary: r) auto
  then have "foldl (\<lambda>r i. r \<or> fgds_initialized s (nat i)) False [0..FGDS_MAX_DEVICES - 1] =
      (\<exists>d. valid_dev d \<and> marked s d)"
    by (auto simp: marked_def simp del: upto_rec_numeral)
  then show ?thesis by (simp only: is_fgds_initialized_def runs_to_gets)
qed

text \<open>A context that \<open>__fgds_open\<close> has opened with descriptor \<open>f\<close>.\<close>

definition opened :: "'w lib \<Rightarrow> int \<Rightarrow> string \<Rightarrow> int \<Rightarrow> 'w \<Rightarrow> 'w lib" where
  "opened s d path f w = s\<lparr>world := w, calls := calls s @ [C_open path f], g_dev_ctx := (g_dev_ctx s)(nat d := (g_dev_ctx s (nat d))\<lparr>dev_fd := f, head := None,
       lock := Unlocked, uring_lock := Unlocked, initialized := True, uring_init := False\<rparr>)\<rparr>"

definition open_failed :: "'w lib \<Rightarrow> int \<Rightarrow> string \<Rightarrow> 'w \<Rightarrow> 'w lib" where
  "open_failed s d path w = s\<lparr>world := w, calls := calls s @ [C_open path (-1)],
     g_dev_ctx := (g_dev_ctx s)(nat d := (g_dev_ctx s (nat d))\<lparr>dev_fd := -1\<rparr>)\<rparr>"

lemma runs_to_open_ctx:
  assumes "valid_dev d"
  shows "runs_to (fgds_open_ctx os path d) s Q =
    (case os_open os path (world s) of (f, w) \<Rightarrow>
       if f = -1 then Q (-1) (open_failed s d path w) else Q 0 (opened s d path f w))"
  using assms by (auto simp: fgds_open_ctx_def sys_open_def open_failed_def opened_def split: prod.splits)

lemma open_simps:
  assumes "dev_inv s" and "valid_dev d" and "\<not> marked s d" and "valid_dev e"
  shows "dev_inv (open_failed s d path w)" and "marked (open_failed s d path w) e = marked s e"
    and "dev_inv ((opened s d path f w)\<lparr>fgds_initialized := (fgds_initialized s)(nat d := True)\<rparr>)"
    and "marked ((opened s d path f w)\<lparr>fgds_initialized := (fgds_initialized s)(nat d := True)\<rparr>) e = (marked s e \<or> e = d)"
proof -
  have reg: "reg_inv s" using assms(1) by (simp add: dev_inv_def)
  show "marked (open_failed s d path w) e = marked s e" by (simp add: open_failed_def marked_def)
  have ne: "nat i = nat d \<longleftrightarrow> i = d" if "valid_dev i" for i using that assms(2) by (auto simp: eq_nat_nat_iff)
  then show "marked ((opened s d path f w)\<lparr>fgds_initialized := (fgds_initialized s)(nat d := True)\<rparr>) e = (marked s e \<or> e = d)"
    using assms(4) by (auto simp: opened_def marked_def)
  have "ctx_open (open_failed s d path w) i" if "valid_dev i" "marked s i" for i
    using assms(1) that by (auto simp: dev_inv_def ctx_open_def open_failed_def)
  then show "dev_inv (open_failed s d path w)"
    using reg by (auto simp: dev_inv_def open_failed_def marked_def)
  let ?t = "(opened s d path f w)\<lparr>fgds_initialized := (fgds_initialized s)(nat d := True)\<rparr>"
  have "ctx_open ?t i" if "valid_dev i" "marked ?t i" for i
    using assms(1) that ne by (auto simp: dev_inv_def ctx_open_def opened_def marked_def split: if_splits)
  moreover have "reg_inv ?t"
  proof (rule reg_invI(1) [where P = "\<lambda>i. if i = d then [] else dev_ptrs s i"])
    show "chain (node_heap ?t) (head (g_dev_ctx ?t (nat i))) (if i = d then [] else dev_ptrs s i)" if "valid_dev i" for i
      using reg_inv_chain [OF reg that] ne [OF that] by (simp add: opened_def)
    show "set (if i = d then [] else dev_ptrs s i) \<inter> set (if j = d then [] else dev_ptrs s j) = {}"
      if "valid_dev i" "valid_dev j" "i \<noteq> j" for i j
      using reg_inv_disjoint [OF reg that] by simp
    show "p < next_ptr ?t" if "node_heap ?t p \<noteq> None" for p
      using reg that by (auto simp: opened_def reg_inv_def)
  qed
  ultimately show "dev_inv ?t" unfolding dev_inv_def by simp
qed

text \<open>
  The first devices have been opened with the descriptors \<open>fs\<close>; and all of them have been closed again after the
  next one could not be opened. \<open>__fgds_close\<close> closes a descriptor only if it is positive.
\<close>

definition opened_devs :: "'w lib \<Rightarrow> int list \<Rightarrow> 'w lib \<Rightarrow> bool" where
  "opened_devs s fs t \<longleftrightarrow> dev_inv t \<and> length fs \<le> 8 \<and> -1 \<notin> set fs \<and> calls t = calls s @ map2 C_open fgds_dev_path fs \<and>
     (\<forall>d. valid_dev d \<longrightarrow> marked t d = (d < int (length fs))) \<and>
     (\<forall>i < length fs. dev_fd (g_dev_ctx t i) = fs ! i \<and> \<not> uring_init (g_dev_ctx t i))"

definition reclosed_devs :: "'w lib \<Rightarrow> int list \<Rightarrow> 'w lib \<Rightarrow> bool" where
  "reclosed_devs s fs t \<longleftrightarrow> dev_inv t \<and> length fs < 8 \<and> -1 \<notin> set fs \<and>
     calls t = calls s @ map2 C_open fgds_dev_path (fs @ [-1]) @ map C_close (filter (\<lambda>f. 0 < f) fs) \<and>
     (\<forall>d. valid_dev d \<longrightarrow> \<not> marked t d) \<and> (\<forall>i < length fs. ctx_closed t (int i))"

lemma map2_snoc: "length ys < length xs \<Longrightarrow> map2 f xs (ys @ [y]) = map2 f xs ys @ [f (xs ! length ys) y]"
proof (induction ys arbitrary: xs)
  case Nil
  then show ?case by (cases xs) auto
next
  case (Cons a ys)
  then show ?case by (cases xs) auto
qed

lemma dev_path_length: "length fgds_dev_path = 8"
  by (simp add: fgds_dev_path_def)

text \<open>The calls of \<open>fgds_close_all\<close> when the first \<open>length fs\<close> devices are open.\<close>

lemma close_prefix_calls:
  assumes "length fs \<le> 8" and "\<And>i. i < length fs \<Longrightarrow> c (int i) = (if 0 < fs ! i then [C_close (fs ! i)] else [])"
  shows "concat (map (\<lambda>d. if d < int (length fs) then c d else []) [0..7]) = map C_close (filter (\<lambda>f. 0 < f) fs)"
proof -
  let ?g = "\<lambda>d. if d < int (length fs) then c d else []"
  have "[0..<8] = [0..<length fs] @ [length fs..<8]" using assms(1) upt_add_eq_append [of 0 "length fs" "8 - length fs"] by simp
  moreover have "[0..7] = map int [0..<8]" by (simp add: upt_rec dev_list)
  ultimately have upto: "[0..7] = map int ([0..<length fs] @ [length fs..<8])" by presburger
  have "map (?g \<circ> int) [0..<length fs] = map (\<lambda>f. if 0 < f then [C_close f] else []) fs"
    by (rule nth_equalityI) (simp_all add: assms(2))
  moreover have "concat (map (?g \<circ> int) [length fs..<8]) = []" by (simp add: concat_eq_Nil_conv)
  moreover have "concat (map ?g [0..7]) = concat (map (?g \<circ> int) [0..<length fs]) @ concat (map (?g \<circ> int) [length fs..<8])"
    unfolding upto map_append map_map concat_append ..
  moreover have "concat (map (\<lambda>f. if 0 < f then [C_close f] else []) fs) = map C_close (filter (\<lambda>f. 0 < f) fs)"
    by (induction fs) auto
  ultimately show ?thesis by (simp only: append_Nil2)
qed

lemma opened_devs_fail:
  assumes "opened_devs s fs t" and "length fs < 8"
  shows "runs_to (fgds_close_all os) (open_failed t (int (length fs)) (fgds_dev_path ! length fs) w) (\<lambda>_. reclosed_devs s fs)"
proof -
  let ?k = "length fs" and ?u = "open_failed t (int (length fs)) (fgds_dev_path ! length fs) w"
  have t: "dev_inv t" "-1 \<notin> set fs" "calls t = calls s @ map2 C_open fgds_dev_path fs"
    "\<And>d. valid_dev d \<Longrightarrow> marked t d = (d < int ?k)" "\<And>i. i < ?k \<Longrightarrow> dev_fd (g_dev_ctx t i) = fs ! i \<and> \<not> uring_init (g_dev_ctx t i)"
    using assms(1) unfolding opened_devs_def by blast+
  have k: "valid_dev (int ?k)" "\<not> marked t (int ?k)" using assms(2) t(4) by auto
  have mk: "marked ?u d = (d < int ?k)" if "valid_dev d" for d using open_simps(2) [OF t(1) k that] t(4) [OF that] by simp
  have ctx: "g_dev_ctx ?u i = g_dev_ctx t i" if "i < ?k" for i using that by (simp add: open_failed_def)
  have "concat (map (\<lambda>d. if marked ?u d then close_calls (g_dev_ctx ?u (nat d)) d else []) [0..7]) =
      concat (map (\<lambda>d. if d < int ?k then close_calls (g_dev_ctx ?u (nat d)) d else []) [0..7])"
    by (intro arg_cong [where f = concat] map_cong [OF refl]) (use mk in auto)
  also have "\<dots> = map C_close (filter (\<lambda>f. 0 < f) fs)"
    by (rule close_prefix_calls) (use assms(2) t(5) ctx in \<open>auto simp: close_calls_def\<close>)
  finally have cl: "concat (map (\<lambda>d. if marked ?u d then close_calls (g_dev_ctx ?u (nat d)) d else []) [0..7]) = \<dots>" .
  have cu: "calls ?u = calls s @ map2 C_open fgds_dev_path (fs @ [-1])"
    using t(3) assms(2) by (simp add: open_failed_def map2_snoc dev_path_length)
  show ?thesis
  proof (rule runs_to_mono [OF close_all_spec [OF open_simps(1) [OF t(1) k k(1)]]], elim conjE)
    fix v
    assume v: "closed_devs ?u [0..7] v"
    have "ctx_closed v (int i)" if "i < ?k" for i using v that assms(2) mk [of "int i"] by (auto simp: closed_devs_def)
    moreover have "\<not> marked v d" if "valid_dev d" for d using v that by (auto simp: closed_devs_def)
    moreover have "dev_inv v" "calls v = calls ?u @ map C_close (filter (\<lambda>f. 0 < f) fs)" using v cl by (simp_all only: closed_devs_def)
    ultimately show "reclosed_devs s fs v" using t(2) assms(2) cu by (simp add: reclosed_devs_def)
  qed
qed

lemma opened_devs_step:
  assumes "opened_devs s fs t" and "length fs < 8" and "f \<noteq> -1"
  shows "opened_devs s (fs @ [f]) ((opened t (int (length fs)) (fgds_dev_path ! length fs) f w)
    \<lparr>fgds_initialized := (fgds_initialized t)(nat (int (length fs)) := True)\<rparr>)" (is "opened_devs s _ ?u")
proof -
  let ?k = "length fs"
  have t: "dev_inv t" "-1 \<notin> set fs" "calls t = calls s @ map2 C_open fgds_dev_path fs"
    "\<And>d. valid_dev d \<Longrightarrow> marked t d = (d < int ?k)" "\<And>i. i < ?k \<Longrightarrow> dev_fd (g_dev_ctx t i) = fs ! i \<and> \<not> uring_init (g_dev_ctx t i)"
    using assms(1) unfolding opened_devs_def by blast+
  have k: "valid_dev (int ?k)" "\<not> marked t (int ?k)" using assms(2) t(4) by auto
  have "marked ?u d = (d < int (length (fs @ [f])))" if "valid_dev d" for d
    using open_simps(4) [OF t(1) k that] t(4) [OF that] by auto
  moreover have "dev_fd (g_dev_ctx ?u i) = (fs @ [f]) ! i \<and> \<not> uring_init (g_dev_ctx ?u i)" if "i < length (fs @ [f])" for i
    using that t(5) [of i] by (auto simp: opened_def nth_append less_Suc_eq)
  moreover have "calls ?u = calls s @ map2 C_open fgds_dev_path (fs @ [f])"
    using t(3) assms(2) by (simp add: opened_def map2_snoc dev_path_length)
  ultimately show ?thesis
    using t(2) assms(2,3) open_simps(3) [OF t(1) k k(1)] unfolding opened_devs_def by auto
qed

lemma open_loop_spec:
  assumes "opened_devs s fs t" and "k = int (length fs)"
  shows "runs_to (open_loop os [k..7]) t (\<lambda>r u. \<exists>gs. r = 0 \<and> length gs = 8 \<and> opened_devs s gs u \<or>
    r = -1 \<and> reclosed_devs s gs u)"
  using assms
proof (induction "8 - length fs" arbitrary: fs t k)
  case 0
  then have "length fs = 8" by (simp add: opened_devs_def)
  then show ?case using 0 by auto
next
  case (Suc n)
  let ?i = "int (length fs)" and ?path = "fgds_dev_path ! length fs"
  have lt: "length fs < 8" using Suc by simp
  then have upto: "[k..7] = ?i # [?i + 1..7]" using Suc.prems(2) by (subst upto_rec1) simp_all
  have "\<forall>d. valid_dev d \<longrightarrow> marked t d = (d < int (length fs))" using Suc.prems(1) unfolding opened_devs_def by blast
  from spec [OF this, of ?i] have i: "valid_dev ?i" "\<not> fgds_initialized t (length fs)"
    using lt by (simp_all add: marked_def)
  obtain f w where o: "os_open os ?path (world t) = (f, w)" by fastforce
  show ?case
  proof (cases "f = -1")
    case True
    from opened_devs_fail [OF Suc.prems(1) lt]
    have "runs_to (fgds_close_all os) (open_failed t ?i ?path w) (\<lambda>_ u. \<exists>gs. reclosed_devs s gs u)"
      by (rule runs_to_mono) blast
    then show ?thesis unfolding upto using i o True by (simp add: runs_to_open_ctx)
  next
    case False
    have "n = 8 - length (fs @ [f])" using Suc.hyps(2) by simp
    from Suc.hyps(1) [OF this opened_devs_step [OF Suc.prems(1) lt False], of "?i + 1"]
    show ?thesis unfolding upto using i o False by (simp add: runs_to_open_ctx opened_def)
  qed
qed

lemma shut_entries:
  assumes "dev_inv s" and "valid_dev d" and "valid_dev e" and "e \<noteq> d"
  shows "reg_entries (shut s d w) e = reg_entries s e"
proof -
  have reg: "reg_inv s" using assms(1) by (simp add: dev_inv_def)
  have "node_heap (shut s d w) p = node_heap s p" if "p \<in> set (dev_ptrs s e)" for p
    using that reg_inv_disjoint [OF reg assms(2,3)] assms(4) by (auto simp: shut_def closed_def restrict_map_def)
  then show ?thesis
    unfolding reg_entries_def using shut_simps(3) [OF assms(1-3)] assms(4) by (simp add: entries_at_def)
qed

lemma runs_to_fgds_close:
  assumes "dev_inv s" and "valid_dev d" and "marked s d"
  shows "runs_to (fgds_close os d) s (\<lambda>r t. r = 0 \<and> t = shut s d (world t))"
  using close_marked [OF assms, of os] assms(2,3) by (simp add: fgds_close_def marked_def)

section \<open>Properties\<close>

text \<open>
  C14. Opening every device is all or nothing. With no device marked, \<open>fgds_open(-1)\<close> never faults. Either it returns 0
  after opening the eight device files in order, with every device marked and its context open on the descriptor it got;
  or it returns -1 after opening the first devices and failing on the next: then it has closed the positive descriptors it
  got, in order and each once, every context it had opened has its list emptied and both mutexes destroyed, no device is
  marked, and no other call was made.
\<close>

theorem open_all_or_nothing:
  assumes "dev_inv s" and "\<forall>d. valid_dev d \<longrightarrow> \<not> marked s d"
  shows "runs_to (fgds_open os (-1)) s (\<lambda>r t. dev_inv t \<and> (\<exists>fs. -1 \<notin> set fs \<and>
    (r = 0 \<and> length fs = 8 \<and> calls t = calls s @ map2 C_open fgds_dev_path fs \<and>
       (\<forall>d. valid_dev d \<longrightarrow> marked t d \<and> ctx_open t d \<and> dev_fd (g_dev_ctx t (nat d)) = fs ! nat d) \<or>
     r = -1 \<and> length fs < 8 \<and>
       calls t = calls s @ map2 C_open fgds_dev_path (fs @ [-1]) @ map C_close (filter (\<lambda>f. 0 < f) fs) \<and>
       (\<forall>d. valid_dev d \<longrightarrow> \<not> marked t d) \<and> (\<forall>i < length fs. ctx_closed t (int i)))))"
    (is "runs_to _ _ ?Q")
proof -
  have none: "opened_devs s [] s" "0 = int (length ([] :: int list))" using assms by (simp_all add: opened_devs_def)
  from open_loop_spec [OF none, of os] have "runs_to (open_loop os [0..7]) s ?Q"
  proof (rule runs_to_mono, elim exE disjE conjE)
    fix r :: int and u :: "'a lib" and gs
    assume r: "r = 0" "length gs = 8" and u: "opened_devs s gs u"
    have "marked u d \<and> ctx_open u d \<and> dev_fd (g_dev_ctx u (nat d)) = gs ! nat d" if "valid_dev d" for d
      using u r(2) that by (auto simp: opened_devs_def dev_inv_def)
    then show "?Q r u" using u r unfolding opened_devs_def by blast
  next
    fix r :: int and u :: "'a lib" and gs
    assume "r = -1" "reclosed_devs s gs u"
    then show "?Q r u" unfolding reclosed_devs_def by blast
  qed
  moreover have "(\<exists>d. valid_dev d \<and> marked s d) = False" using assms(2) by blast
  ultimately show ?thesis
    by (simp only: fgds_open_def runs_to_bnd is_fgds_initialized_eq simp_thms if_True if_False) simp
qed

lemma lib_init_inv: "dev_inv (lib_init w)" "\<not> marked (lib_init w) d"
  by (auto simp: dev_inv_def lib_init_def marked_def ctx_init_def intro!: reg_invI(1) [where P = "\<lambda>_. []"])

text \<open>An environment without the last four device files.\<close>

definition four_dev_os :: "sim_world os" where
  "four_dev_os = sim_os\<lparr>os_open := (\<lambda>path w. (if path \<in> set (take 4 fgds_dev_path) then 3 else -1, w))\<rparr>"

theorem open_all_or_nothing_witness:
  "runs_to (fgds_open four_dev_os (-1)) (lib_init sim_world_init) (\<lambda>r t. dev_inv t \<and> (\<exists>fs. -1 \<notin> set fs \<and>
    (r = 0 \<and> length fs = 8 \<and> calls t = calls (lib_init sim_world_init) @ map2 C_open fgds_dev_path fs \<and>
       (\<forall>d. valid_dev d \<longrightarrow> marked t d \<and> ctx_open t d \<and> dev_fd (g_dev_ctx t (nat d)) = fs ! nat d) \<or>
     r = -1 \<and> length fs < 8 \<and>
       calls t = calls (lib_init sim_world_init) @ map2 C_open fgds_dev_path (fs @ [-1]) @ map C_close (filter (\<lambda>f. 0 < f) fs) \<and>
       (\<forall>d. valid_dev d \<longrightarrow> \<not> marked t d) \<and> (\<forall>i < length fs. ctx_closed t (int i)))))"
  by (rule open_all_or_nothing) (simp_all add: lib_init_inv)

text \<open>
  C15. Closing releases a device and only that device. \<open>fgds_close\<close> of an open device returns 0,
  leaves the ring if there is one and closes the descriptor if it is positive, makes no other call, frees every node of
  the device's list, destroys both mutexes and unmarks the device; the registered buffers and marks of every other device are
  kept, and a second \<open>fgds_close\<close> does nothing.
\<close>

theorem close_releases:
  assumes "dev_inv s" and "valid_dev d" and "marked s d"
  shows "runs_to (fgds_close os d) s (\<lambda>r t. r = 0 \<and> dev_inv t \<and> \<not> marked t d \<and>
    (\<forall>p. p \<in> set (dev_ptrs s d) \<longrightarrow> node_heap t p = None) \<and> dev_ptrs t d = [] \<and> ctx_closed t d \<and>
    calls t = calls s @ close_calls (g_dev_ctx s (nat d)) d \<and>
    (\<forall>e. valid_dev e \<longrightarrow> e \<noteq> d \<longrightarrow> marked t e = marked s e \<and> reg_entries t e = reg_entries s e \<and>
      g_dev_ctx t (nat e) = g_dev_ctx s (nat e)) \<and>
    fgds_close os d t = Inr (0, t))"
proof (rule runs_to_mono [OF runs_to_fgds_close [OF assms]], elim conjE)
  fix r t
  assume r: "r = 0" and t: "t = shut s d (world t)"
  define w where "w = world t"
  have m: "\<not> marked t d" by (subst t) (simp add: shut_def marked_def)
  then have again: "fgds_close os d t = Inr (0, t)" using assms(2) by (simp add: run marked_def)
  note shut = shut_simps [OF assms(1,2)] shut_entries [OF assms(1,2)]
  have "dev_inv (shut s d w)" "dev_ptrs (shut s d w) d = []" "ctx_closed (shut s d w) d"
    using shut [of d w] assms(2) shut_ctx(1) by simp_all
  moreover have "\<forall>p. p \<in> set (dev_ptrs s d) \<longrightarrow> node_heap (shut s d w) p = None"
    "calls (shut s d w) = calls s @ close_calls (g_dev_ctx s (nat d)) d"
    by (simp_all add: shut_def closed_def restrict_map_def)
  moreover have "\<forall>e. valid_dev e \<longrightarrow> e \<noteq> d \<longrightarrow> marked (shut s d w) e = marked s e \<and>
      reg_entries (shut s d w) e = reg_entries s e \<and> g_dev_ctx (shut s d w) (nat e) = g_dev_ctx s (nat e)"
    using shut by auto
  ultimately show "r = 0 \<and> dev_inv t \<and> \<not> marked t d \<and>
    (\<forall>p. p \<in> set (dev_ptrs s d) \<longrightarrow> node_heap t p = None) \<and> dev_ptrs t d = [] \<and> ctx_closed t d \<and>
    calls t = calls s @ close_calls (g_dev_ctx s (nat d)) d \<and>
    (\<forall>e. valid_dev e \<longrightarrow> e \<noteq> d \<longrightarrow> marked t e = marked s e \<and> reg_entries t e = reg_entries s e \<and>
      g_dev_ctx t (nat e) = g_dev_ctx s (nat e)) \<and>
    fgds_close os d t = Inr (0, t)"
    using r m again t unfolding w_def by metis
qed

lemma two_gb_dev: "dev_inv two_gb_lib" "marked two_gb_lib 0"
proof -
  have "ctx_open two_gb_lib d" if "marked two_gb_lib d" for d
    using that by (auto simp: two_gb_lib_def lib_init_def marked_def ctx_open_def ctx_init_def split: if_splits)
  then show "dev_inv two_gb_lib" by (simp add: dev_inv_def two_gb_reg)
  show "marked two_gb_lib 0" by (simp add: two_gb_lib_def marked_def)
qed

theorem close_releases_witness:
  "runs_to (fgds_close sim_os 0) two_gb_lib (\<lambda>r t. r = 0 \<and> dev_inv t \<and> \<not> marked t 0 \<and>
    (\<forall>p. p \<in> set (dev_ptrs two_gb_lib 0) \<longrightarrow> node_heap t p = None) \<and> dev_ptrs t 0 = [] \<and> ctx_closed t 0 \<and>
    calls t = calls two_gb_lib @ close_calls (g_dev_ctx two_gb_lib (nat 0)) 0 \<and>
    (\<forall>e. valid_dev e \<longrightarrow> e \<noteq> 0 \<longrightarrow> marked t e = marked two_gb_lib e \<and> reg_entries t e = reg_entries two_gb_lib e \<and>
      g_dev_ctx t (nat e) = g_dev_ctx two_gb_lib (nat e)) \<and>
    fgds_close sim_os 0 t = Inr (0, t))"
  by (rule close_releases [OF two_gb_dev(1) _ two_gb_dev(2)]) simp

text \<open>
  C18. A failed open sticks. If the device file cannot be opened, \<open>fgds_open(d)\<close> returns -1 but
  marks the device all the same; every later \<open>fgds_open\<close>, of this or another device, then
  returns 0 without trying to open anything.
\<close>

theorem open_failure_sticks:
  assumes "valid_dev d" and "\<forall>e. valid_dev e \<longrightarrow> \<not> marked s e"
    and "fst (os_open os (fgds_dev_path ! nat d) (world s)) = -1"
  shows "runs_to (fgds_open os d) s (\<lambda>r t. r = -1 \<and> marked t d \<and> dev_fd (g_dev_ctx t (nat d)) = -1 \<and>
    (\<forall>e. fgds_open os e t = Inr (0, t)))"
proof -
  obtain w where o: "os_open os (fgds_dev_path ! nat d) (world s) = (-1, w)"
    using assms(3) by (metis prod.collapse)
  let ?t = "(open_failed s d (fgds_dev_path ! nat d) w)\<lparr>fgds_initialized := (fgds_initialized s)(nat d := True)\<rparr>"
  have none: "(\<exists>e. valid_dev e \<and> marked s e) = False" "marked s d = False" using assms(1,2) by blast+
  have init: "fgds_initialized (open_failed s d (fgds_dev_path ! nat d) w) = fgds_initialized s"
    by (simp add: open_failed_def)
  have m: "marked ?t d" by (simp add: marked_def)
  then have "(\<exists>e. valid_dev e \<and> marked ?t e) = True" using assms(1) by blast
  then have again: "fgds_open os e ?t = Inr (0, ?t)" for e
    using is_fgds_initialized_eq [of ?t "\<lambda>b u. b \<and> u = ?t"]
    by (auto simp: fgds_open_def run runs_to_def split: sum.splits)
  have "runs_to (fgds_open os d) s (\<lambda>r t. r = -1 \<and> t = ?t)"
    unfolding fgds_open_def runs_to_bnd is_fgds_initialized_eq none(1)
    using assms(1) none(2) o init by (simp add: marked_def runs_to_open_ctx)
  then show ?thesis
    by (rule runs_to_mono) (use m again in \<open>auto simp: open_failed_def\<close>)
qed

definition no_dev_os :: "sim_world os" where
  "no_dev_os = sim_os\<lparr>os_open := (\<lambda>_ w. (-1, w))\<rparr>"

theorem open_failure_sticks_witness:
  "runs_to (fgds_open no_dev_os 2) (lib_init sim_world_init) (\<lambda>r t. r = -1 \<and> marked t 2 \<and>
    dev_fd (g_dev_ctx t (nat 2)) = -1 \<and> (\<forall>e. fgds_open no_dev_os e t = Inr (0, t)))"
  by (rule open_failure_sticks) (simp_all add: lib_init_inv no_dev_os_def)

text \<open>An environment that opens the device file once and refuses the second time.\<close>

definition once_os :: "sim_world os" where
  "once_os = sim_os\<lparr>os_open := (\<lambda>_ w. if sim_va w = 0 then (-1, w) else (3, w\<lparr>sim_va := 0\<rparr>))\<rparr>"

text \<open>
  A failed reopen breaks the next close. The context's \<open>initialized\<close> flag survives
  \<open>fgds_close\<close>, so after open, close and a second open that fails, the device is marked with a
  flag left over from the first open, and the next \<open>fgds_close\<close> locks a destroyed mutex. 
\<close>

theorem failed_reopen_breaks_close:
  "sq (fgds_open once_os 0) (sq (fgds_close once_os 0) (sq (fgds_open once_os 0) (fgds_close once_os 0)))
     (lib_init sim_world_init) = Inl Bad_Mutex"
  by (simp add: run sys_defs lock_defs lib_init_def ctx_init_def once_os_def sim_os_def sim_world_init_def)

end
