(* ===== verification/Fgds_Regmem.thy ===== *)
theory Fgds_Regmem
  imports Fgds_Xfer Fgds_Device
begin

text \<open>
  Registration of GPU buffers: \<open>__fgds_regmem\<close>, \<open>fgds_regmem\<close>, \<open>__fgds_deregmem\<close> and
  \<open>fgds_deregmem\<close> of libfgds/fgds.cc. A buffer is mapped in pieces of at most 1 GB, each with
  one \<open>mmap\<close> of the device file and one \<open>ioctl\<close> that binds it to its part of the GPU range.

  The array \<open>vaddrs\<close> of a node under construction is the loop's accumulator; \<open>vaddrs_live\<close> counts
  the arrays allocated and not freed.
\<close>

section \<open>Operations\<close>

text \<open>The C cast of a \<open>size_t\<close> to \<open>int\<close>.\<close>

definition int_of_size :: "u64 \<Rightarrow> int" where
  "int_of_size n = sint (ucast n :: u32)"

definition map_param :: "fgds_mmap_buffer \<Rightarrow> u64 \<Rightarrow> u64 \<Rightarrow> u64 \<Rightarrow> fgds_ioctl_map_s" where
  "map_param b gaddr vaddr len = \<lparr>dev_id = of_int (device_id b), host_vaddr = vaddr, host_vaddr_size = len,
     map_gpu_addr = gaddr, gpu_addr_size = len\<rparr>"

definition fgds_regmem_ctx :: "'w os \<Rightarrow> int \<Rightarrow> u64 \<Rightarrow> u64 \<Rightarrow> u64 \<Rightarrow> ('w lib, int) prog" where
  "fgds_regmem_ctx os d gaddr vaddr len = bnd (dev_ctx d) (\<lambda>b.
     if \<not> initialized b then ret (-1)
     else sys_ioctl os (dev_fd b) FGDS_IOCTL_MAP (map_param b gaddr vaddr len))"

text \<open>The length of piece \<open>i\<close>, with \<open>i\<close> and the number of pieces read as \<open>int\<close>.\<close>

definition regmem_len :: "u64 \<Rightarrow> u64 \<Rightarrow> int \<Rightarrow> u64" where
  "regmem_len count left i = (if i = int_of_size count - 1 \<and> left \<noteq> 0 then left else FGDS_MMAP_SEGMENT_SIZE)"

text \<open>The cleanup loops: \<open>munmap\<close> of the entries \<open>j\<close> of the array, results ignored.\<close>

definition regmem_cleanup :: "'w os \<Rightarrow> u64 \<Rightarrow> u64 \<Rightarrow> u64 list \<Rightarrow> ('w lib, unit) prog" where
  "regmem_cleanup os count left vs = for_each [0..<length vs] (\<lambda>j.
     sq (sys_munmap os (vs ! j) (regmem_len count left (int j))) (ret ()))"

text \<open>
  The mapping loop over the indices \<open>is\<close>; \<open>mapped\<close> is \<open>mmaped_len\<close> and \<open>vs\<close> the entries written. It
  returns the array, or nothing when a step failed and the pieces were unmapped.
\<close>

fun regmem_loop :: "'w os \<Rightarrow> int \<Rightarrow> u64 \<Rightarrow> u64 \<Rightarrow> u64 \<Rightarrow> nat list \<Rightarrow> u64 \<Rightarrow> u64 list \<Rightarrow>
    ('w lib, u64 list option) prog" where
  "regmem_loop os d gaddr count left [] mapped vs = ret (Some vs)"
| "regmem_loop os d gaddr count left (i # is) mapped vs =
     bnd (dev_ctx d) (\<lambda>b.
     bnd (sys_mmap os (regmem_len count left (int i)) (dev_fd b)) (\<lambda>a. case a of
       None \<Rightarrow> sq (regmem_cleanup os count left vs) (ret None)
     | Some v \<Rightarrow>
         bnd (fgds_regmem_ctx os d (gaddr + mapped) v (regmem_len count left (int i))) (\<lambda>r.
         if r \<noteq> 0 then sq (regmem_cleanup os count left (vs @ [v])) (ret None)
         else regmem_loop os d gaddr count left is (mapped + regmem_len count left (int i)) (vs @ [v]))))"

definition free_vaddrs :: "('w lib, unit) prog" where
  "free_vaddrs = bnd (gets vaddrs_live) (\<lambda>k. sq (assert_or Double_Free (k \<noteq> 0))
     (modify (\<lambda>s. s\<lparr>vaddrs_live := k - 1\<rparr>)))"

text \<open>The result: the return value, and what is stored through \<open>target_addr\<close>.\<close>

definition fgds_regmem :: "'w os \<Rightarrow> int \<Rightarrow> u64 \<Rightarrow> u64 \<Rightarrow> ('w lib, int \<times> u64 option) prog" where
  "fgds_regmem os d gaddr len = bnd (malloc_node os) (\<lambda>node. case node of None \<Rightarrow> ret (-1, None) | Some p \<Rightarrow>
     sq (upd_ctx d (\<lambda>b. b\<lparr>device_id := d\<rparr>)) (
     if len mod FGDS_GPU_PAGE_SIZE \<noteq> 0 then sq (free_node p) (ret (- EFAULT, None))
     else
       let left = len mod FGDS_MMAP_SEGMENT_SIZE;
           count = (if left \<noteq> 0 then len div FGDS_MMAP_SEGMENT_SIZE + 1 else len div FGDS_MMAP_SEGMENT_SIZE) in
       bnd (malloc os (count * 8)) (\<lambda>ok.
       if \<not> ok then sq (free_node p) (ret (-1, None))
       else sq (modify (\<lambda>s. s\<lparr>vaddrs_live := Suc (vaddrs_live s)\<rparr>)) (
       bnd (regmem_loop os d gaddr count left [0..<nat (int_of_size count)] 0 []) (\<lambda>r. case r of
         None \<Rightarrow> sq free_vaddrs (sq (free_node p) (ret (- EFAULT, None)))
       | Some vs \<Rightarrow>
           sq (store_node p \<lparr>vaddrs = vs, mmap_count = count, gpu_addr = gaddr, node_length = len,
                 length_left = left, is_mapped = True, next_node = None\<rparr>) (
           sq (insert_fgds_mmap_node d (Some p)) (
           if vs = [] then fail Uninitialised else ret (0, Some (hd vs)))))))))"

definition fgds_deregmem_ctx :: "'w os \<Rightarrow> int \<Rightarrow> u64 \<Rightarrow> u64 \<Rightarrow> u64 \<Rightarrow> ('w lib, int) prog" where
  "fgds_deregmem_ctx os d gaddr vaddr len = bnd (dev_ctx d) (\<lambda>b.
     if \<not> initialized b then ret (-1)
     else sys_ioctl os (dev_fd b) FGDS_IOCTL_UNMAP (map_param b gaddr vaddr len))"

definition dereg_len :: "fgds_mmap_node \<Rightarrow> nat \<Rightarrow> u64" where
  "dereg_len n i = (if of_nat i = mmap_count n - 1 \<and> length_left n \<noteq> 0 then length_left n else FGDS_MMAP_SEGMENT_SIZE)"

fun dereg_loop :: "'w os \<Rightarrow> int \<Rightarrow> fgds_mmap_node \<Rightarrow> nat list \<Rightarrow> u64 \<Rightarrow> int \<Rightarrow> ('w lib, int) prog" where
  "dereg_loop os d n [] unmapped r = ret r"
| "dereg_loop os d n (i # is) unmapped r =
     sq (assert_or Uninitialised (i < length (vaddrs n))) (
     bnd (fgds_deregmem_ctx os d (gpu_addr n + unmapped) (vaddrs n ! i) (dereg_len n i)) (\<lambda>dr.
     bnd (sys_munmap os (vaddrs n ! i) (dereg_len n i)) (\<lambda>mr.
     dereg_loop os d n is (unmapped + dereg_len n i) (if mr \<noteq> 0 then -1 else if dr \<noteq> 0 then -1 else r))))"

definition fgds_deregmem :: "'w os \<Rightarrow> int \<Rightarrow> u64 \<Rightarrow> u64 \<Rightarrow> ('w lib, int) prog" where
  "fgds_deregmem os d gaddr len = bnd (find_fgds_mmap_node d gaddr len) (\<lambda>node. case node of None \<Rightarrow> ret (-1) | Some p \<Rightarrow>
     bnd (load_node p) (\<lambda>mn.
     if node_length mn \<noteq> len \<or> \<not> is_mapped mn then ret (-1)
     else bnd (delete_fgds_mmap_node d p) (\<lambda>r.
       if r \<noteq> 0 then ret (-1)
       else bnd (load_node p) (\<lambda>mn.
         bnd (dereg_loop os d mn [0..<unat (mmap_count mn)] 0 0) (\<lambda>r.
         sq (free_node p) (ret r))))))"

declare fgds_regmem_ctx_def [run] regmem_cleanup_def [run] free_vaddrs_def [run] fgds_regmem_def [run]
  fgds_deregmem_ctx_def [run] fgds_deregmem_def [run]

lemma runs_to_free_vaddrs [wp, simp]:
  "runs_to free_vaddrs s Q = (vaddrs_live s \<noteq> 0 \<and> Q () (s\<lparr>vaddrs_live := vaddrs_live s - 1\<rparr>))"
  by (simp add: free_vaddrs_def)

section \<open>Traces\<close>

text \<open>The mappings a sequence of calls made, and those it removed, in order.\<close>

definition maps_of :: "call list \<Rightarrow> (u64 \<times> u64) list" where
  "maps_of cs = concat (map (\<lambda>c. case c of C_mmap len f (Some a) \<Rightarrow> [(a, len)] | _ \<Rightarrow> []) cs)"

definition unmaps_of :: "call list \<Rightarrow> (u64 \<times> u64) list" where
  "unmaps_of cs = concat (map (\<lambda>c. case c of C_munmap a len r \<Rightarrow> [(a, len)] | _ \<Rightarrow> []) cs)"

lemma maps_of_simps [simp]:
  "maps_of [] = []" "maps_of (cs @ ds) = maps_of cs @ maps_of ds"
  "maps_of (C_mmap len f (Some a) # cs) = (a, len) # maps_of cs" "maps_of (C_mmap len f None # cs) = maps_of cs"
  "maps_of (C_munmap a len r # cs) = maps_of cs" "maps_of (C_ioctl f k p r # cs) = maps_of cs"
  by (simp_all add: maps_of_def)

lemma unmaps_of_simps [simp]:
  "unmaps_of [] = []" "unmaps_of (cs @ ds) = unmaps_of cs @ unmaps_of ds"
  "unmaps_of (C_mmap len f x # cs) = unmaps_of cs"
  "unmaps_of (C_munmap a len r # cs) = (a, len) # unmaps_of cs" "unmaps_of (C_ioctl f k p r # cs) = unmaps_of cs"
  by (simp_all add: unmaps_of_def)

text \<open>Only the world and the log have changed, the log by the calls \<open>c\<close>.\<close>

definition did :: "'w lib \<Rightarrow> call list \<Rightarrow> 'w lib \<Rightarrow> bool" where
  "did s c t \<longleftrightarrow> (\<exists>w. t = s\<lparr>world := w, calls := calls s @ c\<rparr>)"

lemma did_refl: "did s [] s"
  unfolding did_def by (rule exI [of _ "world s"]) simp

lemma did_trans: "did s c t \<Longrightarrow> did t c' u \<Longrightarrow> did s (c @ c') u"
  by (auto simp: did_def)

lemma did_step: "did (s\<lparr>world := w, calls := calls s @ c\<rparr>) c' u \<Longrightarrow> did s (c @ c') u"
  by (auto simp: did_def)

lemma did_call: "did s c (s\<lparr>world := w, calls := calls s @ c\<rparr>)"
  by (auto simp: did_def)

lemma did_same:
  assumes "did s c t"
  shows "g_dev_ctx t = g_dev_ctx s" "node_heap t = node_heap s" "next_ptr t = next_ptr s"
    "vaddrs_live t = vaddrs_live s" "xfer_live t = xfer_live s" "fgds_initialized t = fgds_initialized s"
    "calls t = calls s @ c" "reg_inv t = reg_inv s" "dev_ptrs t = dev_ptrs s" "reg_entries t = reg_entries s"
  using assms by (auto simp: did_def fun_eq_iff)

section \<open>The mapping loop\<close>

text \<open>The pieces with addresses \<open>vs\<close> and their lengths.\<close>

definition reg_pieces :: "u64 \<Rightarrow> u64 \<Rightarrow> u64 list \<Rightarrow> (u64 \<times> u64) list" where
  "reg_pieces count left vs = map (\<lambda>j. (vs ! j, regmem_len count left (int j))) [0..<length vs]"

lemma reg_pieces_snoc: "reg_pieces count left (vs @ [v]) = reg_pieces count left vs @ [(v, regmem_len count left (int (length vs)))]"
  by (auto simp: reg_pieces_def nth_append)

lemma cleanup_spec:
  "runs_to (regmem_cleanup os count left vs) s
     (\<lambda>_ t. \<exists>c. did s c t \<and> maps_of c = [] \<and> unmaps_of c = reg_pieces count left vs)"
  unfolding regmem_cleanup_def reg_pieces_def
proof (rule runs_to_for_each [where I = "\<lambda>js t. \<exists>c. did s c t \<and> maps_of c = [] \<and>
    unmaps_of c = map (\<lambda>j. (vs ! j, regmem_len count left (int j))) js"])
  show "\<exists>c. did s c s \<and> maps_of c = [] \<and> unmaps_of c = map (\<lambda>j. (vs ! j, regmem_len count left (int j))) []"
    using did_refl [of s] by (intro exI [of _ "[]"]) simp
next
  fix pre j rest t
  assume "\<exists>c. did s c t \<and> maps_of c = [] \<and> unmaps_of c = map (\<lambda>j. (vs ! j, regmem_len count left (int j))) pre"
  then obtain c where c: "did s c t" "maps_of c = []" "unmaps_of c = map (\<lambda>j. (vs ! j, regmem_len count left (int j))) pre"
    by blast
  obtain r w where m: "os_munmap os (vs ! j) (regmem_len count left (int j)) (world t) = (r, w)" by fastforce
  let ?c = "c @ [C_munmap (vs ! j) (regmem_len count left (int j)) r]"
  have "did s ?c (t\<lparr>world := w, calls := calls t @ [C_munmap (vs ! j) (regmem_len count left (int j)) r]\<rparr>)"
    by (rule did_trans [OF c(1) did_call])
  then show "runs_to (sq (sys_munmap os (vs ! j) (regmem_len count left (int j))) (ret ())) t
      (\<lambda>_ t. \<exists>c. did s c t \<and> maps_of c = [] \<and> unmaps_of c = map (\<lambda>j. (vs ! j, regmem_len count left (int j))) (pre @ [j]))"
    using m c by (auto simp: sys_defs intro!: exI [of _ ?c])
qed

text \<open>The calls that map and bind piece \<open>j\<close> at host address \<open>v\<close>.\<close>

definition piece_calls :: "fgds_mmap_buffer \<Rightarrow> u64 \<Rightarrow> u64 \<Rightarrow> nat \<Rightarrow> u64 \<Rightarrow> call list" where
  "piece_calls b gaddr len j v = [C_mmap len (dev_fd b) (Some v),
     C_ioctl (dev_fd b) FGDS_IOCTL_MAP (map_param b (gaddr + of_nat (j * seg_size)) v len) 0]"

text \<open>What the mapping loop has done after returning \<open>r\<close> with the calls \<open>c\<close>, started with the addresses \<open>vs\<close>.\<close>

definition loop_post :: "fgds_mmap_buffer \<Rightarrow> u64 \<Rightarrow> u64 \<Rightarrow> u64 \<Rightarrow> nat \<Rightarrow> u64 list \<Rightarrow> u64 list option \<Rightarrow> call list \<Rightarrow> bool" where
  "loop_post b gaddr count left n vs r c = (case r of
     Some vs' \<Rightarrow> length vs' = n \<and> take (length vs) vs' = vs \<and>
       c = concat (map (\<lambda>j. piece_calls b gaddr (regmem_len count left (int j)) j (vs' ! j)) [length vs..<n])
   | None \<Rightarrow> reg_pieces count left vs @ maps_of c = unmaps_of c)"

lemma loop_post_step:
  assumes "loop_post b gaddr count left n (vs @ [v]) r c" and "length vs < n"
  shows "loop_post b gaddr count left n vs r (piece_calls b gaddr (regmem_len count left (int (length vs))) (length vs) v @ c)"
proof (cases r)
  case None
  then show ?thesis using assms by (simp add: loop_post_def piece_calls_def reg_pieces_snoc)
next
  case (Some vs')
  then have vs': "length vs' = n" "take (Suc (length vs)) vs' = vs @ [v]"
    and c: "c = concat (map (\<lambda>j. piece_calls b gaddr (regmem_len count left (int j)) j (vs' ! j)) [Suc (length vs)..<n])"
    using assms by (auto simp: loop_post_def)
  have "take (length vs) vs' @ [vs' ! length vs] = vs @ [v]"
    using vs' assms(2) by (simp add: take_Suc_conv_app_nth)
  then have "take (length vs) vs' = vs" "vs' ! length vs = v" by simp_all
  then show ?thesis using Some vs' c assms(2) by (simp add: loop_post_def upt_conv_Cons)
qed

lemma regmem_loop_spec:
  assumes "valid_dev d" and "initialized (g_dev_ctx s (nat d))" and "length vs \<le> n"
    and "n = nat (int_of_size count)" and "length vs < n \<longrightarrow> m = of_nat (length vs * seg_size)"
  shows "runs_to (regmem_loop os d gaddr count left [length vs..<n] m vs) s
    (\<lambda>r t. \<exists>c. did s c t \<and> loop_post (g_dev_ctx s (nat d)) gaddr count left n vs r c)"
  using assms
proof (induction "n - length vs" arbitrary: vs m s)
  case 0
  then show ?case using did_refl [of s] by (auto simp: loop_post_def intro!: exI [of _ "[]"])
next
  case (Suc k)
  let ?b = "g_dev_ctx s (nat d)" and ?i = "length vs"
  let ?L = "regmem_len count left (int ?i)"
  have i: "?i < n" using Suc by simp
  obtain a w where mm: "os_mmap os ?L (dev_fd ?b) (world s) = (a, w)" by fastforce
  have upt: "[?i..<n] = ?i # [Suc ?i..<n]" using i by (rule upt_conv_Cons)
  have mm': "m = of_nat (?i * seg_size)" using Suc.prems i by simp
  show ?case
  proof (cases a)
    case None
    let ?s = "s\<lparr>world := w, calls := calls s @ [C_mmap ?L (dev_fd ?b) None]\<rparr>"
    have "runs_to (regmem_cleanup os count left vs) ?s (\<lambda>_ t. \<exists>c. did s c t \<and> loop_post ?b gaddr count left n vs None c)"
      by (rule runs_to_mono [OF cleanup_spec]) (auto dest!: did_step simp: loop_post_def)
    then show ?thesis unfolding upt using None mm Suc.prems(1) by (simp add: sys_defs)
  next
    case (Some v)
    let ?p = "map_param ?b (gaddr + m) v ?L"
    obtain r w' where io: "os_ioctl os (dev_fd ?b) FGDS_IOCTL_MAP ?p w = (r, w')" by fastforce
    let ?c = "[C_mmap ?L (dev_fd ?b) (Some v), C_ioctl (dev_fd ?b) FGDS_IOCTL_MAP ?p r]"
    let ?s = "s\<lparr>world := w', calls := calls s @ ?c\<rparr>"
    have body: "runs_to (if r \<noteq> 0 then sq (regmem_cleanup os count left (vs @ [v])) (ret None)
         else regmem_loop os d gaddr count left [Suc ?i..<n] (m + ?L) (vs @ [v])) ?s
      (\<lambda>r t. \<exists>c. did s c t \<and> loop_post ?b gaddr count left n vs r c)"
    proof (cases "r = 0")
      case False
      have "runs_to (regmem_cleanup os count left (vs @ [v])) ?s
          (\<lambda>_ t. \<exists>c. did s c t \<and> loop_post ?b gaddr count left n vs None c)"
        by (rule runs_to_mono [OF cleanup_spec]) (auto dest!: did_step simp: loop_post_def reg_pieces_snoc)
      then show ?thesis using False by simp
    next
      case True
      have "?L = FGDS_MMAP_SEGMENT_SIZE" if "Suc ?i < n"
        using that Suc.prems(4) by (auto simp: regmem_len_def)
      then have "runs_to (regmem_loop os d gaddr count left [length (vs @ [v])..<n] (m + ?L) (vs @ [v])) ?s
          (\<lambda>r t. \<exists>c. did ?s c t \<and> loop_post (g_dev_ctx ?s (nat d)) gaddr count left n (vs @ [v]) r c)"
        using Suc mm' i by (intro Suc.hyps(1)) (auto simp: algebra_simps)
      then have "runs_to (regmem_loop os d gaddr count left [length (vs @ [v])..<n] (m + ?L) (vs @ [v])) ?s
          (\<lambda>r t. \<exists>c. did s c t \<and> loop_post ?b gaddr count left n vs r c)"
      proof (rule runs_to_mono, elim exE conjE)
        fix r' t c
        assume c: "did ?s c t" "loop_post (g_dev_ctx ?s (nat d)) gaddr count left n (vs @ [v]) r' c"
        have "?c = piece_calls ?b gaddr ?L ?i v" using True mm' by (simp add: piece_calls_def)
        then show "\<exists>c. did s c t \<and> loop_post ?b gaddr count left n vs r' c"
          using did_step [OF c(1)] loop_post_step [of ?b gaddr count left n vs v r' c] c(2) i by auto
      qed
      then show ?thesis using True by simp
    qed
    have "calls s @ ?c = (calls s @ [C_mmap ?L (dev_fd ?b) (Some v)]) @ [C_ioctl (dev_fd ?b) FGDS_IOCTL_MAP ?p r]" by simp
    then show ?thesis unfolding upt using Some mm io Suc.prems(1,2) body
      by (simp add: sys_defs fgds_regmem_ctx_def)
  qed
qed

lemma reg_rest_ctx:
  assumes "reg_rest t = reg_rest s"
  shows "calls t = calls s" "vaddrs_live t = vaddrs_live s" "xfer_live t = xfer_live s" "next_ptr t = next_ptr s"
    "dev_fd (g_dev_ctx t k) = dev_fd (g_dev_ctx s k)" "device_id (g_dev_ctx t k) = device_id (g_dev_ctx s k)"
    "initialized (g_dev_ctx t k) = initialized (g_dev_ctx s k)"
proof -
  have "(g_dev_ctx t k)\<lparr>head := None, lock := Unlocked\<rparr> = (g_dev_ctx s k)\<lparr>head := None, lock := Unlocked\<rparr>"
    using arg_cong [OF assms, of "\<lambda>u. g_dev_ctx u k"] by (simp add: reg_rest_def)
  from arg_cong [OF this, of dev_fd] arg_cong [OF this, of device_id] arg_cong [OF this, of initialized]
  show "dev_fd (g_dev_ctx t k) = dev_fd (g_dev_ctx s k)" "device_id (g_dev_ctx t k) = device_id (g_dev_ctx s k)"
    "initialized (g_dev_ctx t k) = initialized (g_dev_ctx s k)" by simp_all
  from arg_cong [OF assms, of calls] arg_cong [OF assms, of vaddrs_live] arg_cong [OF assms, of xfer_live]
    arg_cong [OF assms, of next_ptr]
  show "calls t = calls s" "vaddrs_live t = vaddrs_live s" "xfer_live t = xfer_live s" "next_ptr t = next_ptr s"
    by (simp_all add: reg_rest_def)
qed

section \<open>Registration\<close>

definition seg_count :: "u64 \<Rightarrow> u64" where
  "seg_count len = (if len mod FGDS_MMAP_SEGMENT_SIZE \<noteq> 0 then len div FGDS_MMAP_SEGMENT_SIZE + 1
     else len div FGDS_MMAP_SEGMENT_SIZE)"

definition reg_node :: "u64 \<Rightarrow> u64 \<Rightarrow> u64 list \<Rightarrow> fgds_mmap_node" where
  "reg_node gaddr len vs = \<lparr>vaddrs = vs, mmap_count = seg_count len, gpu_addr = gaddr, node_length = len,
     length_left = len mod FGDS_MMAP_SEGMENT_SIZE, is_mapped = True, next_node = None\<rparr>"

lemma seg_count_unat:
  "unat (seg_count len) = (unat len + seg_size - 1) div seg_size"
proof -
  define L where "L = unat len"
  have L: "L < 18446744073709551616" by (simp add: L_def)
  have z: "len mod FGDS_MMAP_SEGMENT_SIZE = 0 \<longleftrightarrow> L mod seg_size = 0"
    by (simp add: word_unat_eq_iff unat_mod L_def)
  have d: "unat (len div FGDS_MMAP_SEGMENT_SIZE) = L div seg_size" by (simp add: unat_div L_def)
  have lt: "L div seg_size < 17179869184" using L by (simp add: div_less_iff_less_mult)
  have "unat (seg_count len) = (if L mod seg_size \<noteq> 0 then L div seg_size + 1 else L div seg_size)"
    unfolding seg_count_def z
    using d lt unat_add_no_wrap [of "len div FGDS_MMAP_SEGMENT_SIZE" 1] by auto
  also have "\<dots> = (L + seg_size - 1) div seg_size"
  proof -
    obtain q r where qr: "L = q * seg_size + r" "r < seg_size" using mod_less_divisor [of seg_size L] div_mult_mod_eq [of L seg_size]
      by (metis zero_less_numeral)
    have "(L + seg_size - 1) div seg_size = q + (if r = 0 then 0 else 1)"
    proof (cases "r = 0")
      case True
      have "L + seg_size - 1 = q * seg_size + (seg_size - 1)" using qr True by simp
      then show ?thesis using True by simp
    next
      case False
      have "L + seg_size - 1 = Suc q * seg_size + (r - 1)" using qr False by simp
      then have "(L + seg_size - 1) div seg_size = Suc q + (r - 1) div seg_size" by (simp only: div_mult_self3 zero_less_numeral div_mult_self4)
      then show ?thesis using qr False by simp
    qed
    then show ?thesis using qr by auto
  qed
  finally show ?thesis by (simp add: L_def)
qed

text \<open>
  The longest buffer whose piece count is a positive \<open>int\<close>: \<open>2 ^ 31 - 1\<close> pieces.
\<close>

definition reg_size_ok :: "u64 \<Rightarrow> bool" where
  "reg_size_ok len \<longleftrightarrow> len mod FGDS_GPU_PAGE_SIZE = 0 \<and> 0 < len \<and> len \<le> 2147483647 * FGDS_MMAP_SEGMENT_SIZE"

lemma reg_size_unat: "reg_size_ok len \<Longrightarrow> 0 < unat len \<and> unat len \<le> 2305843008139952128"
  by (simp add: reg_size_ok_def word_less_nat_alt word_le_nat_alt)

lemma seg_count_bounds:
  assumes "reg_size_ok len"
  shows "0 < unat (seg_count len)" and "unat (seg_count len) < 2147483648"
    and "int_of_size (seg_count len) = int (unat (seg_count len))"
proof -
  note L = reg_size_unat [OF assms]
  show "0 < unat (seg_count len)" unfolding seg_count_unat using L by (simp add: div_greater_zero_iff)
  show lt: "unat (seg_count len) < 2147483648" unfolding seg_count_unat using L by (simp add: div_less_iff_less_mult)
  have "unat (ucast (seg_count len) :: u32) = unat (seg_count len)" using lt by (simp add: unat_ucast_u32)
  then show "int_of_size (seg_count len) = int (unat (seg_count len))"
    unfolding int_of_size_def using lt by (simp add: sint_u32)
qed

lemma regmem_len_piece:
  assumes "reg_size_ok len" and "j < unat (seg_count len)"
  shows "regmem_len (seg_count len) (len mod FGDS_MMAP_SEGMENT_SIZE) (int j) =
    of_nat (min seg_size (unat len - j * seg_size))"
proof -
  define L where "L = unat len"
  define n where "n = unat (seg_count len)"
  have n: "n = (L + seg_size - 1) div seg_size" unfolding n_def L_def by (rule seg_count_unat)
  have L: "0 < L" using reg_size_unat [OF assms(1)] by (simp add: L_def)
  have left: "len mod FGDS_MMAP_SEGMENT_SIZE = of_nat (L mod seg_size)"
    using of_nat_mod_u64 [of L seg_size] by (simp add: L_def)
  have z: "len mod FGDS_MMAP_SEGMENT_SIZE = 0 \<longleftrightarrow> L mod seg_size = 0"
    by (simp add: word_unat_eq_iff unat_mod L_def)
  have last: "(int j = int n - 1) = (Suc j = n)" by auto
  have "regmem_len (seg_count len) (len mod FGDS_MMAP_SEGMENT_SIZE) (int j) =
      of_nat (if Suc j = n \<and> L mod seg_size \<noteq> 0 then L mod seg_size else seg_size)"
    unfolding regmem_len_def seg_count_bounds(3) [OF assms(1)] n_def [symmetric] last z by (simp add: left)
  then show ?thesis using piece_min [OF L n] assms(2) by (simp add: L_def n_def)
qed

text \<open>The calls that register a buffer: for each piece its \<open>mmap\<close> and its \<open>ioctl\<close>.\<close>

definition reg_calls :: "fgds_mmap_buffer \<Rightarrow> fgds_mmap_node \<Rightarrow> call list" where
  "reg_calls b nd = concat (map (\<lambda>j. piece_calls b (gpu_addr nd) (of_nat (piece_len nd j)) j (vaddrs nd ! j))
     [0..<length (vaddrs nd)])"

lemma reg_node_wf:
  assumes "reg_size_ok len" and "length vs = unat (seg_count len)" and "unat gaddr + unat len < 2 ^ 64"
  shows "node_wf (reg_node gaddr len vs)"
  using assms reg_size_unat [OF assms(1)] seg_count_unat [of len] by (simp add: node_wf_def reg_node_def)

lemma loop_post_Some:
  assumes "loop_post b gaddr (seg_count len) (len mod FGDS_MMAP_SEGMENT_SIZE) n [] (Some vs) c"
    and "reg_size_ok len" and "n = unat (seg_count len)"
  shows "length vs = n" and "c = reg_calls b (reg_node gaddr len vs)"
proof -
  show l: "length vs = n" using assms(1) by (simp add: loop_post_def)
  have "c = concat (map (\<lambda>j. piece_calls b gaddr (regmem_len (seg_count len) (len mod FGDS_MMAP_SEGMENT_SIZE) (int j)) j (vs ! j)) [0..<n])"
    using assms(1) by (simp add: loop_post_def)
  also have "\<dots> = reg_calls b (reg_node gaddr len vs)"
    unfolding reg_calls_def using assms(2,3) l
    by (intro arg_cong [where f = concat] map_cong) (auto simp: reg_node_def piece_len_def regmem_len_piece)
  finally show "c = reg_calls b (reg_node gaddr len vs)" .
qed

text \<open>
  The two outcomes of a registration. After success the new buffer is the first entry of its
  device; after failure the registry, the store and the counters are as they were, and every
  mapping made was removed.
\<close>

definition reg_done :: "'w lib \<Rightarrow> int \<Rightarrow> u64 \<Rightarrow> u64 \<Rightarrow> u64 list \<Rightarrow> 'w lib \<Rightarrow> bool" where
  "reg_done s d gaddr len vs t \<longleftrightarrow> reg_inv t \<and> reg_ready t d \<and> length vs = unat (seg_count len) \<and>
     reg_entries t d = (next_ptr s, reg_node gaddr len vs) # reg_entries s d \<and>
     (\<forall>e. valid_dev e \<longrightarrow> e \<noteq> d \<longrightarrow> reg_entries t e = reg_entries s e) \<and>
     vaddrs_live t = Suc (vaddrs_live s) \<and>
     (\<forall>k. dev_fd (g_dev_ctx t k) = dev_fd (g_dev_ctx s k) \<and> initialized (g_dev_ctx t k) = initialized (g_dev_ctx s k)) \<and>
     calls t = calls s @ reg_calls ((g_dev_ctx s (nat d))\<lparr>device_id := d\<rparr>) (reg_node gaddr len vs)"

definition reg_undone :: "'w lib \<Rightarrow> int \<Rightarrow> 'w lib \<Rightarrow> bool" where
  "reg_undone s d t \<longleftrightarrow> reg_inv t \<and> (\<forall>e. valid_dev e \<longrightarrow> reg_entries t e = reg_entries s e) \<and>
     node_heap t = node_heap s \<and> vaddrs_live t = vaddrs_live s \<and>
     (\<forall>e. (g_dev_ctx t e)\<lparr>device_id := 0\<rparr> = (g_dev_ctx s e)\<lparr>device_id := 0\<rparr>) \<and>
     (\<exists>c. calls t = calls s @ c \<and> maps_of c = unmaps_of c)"

lemma regmem_insert:
  assumes "reg_inv s" and "reg_ready s d"
    and u: "u = s\<lparr>node_heap := (node_heap s)(next_ptr s \<mapsto> reg_node gaddr len vs), next_ptr := Suc (next_ptr s),
      g_dev_ctx := (g_dev_ctx s)(nat d := (g_dev_ctx s (nat d))\<lparr>device_id := d\<rparr>),
      vaddrs_live := Suc (vaddrs_live s), world := w,
      calls := calls s @ reg_calls ((g_dev_ctx s (nat d))\<lparr>device_id := d\<rparr>) (reg_node gaddr len vs)\<rparr>"
    and "length vs = unat (seg_count len)"
  shows "runs_to (insert_fgds_mmap_node d (Some (next_ptr s))) u (\<lambda>r t. reg_done s d gaddr len vs t)"
proof -
  let ?n = "reg_node gaddr len vs"
  have d: "valid_dev d" using assms(2) by (simp add: reg_ready_def)
  define v where "v = s\<lparr>node_heap := (node_heap s)(next_ptr s \<mapsto> ?n), next_ptr := Suc (next_ptr s)\<rparr>"
  note al = alloc_reg [OF assms(1), of _ "Some ?n", folded v_def]
  have frame: "reg_inv u = reg_inv v" "dev_ptrs u e = dev_ptrs v e" "reg_entries u e = reg_entries v e" for e
    by (simp_all add: u v_def)
  have pay: "payload ?n = ?n" by (simp add: payload_def reg_node_def)
  have loose: "loose_node u (next_ptr s) ?n"
    using al(4) [OF d refl] pay frame(3) by (simp add: loose_node_def holds_node_def u v_def)
  have ready: "reg_ready u e = reg_ready s e" for e by (auto simp: u reg_ready_def)
  have "runs_to (insert_fgds_mmap_node d (Some (next_ptr s))) u (\<lambda>r t. r = 0 \<and> reg_inv t \<and> reg_ready t d \<and>
      reg_rest t = reg_rest u \<and> (\<forall>q m. holds_node u q m \<longrightarrow> holds_node t q m) \<and>
      reg_entries t d = (next_ptr s, ?n) # reg_entries u d \<and>
      (\<forall>e. valid_dev e \<longrightarrow> e \<noteq> d \<longrightarrow> reg_entries t e = reg_entries u e))"
    by (rule reg.insert_law) (use al(1) [OF d] frame ready assms(2) loose in \<open>simp_all add: loose_node_def\<close>)
  then show ?thesis
  proof (rule runs_to_mono, elim conjE)
    fix r t
    assume t: "reg_inv t" "reg_ready t d" "reg_rest t = reg_rest u" "reg_entries t d = (next_ptr s, ?n) # reg_entries u d"
      "\<forall>e. valid_dev e \<longrightarrow> e \<noteq> d \<longrightarrow> reg_entries t e = reg_entries u e"
    note reg_rest_ctx [OF t(3)]
    moreover have "reg_entries u e = reg_entries s e" if "valid_dev e" for e
      using al(3) [OF that] frame(3) by simp
    ultimately show "reg_done s d gaddr len vs t"
      using t assms(4) d ready by (auto simp: reg_done_def u reg_ready_def)
  qed
qed

lemma regmem_cancel:
  assumes "reg_inv s" and "valid_dev d"
    and "node_heap t = node_heap s" and "next_ptr t = Suc (next_ptr s)" and "vaddrs_live t = vaddrs_live s"
    and "\<And>e. (g_dev_ctx t e)\<lparr>device_id := 0\<rparr> = (g_dev_ctx s e)\<lparr>device_id := 0\<rparr>"
    and "calls t = calls s @ c" and "maps_of c = unmaps_of c"
  shows "reg_undone s d t"
proof -
  let ?v = "s\<lparr>node_heap := (node_heap s)(next_ptr s := None), next_ptr := Suc (next_ptr s)\<rparr>"
  note al = alloc_reg [OF assms(1), of _ None]
  have heap: "node_heap t = node_heap ?v"
    using assms(3) fresh_ptr [OF assms(1)] by (auto simp: fun_eq_iff)
  have hd: "head (g_dev_ctx t e) = head (g_dev_ctx ?v e)" for e
    using arg_cong [OF assms(6), of head] by simp
  note cong = reg_inv_cong [of t ?v, OF heap _ hd]
  have "reg_inv t" using cong(1) al(1) [OF assms(2)] assms(4) by simp
  moreover have "reg_entries t e = reg_entries s e" if "valid_dev e" for e
    using cong(2) [of e] al(3) [OF that] heap assms(4) that by (simp add: reg_entries_def)
  ultimately show ?thesis using assms by (auto simp: reg_undone_def)
qed

definition reg_outcome :: "'w lib \<Rightarrow> int \<Rightarrow> u64 \<Rightarrow> u64 \<Rightarrow> int \<times> u64 option \<Rightarrow> 'w lib \<Rightarrow> bool" where
  "reg_outcome s d gaddr len r t \<longleftrightarrow>
     (\<exists>vs. r = (0, Some (hd vs)) \<and> vs \<noteq> [] \<and> reg_done s d gaddr len vs t) \<or>
     (r = (-1, None) \<or> r = (- EFAULT, None)) \<and> reg_undone s d t"

lemma regmem_map_phase:
  assumes "reg_inv s" and "reg_ready s d" and "initialized (g_dev_ctx s (nat d))" and "reg_size_ok len"
    and u: "u = s\<lparr>node_heap := (node_heap s)(next_ptr s \<mapsto> blank_node), next_ptr := Suc (next_ptr s),
      g_dev_ctx := (g_dev_ctx s)(nat d := (g_dev_ctx s (nat d))\<lparr>device_id := d\<rparr>),
      world := w, vaddrs_live := Suc (vaddrs_live s)\<rparr>"
  shows "runs_to (regmem_loop os d gaddr (seg_count len) (len mod FGDS_MMAP_SEGMENT_SIZE)
      [0..<nat (int_of_size (seg_count len))] 0 []) u (\<lambda>r t. runs_to (case r of
        None \<Rightarrow> sq free_vaddrs (sq (free_node (next_ptr s)) (ret (- EFAULT, None)))
      | Some vs \<Rightarrow> sq (store_node (next_ptr s) (reg_node gaddr len vs)) (
           sq (insert_fgds_mmap_node d (Some (next_ptr s))) (
           if vs = [] then fail Uninitialised else ret (0, Some (hd vs))))) t (reg_outcome s d gaddr len))"
proof -
  let ?b = "(g_dev_ctx s (nat d))\<lparr>device_id := d\<rparr>"
  define n where "n = unat (seg_count len)"
  have d: "valid_dev d" using assms(2) by (simp add: reg_ready_def)
  have ctx: "g_dev_ctx u (nat d) = ?b" "initialized (g_dev_ctx u (nat d))" using assms(3) by (simp_all add: u)
  have n: "n = nat (int_of_size (seg_count len))" "0 < n" using seg_count_bounds [OF assms(4)] by (simp_all add: n_def)
  have "runs_to (regmem_loop os d gaddr (seg_count len) (len mod FGDS_MMAP_SEGMENT_SIZE) [length ([] :: u64 list)..<n] 0 []) u
    (\<lambda>r t. \<exists>c. did u c t \<and> loop_post (g_dev_ctx u (nat d)) gaddr (seg_count len) (len mod FGDS_MMAP_SEGMENT_SIZE) n [] r c)"
    by (rule regmem_loop_spec [OF d ctx(2)]) (simp_all add: n)
  then show ?thesis unfolding ctx(1) n(1) [symmetric] list.size
  proof (rule runs_to_mono, elim exE conjE)
    fix r t c
    assume did: "did u c t" and post: "loop_post ?b gaddr (seg_count len) (len mod FGDS_MMAP_SEGMENT_SIZE) n [] r c"
    obtain w' where t: "t = u\<lparr>world := w', calls := calls u @ c\<rparr>" using did by (auto simp: did_def)
    show "runs_to (case r of
        None \<Rightarrow> sq free_vaddrs (sq (free_node (next_ptr s)) (ret (- EFAULT, None)))
      | Some vs \<Rightarrow> sq (store_node (next_ptr s) (reg_node gaddr len vs)) (
           sq (insert_fgds_mmap_node d (Some (next_ptr s))) (
           if vs = [] then fail Uninitialised else ret (0, Some (hd vs))))) t (reg_outcome s d gaddr len)"
    proof (cases r)
      case None
      let ?t = "t\<lparr>vaddrs_live := vaddrs_live s, node_heap := (node_heap t)(next_ptr s := None)\<rparr>"
      have "maps_of c = unmaps_of c" using post None by (simp add: loop_post_def reg_pieces_def)
      then have "reg_undone s d ?t"
        using fresh_ptr [OF assms(1)] by (intro regmem_cancel [OF assms(1) d]) (auto simp: t u fun_eq_iff)
      then show ?thesis using None by (simp add: t u reg_outcome_def)
    next
      case (Some vs)
      note vs = loop_post_Some [OF post [unfolded Some] assms(4) n_def]
      then have ne: "vs \<noteq> []" using n by auto
      have len: "length vs = unat (seg_count len)" using vs(1) by (simp add: n_def)
      let ?t = "t\<lparr>node_heap := (node_heap t)(next_ptr s \<mapsto> reg_node gaddr len vs)\<rparr>"
      have "runs_to (insert_fgds_mmap_node d (Some (next_ptr s))) ?t (\<lambda>r. reg_done s d gaddr len vs)"
        by (rule regmem_insert [where w = w', OF assms(1,2) _ len]) (simp add: t u vs(2))
      then have "runs_to (insert_fgds_mmap_node d (Some (next_ptr s))) ?t (\<lambda>r t. reg_outcome s d gaddr len (0, Some (hd vs)) t)"
        by (rule runs_to_mono) (use ne in \<open>auto simp: reg_outcome_def\<close>)
      moreover have "node_heap t (next_ptr s) \<noteq> None" by (simp add: t u)
      ultimately show ?thesis using Some ne by simp
    qed
  qed
qed

lemma regmem_spec:
  assumes "reg_inv s" and "reg_ready s d" and "initialized (g_dev_ctx s (nat d))" and "reg_size_ok len"
  shows "runs_to (fgds_regmem os d gaddr len) s (reg_outcome s d gaddr len)"
proof -
  have d: "valid_dev d" using assms(2) by (simp add: reg_ready_def)
  obtain ok w where m: "os_malloc os 56 (world s) = (ok, w)" by fastforce
  obtain ok2 w2 where m2: "os_malloc os (seg_count len * 8) w = (ok2, w2)" by fastforce
  note phase = regmem_map_phase [OF assms refl, of os gaddr w2, unfolded reg_node_def]
  have page: "len mod FGDS_GPU_PAGE_SIZE = 0" using assms(4) by (simp add: reg_size_ok_def)
  have undo1: "reg_undone s d (s\<lparr>world := w\<rparr>)"
    using assms(1) by (auto simp: reg_undone_def intro!: exI [of _ "[]"])
  have undo2: "reg_undone s d (s\<lparr>next_ptr := Suc (next_ptr s), g_dev_ctx := (g_dev_ctx s)(nat d := (g_dev_ctx s (nat d))\<lparr>device_id := d\<rparr>),
      world := w2, node_heap := (node_heap s)(next_ptr s := None)\<rparr>)"
    using fresh_ptr [OF assms(1)] by (intro regmem_cancel [OF assms(1) d, where c = "[]"]) (auto simp: fun_eq_iff)
  show ?thesis
    unfolding fgds_regmem_def seg_count_def [symmetric] Let_def
    using m m2 d page phase undo1 undo2
    by (simp add: malloc_node_def malloc_def reg_outcome_def)
qed

section \<open>Deregistration\<close>

lemma dereg_len_piece:
  assumes "node_wf nd" and "j < unat (mmap_count nd)"
  shows "dereg_len nd j = of_nat (piece_len nd j)"
proof -
  define L n where "L = unat (node_length nd)" and "n = unat (mmap_count nd)"
  have n: "n = (L + seg_size - 1) div seg_size" using assms(1) by (simp add: node_wf_def n_def L_def)
  have L: "0 < L" using assms(2) n by (cases L) (simp_all add: n_def)
  have left: "length_left nd = of_nat (L mod seg_size)"
    using assms(1) of_nat_mod_u64 [of L seg_size] by (simp add: node_wf_def L_def)
  have z: "length_left nd = 0 \<longleftrightarrow> L mod seg_size = 0"
    using assms(1) by (simp add: node_wf_def word_unat_eq_iff unat_mod L_def)
  have j: "unat (of_nat j :: u64) = j"
    by (rule unat_of_nat_u64) (rule less_trans [OF assms(2) unat_u64_less])
  have pos: "0 < n" using assms(2) by (simp add: n_def)
  have "unat (mmap_count nd - 1) = n - 1" using pos by (simp add: n_def unat_sub word_le_nat_alt)
  then have last: "(of_nat j = mmap_count nd - 1) = (Suc j = n)" using j pos by (auto simp: word_unat_eq_iff)
  have "dereg_len nd j = of_nat (if Suc j = n \<and> L mod seg_size \<noteq> 0 then L mod seg_size else seg_size)"
    unfolding dereg_len_def last z by (simp add: left)
  then show ?thesis using piece_min [OF L n] assms(2) by (simp add: piece_len_def L_def n_def)
qed

text \<open>
  The calls that unregister the pieces \<open>js\<close>: for each piece its \<open>ioctl\<close> and its \<open>munmap\<close>, with
  the return codes \<open>rc\<close>.
\<close>

definition unreg_calls :: "fgds_mmap_buffer \<Rightarrow> fgds_mmap_node \<Rightarrow> (nat \<Rightarrow> int \<times> int) \<Rightarrow> nat list \<Rightarrow> call list" where
  "unreg_calls b nd rc js = concat (map (\<lambda>j.
     [C_ioctl (dev_fd b) FGDS_IOCTL_UNMAP (map_param b (gpu_addr nd + of_nat (j * seg_size)) (vaddrs nd ! j)
        (of_nat (piece_len nd j))) (fst (rc j)),
      C_munmap (vaddrs nd ! j) (of_nat (piece_len nd j)) (snd (rc j))]) js)"

lemma dereg_loop_spec:
  assumes "valid_dev d" and "initialized (g_dev_ctx s (nat d))" and "node_wf nd" and "n = unat (mmap_count nd)"
    and "i \<le> n" and "i < n \<longrightarrow> m = of_nat (i * seg_size)"
  shows "runs_to (dereg_loop os d nd [i..<n] m r0) s (\<lambda>r t. \<exists>rc. did s (unreg_calls (g_dev_ctx s (nat d)) nd rc [i..<n]) t \<and>
    r = (if \<forall>j\<in>set [i..<n]. rc j = (0, 0) then r0 else -1))"
  using assms
proof (induction "n - i" arbitrary: i m r0 s)
  case 0
  then show ?case using did_refl [of s] by (simp add: unreg_calls_def)
next
  case (Suc k)
  let ?b = "g_dev_ctx s (nat d)" and ?L = "of_nat (piece_len nd i) :: u64"
  have i: "i < n" using Suc by simp
  have upt: "[i..<n] = i # [Suc i..<n]" using i by (rule upt_conv_Cons)
  have L: "dereg_len nd i = ?L" using Suc.prems i by (intro dereg_len_piece) auto
  have bound: "i < length (vaddrs nd)" using Suc.prems i by (simp add: node_wf_def)
  let ?p = "map_param ?b (gpu_addr nd + of_nat (i * seg_size)) (vaddrs nd ! i) ?L"
  obtain dr w where io: "os_ioctl os (dev_fd ?b) FGDS_IOCTL_UNMAP ?p (world s) = (dr, w)" by fastforce
  obtain mr w' where mu: "os_munmap os (vaddrs nd ! i) ?L w = (mr, w')" by fastforce
  let ?c = "[C_ioctl (dev_fd ?b) FGDS_IOCTL_UNMAP ?p dr, C_munmap (vaddrs nd ! i) ?L mr]"
  let ?s = "s\<lparr>world := w', calls := calls s @ ?c\<rparr>"
  let ?r = "if mr \<noteq> 0 then -1 else if dr \<noteq> 0 then -1 else r0"
  have full: "piece_len nd i = seg_size" if "Suc i < n"
  proof -
    have "Suc i \<le> (unat (node_length nd) - 1) div seg_size"
    proof -
      have "n = (unat (node_length nd) + seg_size - 1) div seg_size" using Suc.prems by (simp add: node_wf_def)
      moreover have "0 < unat (node_length nd)" using that calculation by (cases "unat (node_length nd)") simp_all
      moreover have "unat (node_length nd) + seg_size - 1 = unat (node_length nd) - 1 + seg_size" using calculation(2) by simp
      ultimately show ?thesis using that by simp
    qed
    then have "Suc i * seg_size \<le> unat (node_length nd) - 1" by (rule le_div_mult)
    then show ?thesis by (simp add: piece_len_def)
  qed
  have mi: "m = of_nat (i * seg_size)" using Suc.prems i by simp
  have "runs_to (dereg_loop os d nd [Suc i..<n] (m + ?L) ?r) ?s (\<lambda>r t. \<exists>rc. did ?s (unreg_calls (g_dev_ctx ?s (nat d)) nd rc [Suc i..<n]) t \<and>
    r = (if \<forall>j\<in>set [Suc i..<n]. rc j = (0, 0) then ?r else -1))"
    using Suc i mi full by (intro Suc.hyps(1)) (auto simp: algebra_simps)
  then have "runs_to (dereg_loop os d nd [Suc i..<n] (m + ?L) ?r) ?s (\<lambda>r t. \<exists>rc. did s (unreg_calls ?b nd rc [i..<n]) t \<and>
    r = (if \<forall>j\<in>set [i..<n]. rc j = (0, 0) then r0 else -1))"
  proof (rule runs_to_mono, elim exE conjE)
    fix r t rc
    assume t: "did ?s (unreg_calls (g_dev_ctx ?s (nat d)) nd rc [Suc i..<n]) t"
      and r: "r = (if \<forall>j\<in>set [Suc i..<n]. rc j = (0, 0) then ?r else -1)"
    have "unreg_calls ?b nd (rc(i := (dr, mr))) [i..<n] = ?c @ unreg_calls ?b nd rc [Suc i..<n]"
      unfolding upt unreg_calls_def by (auto intro!: arg_cong [where f = concat] map_cong)
    then have "did s (unreg_calls ?b nd (rc(i := (dr, mr))) [i..<n]) t" using did_step [OF t] by simp
    moreover have "r = (if \<forall>j\<in>set [i..<n]. (rc(i := (dr, mr))) j = (0, 0) then r0 else -1)"
      unfolding upt using r by auto
    ultimately show "\<exists>rc. did s (unreg_calls ?b nd rc [i..<n]) t \<and>
        r = (if \<forall>j\<in>set [i..<n]. rc j = (0, 0) then r0 else -1)" by blast
  qed
  moreover have "calls s @ ?c = (calls s @ [C_ioctl (dev_fd ?b) FGDS_IOCTL_UNMAP ?p dr]) @ [C_munmap (vaddrs nd ! i) ?L mr]" by simp
  ultimately show ?case unfolding upt using Suc.prems(1,2) io mu bound mi L
    by (simp add: fgds_deregmem_ctx_def sys_defs)
qed

text \<open>The state after a deregistration that returned \<open>r\<close>.\<close>

definition reg_removed :: "'w lib \<Rightarrow> int \<Rightarrow> nat \<Rightarrow> fgds_mmap_node \<Rightarrow> int \<Rightarrow> 'w lib \<Rightarrow> bool" where
  "reg_removed s d p nd r t \<longleftrightarrow> reg_inv t \<and> reg_ready t d \<and> node_heap t p = None \<and>
     reg_entries t d = filter (\<lambda>e. fst e \<noteq> p) (reg_entries s d) \<and>
     (\<forall>e. valid_dev e \<longrightarrow> e \<noteq> d \<longrightarrow> reg_entries t e = reg_entries s e) \<and>
     vaddrs_live t = vaddrs_live s \<and>
     (\<exists>rc. calls t = calls s @ unreg_calls (g_dev_ctx s (nat d)) nd rc [0..<unat (mmap_count nd)] \<and>
       r = (if \<forall>j < unat (mmap_count nd). rc j = (0, 0) then 0 else -1))"

lemma unreg_calls_cong:
  "dev_fd b = dev_fd b' \<Longrightarrow> device_id b = device_id b' \<Longrightarrow> unreg_calls b nd rc js = unreg_calls b' nd rc js"
  by (simp add: unreg_calls_def map_param_def)

lemma unreg_calls_payload [simp]: "unreg_calls b (payload n) rc js = unreg_calls b n rc js"
  by (simp add: unreg_calls_def piece_len_def)

lemma dereg_tail:
  assumes "reg_inv u" and "reg_ready u d" and "loose_node u p nd" and "node_wf nd" and "initialized (g_dev_ctx u (nat d))"
  shows "runs_to (bnd (load_node p) (\<lambda>mn. bnd (dereg_loop os d mn [0..<unat (mmap_count mn)] 0 0) (\<lambda>r.
      sq (free_node p) (ret r)))) u (\<lambda>r t. reg_inv t \<and> reg_ready t d \<and> node_heap t p = None \<and>
    (\<forall>e. valid_dev e \<longrightarrow> reg_entries t e = reg_entries u e) \<and> vaddrs_live t = vaddrs_live u \<and>
    (\<exists>rc. calls t = calls u @ unreg_calls (g_dev_ctx u (nat d)) nd rc [0..<unat (mmap_count nd)] \<and>
      r = (if \<forall>j < unat (mmap_count nd). rc j = (0, 0) then 0 else -1)))"
proof -
  from assms(3) obtain m where m: "node_heap u p = Some m" and pay: "payload m = nd"
    by (auto simp: loose_node_def holds_node_def)
  have wf: "node_wf m" and cnt: "mmap_count m = mmap_count nd" using assms(4) pay by auto
  have d: "valid_dev d" using assms(2) by (simp add: reg_ready_def)
  have "runs_to (dereg_loop os d m [0..<unat (mmap_count nd)] 0 0) u (\<lambda>r t. \<exists>rc.
      did u (unreg_calls (g_dev_ctx u (nat d)) m rc [0..<unat (mmap_count nd)]) t \<and>
      r = (if \<forall>j\<in>set [0..<unat (mmap_count nd)]. rc j = (0, 0) then 0 else -1))"
    by (rule dereg_loop_spec [OF d assms(5) wf]) (simp_all add: cnt)
  then have "runs_to (dereg_loop os d m [0..<unat (mmap_count nd)] 0 0) u (\<lambda>r t. node_heap t p \<noteq> None \<and>
    (let t' = t\<lparr>node_heap := (node_heap t)(p := None)\<rparr> in reg_inv t' \<and> reg_ready t' d \<and> node_heap t' p = None \<and>
    (\<forall>e. valid_dev e \<longrightarrow> reg_entries t' e = reg_entries u e) \<and> vaddrs_live t' = vaddrs_live u \<and>
    (\<exists>rc. calls t' = calls u @ unreg_calls (g_dev_ctx u (nat d)) nd rc [0..<unat (mmap_count nd)] \<and>
      r = (if \<forall>j < unat (mmap_count nd). rc j = (0, 0) then 0 else -1))))"
  proof (rule runs_to_mono, elim exE conjE)
    fix r t rc
    assume t: "did u (unreg_calls (g_dev_ctx u (nat d)) m rc [0..<unat (mmap_count nd)]) t"
      and r: "r = (if \<forall>j\<in>set [0..<unat (mmap_count nd)]. rc j = (0, 0) then 0 else -1)"
    note same = did_same [OF t]
    have loose: "loose_node t p nd" using assms(3) same by (simp add: loose_node_def holds_node_def)
    have inv: "reg_inv t" using assms(1) same by simp
    note fr = free_loose [OF inv loose]
    have "reg_ready (t\<lparr>node_heap := (node_heap t)(p := None)\<rparr>) d" using assms(2) same by (simp add: reg_ready_def)
    moreover have "unreg_calls (g_dev_ctx u (nat d)) m rc [0..<unat (mmap_count nd)] =
        unreg_calls (g_dev_ctx u (nat d)) nd rc [0..<unat (mmap_count nd)]" using pay by auto
    ultimately show "node_heap t p \<noteq> None \<and>
      (let t' = t\<lparr>node_heap := (node_heap t)(p := None)\<rparr> in reg_inv t' \<and> reg_ready t' d \<and> node_heap t' p = None \<and>
      (\<forall>e. valid_dev e \<longrightarrow> reg_entries t' e = reg_entries u e) \<and> vaddrs_live t' = vaddrs_live u \<and>
      (\<exists>rc. calls t' = calls u @ unreg_calls (g_dev_ctx u (nat d)) nd rc [0..<unat (mmap_count nd)] \<and>
        r = (if \<forall>j < unat (mmap_count nd). rc j = (0, 0) then 0 else -1)))"
      using fr(1) [OF d] fr(2) same m r by (auto simp: Let_def intro!: exI [of _ rc])
  qed
  then show ?thesis using m cnt by (simp add: Let_def)
qed

definition addrs_distinct :: "'w lib \<Rightarrow> int \<Rightarrow> bool" where
  "addrs_distinct s d \<longleftrightarrow> distinct (map (gpu_addr \<circ> snd) (reg_entries s d))"

text \<open>\<open>fgds_deregmem\<close> of a registered buffer goes on from the deletion.\<close>

lemma deregmem_run:
  assumes "reg_inv s" and "valid_dev d" and "covering s d gaddr len = Some (p, nd)" and "node_length nd = len" and "node_wf nd"
    and "runs_to (delete_fgds_mmap_node d p) s (\<lambda>r u. r = 0 \<and> runs_to (bnd (load_node p) (\<lambda>mn.
      bnd (dereg_loop os d mn [0..<unat (mmap_count mn)] 0 0) (\<lambda>r. sq (free_node p) (ret r)))) u Q)"
  shows "runs_to (fgds_deregmem os d gaddr len) s Q"
proof -
  obtain m where m: "node_heap s p = Some m" and pay: "payload m = nd" by (rule covering_load [OF assms(1-3)])
  have "\<not> (node_length m \<noteq> len \<or> \<not> is_mapped m)" using assms(4,5) pay by (auto simp: node_wf_def)
  moreover have "runs_to (delete_fgds_mmap_node d p) s (\<lambda>r u. runs_to (if r \<noteq> 0 then ret (-1) else
      bnd (load_node p) (\<lambda>mn. bnd (dereg_loop os d mn [0..<unat (mmap_count mn)] 0 0) (\<lambda>r. sq (free_node p) (ret r)))) u Q)"
    by (rule runs_to_mono [OF assms(6)]) simp
  moreover have "runs_to (find_fgds_mmap_node d gaddr len) s R = R (Some p) s" for R
    using find_node_covering [OF assms(1,2)] assms(3) by (simp add: runs_to_def)
  ultimately show ?thesis unfolding fgds_deregmem_def using m by simp
qed

lemma deregmem_spec:
  assumes "reg_inv s" and "reg_ready s d" and "initialized (g_dev_ctx s (nat d))"
    and "covering s d gaddr len = Some (p, nd)" and "node_length nd = len" and "node_wf nd" and "addrs_distinct s d"
  shows "runs_to (fgds_deregmem os d gaddr len) s (reg_removed s d p nd)"
proof -
  have d: "valid_dev d" using assms(2) by (simp add: reg_ready_def)
  have ent: "(p, nd) \<in> set (reg_entries s d)" using assms(4) find_in_set by (fastforce simp: covering_def)
  show ?thesis
  proof (rule deregmem_run [OF assms(1) d assms(4-6)], rule runs_to_mono [OF reg.delete_exact [OF assms(1,2) ent assms(7) [unfolded addrs_distinct_def]]], elim conjE)
    fix r u
    assume u: "r = 0" "reg_inv u" "reg_ready u d" "reg_rest u = reg_rest s"
      "reg_entries u d = filter (\<lambda>e. fst e \<noteq> p) (reg_entries s d)"
      "\<forall>e. valid_dev e \<longrightarrow> e \<noteq> d \<longrightarrow> reg_entries u e = reg_entries s e"
      "holds_node u p nd" "\<forall>e. valid_dev e \<longrightarrow> p \<notin> fst ` set (reg_entries u e)"
    have loose: "loose_node u p nd" using u by (simp add: loose_node_def)
    note rest = reg_rest_ctx [OF u(4)]
    have init: "initialized (g_dev_ctx u (nat d))" using assms(3) rest by simp
    have tr: "unreg_calls (g_dev_ctx u (nat d)) nd rc js = unreg_calls (g_dev_ctx s (nat d)) nd rc js" for rc js
      by (rule unreg_calls_cong) (simp_all add: rest)
    show "r = 0 \<and> runs_to (bnd (load_node p) (\<lambda>mn.
      bnd (dereg_loop os d mn [0..<unat (mmap_count mn)] 0 0) (\<lambda>r. sq (free_node p) (ret r)))) u (reg_removed s d p nd)"
      using u(1) by (intro conjI, simp) (rule runs_to_mono [OF dereg_tail [OF u(2,3) loose assms(6) init]],
        use u d in \<open>auto simp: reg_removed_def rest tr\<close>)
  qed
qed

section \<open>Freeing a node that is linked\<close>

text \<open>
  A walk along a list with a freed node: the nodes in front of it are found, everything else is a read of
  freed memory.
\<close>

lemma find_loop_dangling:
  assumes "chain (node_heap u) hp (xs @ p # ys)" and "length xs < fuel" and "node_heap t = (node_heap u)(p := None)"
  shows "find_loop fuel hp a l t = (case List.find (node_covers a l \<circ> snd) (entries_at (node_heap u) xs) of
    None \<Rightarrow> Inl Use_After_Free | Some e \<Rightarrow> Inr (Some (fst e), t))"
  using assms
proof (induction xs arbitrary: hp fuel)
  case Nil
  then show ?case by (simp add: entries_at_def run)
next
  case (Cons x xs)
  have "x \<noteq> p" using chain_distinct [OF Cons.prems(1)] by simp
  with Cons show ?case by (auto simp: entries_at_def run)
qed

lemma chain_ptrs_dangling:
  assumes "chain h hp (xs @ p # ys)" and "length xs < fuel"
  shows "chain_ptrs (h(p := None)) fuel hp = xs"
  using assms
proof (induction xs arbitrary: hp fuel)
  case (Cons x xs)
  have "x \<noteq> p" using chain_distinct [OF Cons.prems(1)] by simp
  with Cons show ?case by auto
qed simp

lemma free_linked:
  assumes "reg_inv u" and "valid_dev d" and "reg_entries u d = es @ (p, nd) # es3" and "node_wf nd"
    and "initialized (g_dev_ctx u (nat d))"
  shows "runs_to (bnd (load_node p) (\<lambda>mn. bnd (dereg_loop os d mn [0..<unat (mmap_count mn)] 0 0) (\<lambda>r.
      sq (free_node p) (ret r)))) u (\<lambda>r t. node_heap t = (node_heap u)(p := None) \<and> dev_ptrs t d = map fst es \<and>
    (\<forall>e. valid_dev e \<longrightarrow> e \<noteq> d \<longrightarrow> dev_ptrs t e = dev_ptrs u e) \<and>
    (\<exists>rc. calls t = calls u @ unreg_calls (g_dev_ctx u (nat d)) nd rc [0..<unat (mmap_count nd)]) \<and>
    (\<forall>a n. find_fgds_mmap_node d a n t = (case List.find (node_covers a n \<circ> snd) es of
       None \<Rightarrow> Inl Use_After_Free | Some e \<Rightarrow> Inr (Some (fst e), t))))"
proof -
  have "(p, nd) \<in> set (reg_entries u d)" using assms(3) by simp
  then obtain m where m: "node_heap u p = Some m" and pay: "payload m = nd" by (rule reg_entries_load [OF assms(1,2)])
  have wf: "node_wf m" and cnt: "mmap_count m = mmap_count nd" using assms(4) pay by auto
  have ptrs: "dev_ptrs u d = map fst es @ p # map fst es3" using reg_entries_ptrs(2) [of u d] assms(3) by simp
  have es: "entries_at (node_heap u) (map fst es) = es"
  proof -
    have "entries_at (node_heap u) (map fst es @ p # map fst es3) = es @ (p, nd) # es3"
      using assms(3) by (simp only: reg_entries_def ptrs)
    then show ?thesis by (simp add: entries_at_def append_eq_append_conv)
  qed
  note ch = reg_inv_chain [OF assms(1,2), unfolded ptrs]
  have fuel: "length (map fst es) < next_ptr u" using reg_inv_length [OF assms(1,2)] by (simp add: ptrs)
  have other: "chain_ptrs ((node_heap u)(p := None)) (next_ptr u) (head (g_dev_ctx u (nat e))) = dev_ptrs u e"
    if "valid_dev e" "e \<noteq> d" for e
  proof (rule chain_ptrs_eq [OF _ reg_inv_length [OF assms(1) that(1)]])
    have "p \<notin> set (dev_ptrs u e)" using reg_inv_disjoint [OF assms(1,2) that(1)] that(2) by (auto simp: ptrs)
    then show "chain ((node_heap u)(p := None)) (head (g_dev_ctx u (nat e))) (dev_ptrs u e)"
      using reg_inv_chain [OF assms(1) that(1)] by simp
  qed
  have "runs_to (dereg_loop os d m [0..<unat (mmap_count nd)] 0 0) u (\<lambda>r t. \<exists>rc.
      did u (unreg_calls (g_dev_ctx u (nat d)) m rc [0..<unat (mmap_count nd)]) t \<and>
      r = (if \<forall>j\<in>set [0..<unat (mmap_count nd)]. rc j = (0, 0) then 0 else -1))"
    by (rule dereg_loop_spec [OF assms(2,5) wf]) (simp_all add: cnt)
  then have "runs_to (dereg_loop os d m [0..<unat (mmap_count nd)] 0 0) u (\<lambda>r t. node_heap t p \<noteq> None \<and>
    (let t' = t\<lparr>node_heap := (node_heap t)(p := None)\<rparr> in node_heap t' = (node_heap u)(p := None) \<and> dev_ptrs t' d = map fst es \<and>
    (\<forall>e. valid_dev e \<longrightarrow> e \<noteq> d \<longrightarrow> dev_ptrs t' e = dev_ptrs u e) \<and>
    (\<exists>rc. calls t' = calls u @ unreg_calls (g_dev_ctx u (nat d)) nd rc [0..<unat (mmap_count nd)]) \<and>
    (\<forall>a n. find_fgds_mmap_node d a n t' = (case List.find (node_covers a n \<circ> snd) es of
       None \<Rightarrow> Inl Use_After_Free | Some e \<Rightarrow> Inr (Some (fst e), t')))))"
  proof (rule runs_to_mono, elim exE conjE)
    fix r t rc
    assume t: "did u (unreg_calls (g_dev_ctx u (nat d)) m rc [0..<unat (mmap_count nd)]) t"
    note same = did_same [OF t]
    let ?t = "t\<lparr>node_heap := (node_heap t)(p := None)\<rparr>"
    have h: "node_heap ?t = (node_heap u)(p := None)" "node_heap t p \<noteq> None" using same m by simp_all
    have "find_fgds_mmap_node d a n ?t = (case List.find (node_covers a n \<circ> snd) es of
        None \<Rightarrow> Inl Use_After_Free | Some e \<Rightarrow> Inr (Some (fst e), ?t))" for a n
      using find_loop_dangling [OF ch fuel h(1)] same assms(2) by (simp add: find_fgds_mmap_node_def run es)
    moreover have "dev_ptrs ?t d = map fst es" "\<forall>e. valid_dev e \<longrightarrow> e \<noteq> d \<longrightarrow> dev_ptrs ?t e = dev_ptrs u e"
      using same chain_ptrs_dangling [OF ch fuel] other by (simp_all add: dev_ptrs_def)
    moreover have "calls ?t = calls u @ unreg_calls (g_dev_ctx u (nat d)) nd rc [0..<unat (mmap_count nd)]" using same pay by auto
    ultimately show "node_heap t p \<noteq> None \<and> (let t' = ?t in node_heap t' = (node_heap u)(p := None) \<and> dev_ptrs t' d = map fst es \<and>
      (\<forall>e. valid_dev e \<longrightarrow> e \<noteq> d \<longrightarrow> dev_ptrs t' e = dev_ptrs u e) \<and>
      (\<exists>rc. calls t' = calls u @ unreg_calls (g_dev_ctx u (nat d)) nd rc [0..<unat (mmap_count nd)]) \<and>
      (\<forall>a n. find_fgds_mmap_node d a n t' = (case List.find (node_covers a n \<circ> snd) es of
         None \<Rightarrow> Inl Use_After_Free | Some e \<Rightarrow> Inr (Some (fst e), t'))))"
      unfolding Let_def using h by blast
  qed
  then show ?thesis using m cnt by (simp add: Let_def)
qed

section \<open>A cooperative environment\<close>

text \<open>Allocation, \<open>mmap\<close> and \<open>ioctl\<close> succeed.\<close>

definition cooperative :: "'w os \<Rightarrow> bool" where
  "cooperative os \<longleftrightarrow> (\<forall>n w. fst (os_malloc os n w)) \<and> (\<forall>n f w. fst (os_mmap os n f w) \<noteq> None) \<and>
     (\<forall>f c p w. fst (os_ioctl os f c p w) = 0)"

lemma regmem_loop_coop:
  assumes "cooperative os" and "initialized (g_dev_ctx s (nat d))" and "valid_dev d"
  shows "runs_to (regmem_loop os d gaddr count left is m vs) s (\<lambda>r t. r \<noteq> None)"
  using assms(2)
proof (induction "is" arbitrary: m vs s)
  case (Cons i "is")
  let ?L = "regmem_len count left (int i)"
  obtain v w where mm: "os_mmap os ?L (dev_fd (g_dev_ctx s (nat d))) (world s) = (Some v, w)"
    using assms(1) unfolding cooperative_def by (metis not_None_eq prod.collapse)
  obtain w' where io: "os_ioctl os (dev_fd (g_dev_ctx s (nat d))) FGDS_IOCTL_MAP
      (map_param (g_dev_ctx s (nat d)) (gaddr + m) v ?L) w = (0, w')"
    using assms(1) unfolding cooperative_def by (metis prod.collapse)
  show ?case using mm io assms(3) Cons.prems by (simp add: sys_defs fgds_regmem_ctx_def Cons.IH del: not_None_eq)
qed simp

lemma regmem_coop:
  assumes "cooperative os" and "reg_inv s" and "reg_ready s d" and "initialized (g_dev_ctx s (nat d))" and "reg_size_ok len"
  shows "runs_to (fgds_regmem os d gaddr len) s (\<lambda>r t. \<exists>vs. r = (0, Some (hd vs)) \<and> vs \<noteq> [] \<and> reg_done s d gaddr len vs t)"
proof -
  have d: "valid_dev d" using assms(3) by (simp add: reg_ready_def)
  have page: "len mod FGDS_GPU_PAGE_SIZE = 0" using assms(5) by (simp add: reg_size_ok_def)
  have ok: "fst (fst x) = 0" if x: "fgds_regmem os d gaddr len s = Inr x" for x
  proof -
    obtain w where m: "os_malloc os 56 (world s) = (True, w)"
      using assms(1) unfolding cooperative_def by (metis (full_types) prod.collapse)
    obtain w2 where m2: "os_malloc os (seg_count len * 8) w = (True, w2)"
      using assms(1) unfolding cooperative_def by (metis (full_types) prod.collapse)
    define u where "u = s\<lparr>node_heap := (node_heap s)(next_ptr s \<mapsto> blank_node), next_ptr := Suc (next_ptr s),
      g_dev_ctx := (g_dev_ctx s)(nat d := (g_dev_ctx s (nat d))\<lparr>device_id := d\<rparr>),
      world := w2, vaddrs_live := Suc (vaddrs_live s)\<rparr>"
    have "runs_to (regmem_loop os d gaddr (seg_count len) (len mod FGDS_MMAP_SEGMENT_SIZE)
        [0..<nat (int_of_size (seg_count len))] 0 []) u (\<lambda>r t. r \<noteq> None)"
      by (rule regmem_loop_coop [OF assms(1) _ d]) (simp add: u_def assms(4))
    then obtain vs t where "regmem_loop os d gaddr (seg_count len) (len mod FGDS_MMAP_SEGMENT_SIZE)
        [0..<nat (int_of_size (seg_count len))] 0 [] u = Inr (Some vs, t)" by (auto elim: runs_toE)
    then show ?thesis using x m m2 d page
      unfolding fgds_regmem_def seg_count_def [symmetric] Let_def
      by (auto simp: run malloc_def u_def split: sum.splits if_splits)
  qed
  have "runs_to (fgds_regmem os d gaddr len) s (\<lambda>r t. fst r = 0)"
    using regmem_spec [OF assms(2-5), of os gaddr] ok by (fastforce simp: runs_to_iff)
  from runs_to_conj [OF regmem_spec [OF assms(2-5)] this] show ?thesis
    by (rule runs_to_mono) (auto simp: reg_outcome_def)
qed

section \<open>Properties\<close>

text \<open>
  C7. Registration either succeeds or leaves no trace. For an open device and an aligned size,
  \<open>fgds_regmem\<close> never faults. If it returns 0, the buffer is the newest entry of its device, split
  into pieces of 1 GB, and the calls made are exactly one \<open>mmap\<close> and one map \<open>ioctl\<close> per piece, with
  consecutive parts of the GPU range. Otherwise no node and no address array stays allocated,
  the registry is unchanged and every mapping made has been unmapped with its length.
\<close>

theorem regmem_all_or_nothing:
  assumes "reg_inv s" and "reg_ready s d" and "initialized (g_dev_ctx s (nat d))" and "reg_size_ok len"
  shows "runs_to (fgds_regmem os d gaddr len) s (\<lambda>r t.
    (\<exists>vs. r = (0, Some (hd vs)) \<and> vs \<noteq> [] \<and> reg_done s d gaddr len vs t) \<or>
    (r = (-1, None) \<or> r = (- EFAULT, None)) \<and> reg_undone s d t)"
  by (rule runs_to_mono [OF regmem_spec [OF assms]]) (simp add: reg_outcome_def)

definition open_lib :: "sim_world lib" where
  "open_lib = (lib_init sim_world_init)\<lparr>
     g_dev_ctx := (\<lambda>_. ctx_init)(0 := ctx_init\<lparr>dev_fd := 3, initialized := True\<rparr>),
     fgds_initialized := (\<lambda>_. False)(0 := True)\<rparr>"

lemma open_lib_ok: "reg_inv open_lib" "reg_ready open_lib 0" "initialized (g_dev_ctx open_lib (nat 0))"
  "reg_size_ok 0x50000000" "cooperative sim_os"
proof -
  show "reg_inv open_lib"
    by (rule reg_invI(1) [where P = "\<lambda>_. []"]) (auto simp: open_lib_def lib_init_def ctx_init_def)
qed (simp_all add: open_lib_def lib_init_def ctx_init_def reg_ready_def reg_size_ok_def cooperative_def sim_os_def)

theorem regmem_all_or_nothing_witness:
  "runs_to (fgds_regmem sim_os 0 0x10000000 0x50000000) open_lib (\<lambda>r t.
    (\<exists>vs. r = (0, Some (hd vs)) \<and> vs \<noteq> [] \<and> reg_done open_lib 0 0x10000000 0x50000000 vs t) \<or>
    (r = (-1, None) \<or> r = (- EFAULT, None)) \<and> reg_undone open_lib 0 t)"
  by (rule regmem_all_or_nothing [OF open_lib_ok(1-4)])

text \<open>
  C8. Registration makes a buffer usable. In an environment where allocation, \<open>mmap\<close> and \<open>ioctl\<close>
  succeed, \<open>fgds_regmem\<close> returns 0, and a translation of any window of the buffer then yields the
  addresses of exactly the mappings that were bound to that part of the GPU range.
\<close>

theorem regmem_then_translate:
  assumes "cooperative os" and "reg_inv s" and "reg_ready s d" and "initialized (g_dev_ctx s (nat d))"
    and "reg_size_ok len" and "unat gaddr + unat len < 2 ^ 64"
    and "0 \<le> sint off" and "0 < unat n" and "unat off + unat n \<le> unat len"
  shows "runs_to (fgds_regmem os d gaddr len) s (\<lambda>r t. fst r = 0 \<and>
    runs_to (fgds_do_xfer_addr os d gaddr off n) t (\<lambda>r u. \<exists>vs xs. r = Some xs \<and>
      calls u = calls s @ reg_calls ((g_dev_ctx s (nat d))\<lparr>device_id := d\<rparr>) (reg_node gaddr len vs) \<and>
      concat (map seg_bytes xs) = map (host_byte (reg_node gaddr len vs)) [unat off..<unat off + unat n]))"
proof (rule runs_to_mono [OF regmem_coop [OF assms(1-5)]], elim exE conjE)
  fix r t vs
  assume r: "r = (0, Some (hd vs))" and t: "reg_done s d gaddr len vs t"
  let ?nd = "reg_node gaddr len vs"
  have wf: "node_wf ?nd" using t by (intro reg_node_wf [OF assms(5) _ assms(6)]) (simp add: reg_done_def)
  have inv: "reg_inv t" and d: "valid_dev d" using t assms(3) by (auto simp: reg_done_def reg_ready_def)
  have "unat (gaddr + n) = unat gaddr + unat n" "unat (gaddr + len) = unat gaddr + unat len"
    using assms(6,9) by (auto intro!: unat_add_no_wrap)
  then have "node_covers gaddr n ?nd" using assms(9) by (simp add: node_covers_def reg_node_def word_le_nat_alt)
  then have cov: "covering t d gaddr n = Some (next_ptr s, ?nd)" using t by (simp add: covering_def reg_done_def)
  have win: "in_window ?nd off n" using assms(7-9) by (simp add: in_window_def reg_node_def)
  obtain w where m: "os_malloc os (xfer_bytes off n) (world t) = (True, w)"
    using assms(1) unfolding cooperative_def by (metis (full_types) prod.collapse)
  show "fst r = 0 \<and> runs_to (fgds_do_xfer_addr os d gaddr off n) t (\<lambda>r u. \<exists>vs xs. r = Some xs \<and>
      calls u = calls s @ reg_calls ((g_dev_ctx s (nat d))\<lparr>device_id := d\<rparr>) (reg_node gaddr len vs) \<and>
      concat (map seg_bytes xs) = map (host_byte (reg_node gaddr len vs)) [unat off..<unat off + unat n])"
    using r do_xfer_addr_eq [OF inv d cov wf win m] window_segs_bytes [OF assms(8), of ?nd "unat off"] t
    by (auto simp: runs_to_def reg_done_def)
qed

theorem regmem_then_translate_witness:
  "runs_to (fgds_regmem sim_os 0 0x10000000 0x50000000) open_lib (\<lambda>r t. fst r = 0 \<and>
    runs_to (fgds_do_xfer_addr sim_os 0 0x10000000 0x3fff0000 0x20000) t (\<lambda>r u. \<exists>vs xs. r = Some xs \<and>
      calls u = calls open_lib @ reg_calls ((g_dev_ctx open_lib (nat 0))\<lparr>device_id := 0\<rparr>) (reg_node 0x10000000 0x50000000 vs) \<and>
      concat (map seg_bytes xs) = map (host_byte (reg_node 0x10000000 0x50000000 vs))
        [unat (0x3fff0000 :: s64)..<unat (0x3fff0000 :: s64) + unat (0x20000 :: u64)]))"
  by (rule regmem_then_translate [OF open_lib_ok(5,1-4)]) simp_all

text \<open>
  C9. Deregistration removes a buffer whatever the environment answers. For a registered
  buffer, when no two buffers of the device start at the same address, \<open>fgds_deregmem\<close> makes one
  unmap \<open>ioctl\<close> and one \<open>munmap\<close> per piece in order, even after a failure, removes exactly that node
  from the list, frees it, and returns 0 if every call succeeded and -1 otherwise. The array of
  addresses is not freed.
\<close>

theorem deregmem_removes:
  assumes "reg_inv s" and "reg_ready s d" and "initialized (g_dev_ctx s (nat d))"
    and "covering s d gaddr len = Some (p, nd)" and "node_length nd = len" and "node_wf nd" and "addrs_distinct s d"
  shows "runs_to (fgds_deregmem os d gaddr len) s (\<lambda>r t. reg_inv t \<and> node_heap t p = None \<and>
    reg_entries t d = filter (\<lambda>e. fst e \<noteq> p) (reg_entries s d) \<and>
    (\<forall>e. valid_dev e \<longrightarrow> e \<noteq> d \<longrightarrow> reg_entries t e = reg_entries s e) \<and> vaddrs_live t = vaddrs_live s \<and>
    (\<exists>rc. calls t = calls s @ unreg_calls (g_dev_ctx s (nat d)) nd rc [0..<unat (mmap_count nd)] \<and>
       r = (if \<forall>j < unat (mmap_count nd). rc j = (0, 0) then 0 else -1)))"
  by (rule runs_to_mono [OF deregmem_spec [OF assms]]) (simp add: reg_removed_def)

lemma two_gb_ready: "reg_ready two_gb_lib 0" "initialized (g_dev_ctx two_gb_lib (nat 0))" "addrs_distinct two_gb_lib 0"
  "covering two_gb_lib 0 0x10000000 0x80000000 = Some (0, two_gb_node)" "node_length two_gb_node = 0x80000000"
proof -
  show "addrs_distinct two_gb_lib 0" unfolding addrs_distinct_def two_gb_reg(2) by simp
  show "covering two_gb_lib 0 0x10000000 0x80000000 = Some (0, two_gb_node)"
    unfolding covering_def two_gb_reg(2) by (simp add: node_covers_def two_gb_node_def)
qed (simp_all add: two_gb_lib_def lib_init_def ctx_init_def reg_ready_def two_gb_node_def)

theorem deregmem_removes_witness:
  "runs_to (fgds_deregmem sim_os 0 0x10000000 0x80000000) two_gb_lib (\<lambda>r t. reg_inv t \<and> node_heap t 0 = None \<and>
    reg_entries t 0 = filter (\<lambda>e. fst e \<noteq> 0) (reg_entries two_gb_lib 0) \<and>
    (\<forall>e. valid_dev e \<longrightarrow> e \<noteq> 0 \<longrightarrow> reg_entries t e = reg_entries two_gb_lib e) \<and> vaddrs_live t = vaddrs_live two_gb_lib \<and>
    (\<exists>rc. calls t = calls two_gb_lib @ unreg_calls (g_dev_ctx two_gb_lib (nat 0)) two_gb_node rc [0..<unat (mmap_count two_gb_node)] \<and>
       r = (if \<forall>j < unat (mmap_count two_gb_node). rc j = (0, 0) then 0 else -1)))"
  by (rule deregmem_removes [OF two_gb_reg(1) two_gb_ready(1,2,4,5) two_gb_covering(2) two_gb_ready(3)])

lemma maps_of_concat: "maps_of (concat cs) = concat (map maps_of cs)" "unmaps_of (concat cs) = concat (map unmaps_of cs)"
  by (induction cs) simp_all

lemma reg_calls_maps:
  "maps_of (reg_calls b nd) = map (\<lambda>j. (vaddrs nd ! j, of_nat (piece_len nd j))) [0..<length (vaddrs nd)]"
  "unmaps_of (reg_calls b nd) = []"
  by (simp_all add: reg_calls_def maps_of_concat piece_calls_def comp_def)

lemma unreg_calls_maps:
  "maps_of (unreg_calls b nd rc js) = []"
  "unmaps_of (unreg_calls b nd rc js) = map (\<lambda>j. (vaddrs nd ! j, of_nat (piece_len nd j))) js"
  by (simp_all add: unreg_calls_def maps_of_concat comp_def)

text \<open>
  C10. Registering and deregistering a buffer is a round trip. In a cooperative environment, for a
  buffer that starts where no registered buffer of the device starts, the registry is back to
  what it was, and the mappings removed are exactly those made, in the same order.
\<close>

theorem regmem_deregmem_roundtrip:
  assumes "cooperative os" and "reg_inv s" and "reg_ready s d" and "initialized (g_dev_ctx s (nat d))"
    and "reg_size_ok len" and "unat gaddr + unat len < 2 ^ 64" and "addrs_distinct s d"
    and "gaddr \<notin> (gpu_addr \<circ> snd) ` set (reg_entries s d)"
  shows "runs_to (sq (fgds_regmem os d gaddr len) (fgds_deregmem os d gaddr len)) s (\<lambda>r t. reg_inv t \<and>
    (\<forall>e. valid_dev e \<longrightarrow> reg_entries t e = reg_entries s e) \<and> node_heap t (next_ptr s) = None \<and>
    (\<exists>c. calls t = calls s @ c \<and> maps_of c = unmaps_of c))"
  unfolding runs_to_sq
proof (rule runs_to_mono [OF regmem_coop [OF assms(1-5)]], elim exE conjE)
  fix r t vs
  assume t: "reg_done s d gaddr len vs t"
  let ?nd = "reg_node gaddr len vs" and ?p = "next_ptr s"
  have d: "valid_dev d" using assms(3) by (simp add: reg_ready_def)
  have wf: "node_wf ?nd" using t by (intro reg_node_wf [OF assms(5) _ assms(6)]) (simp add: reg_done_def)
  have ent: "reg_entries t d = (?p, ?nd) # reg_entries s d" using t by (simp add: reg_done_def)
  have "node_covers gaddr len ?nd" by (simp add: node_covers_def reg_node_def)
  then have cov: "covering t d gaddr len = Some (?p, ?nd)" using ent by (simp add: covering_def)
  have dist: "addrs_distinct t d" using assms(7,8) ent by (simp add: addrs_distinct_def reg_node_def)
  have len: "length vs = unat (mmap_count ?nd)" using t by (simp add: reg_done_def reg_node_def)
  have fresh: "?p \<notin> fst ` set (reg_entries s d)"
    using fresh_not_listed [OF assms(2) d] by (simp add: reg_entries_ptrs)
  have restored: "filter (\<lambda>e. fst e \<noteq> ?p) (reg_entries t d) = reg_entries s d"
    using ent fresh by (auto simp: rev_image_eqI intro!: filter_True)
  show "runs_to (fgds_deregmem os d gaddr len) t (\<lambda>r t. reg_inv t \<and>
    (\<forall>e. valid_dev e \<longrightarrow> reg_entries t e = reg_entries s e) \<and> node_heap t (next_ptr s) = None \<and>
    (\<exists>c. calls t = calls s @ c \<and> maps_of c = unmaps_of c))"
  proof (rule runs_to_mono [OF deregmem_spec [OF _ _ _ cov _ wf dist]])
    fix r' u
    assume u: "reg_removed t d ?p ?nd r' u"
    then obtain rc where "calls u = calls t @ unreg_calls (g_dev_ctx t (nat d)) ?nd rc [0..<unat (mmap_count ?nd)]"
      by (auto simp: reg_removed_def)
    with t have c: "calls u = calls s @ (reg_calls ((g_dev_ctx s (nat d))\<lparr>device_id := d\<rparr>) ?nd @
        unreg_calls (g_dev_ctx t (nat d)) ?nd rc [0..<unat (mmap_count ?nd)])" by (simp add: reg_done_def)
    have "vaddrs ?nd = vs" by (simp add: reg_node_def)
    then have bal: "maps_of (reg_calls ((g_dev_ctx s (nat d))\<lparr>device_id := d\<rparr>) ?nd @
        unreg_calls (g_dev_ctx t (nat d)) ?nd rc [0..<unat (mmap_count ?nd)]) =
      unmaps_of (reg_calls ((g_dev_ctx s (nat d))\<lparr>device_id := d\<rparr>) ?nd @
        unreg_calls (g_dev_ctx t (nat d)) ?nd rc [0..<unat (mmap_count ?nd)])"
      using len by (simp add: reg_calls_maps unreg_calls_maps)
    have "reg_entries u e = reg_entries s e" if "valid_dev e" for e
      using that u t restored by (cases "e = d") (auto simp: reg_removed_def reg_done_def)
    then show "reg_inv u \<and> (\<forall>e. valid_dev e \<longrightarrow> reg_entries u e = reg_entries s e) \<and> node_heap u (next_ptr s) = None \<and>
      (\<exists>c. calls u = calls s @ c \<and> maps_of c = unmaps_of c)"
      using u c bal by (auto simp: reg_removed_def)
  qed (use t assms(4) in \<open>simp_all add: reg_done_def, simp_all add: reg_node_def\<close>)
qed

lemma open_lib_entries: "addrs_distinct open_lib 0" "reg_entries open_lib 0 = []"
  by (simp_all add: addrs_distinct_def reg_entries_def entries_at_def dev_ptrs_def open_lib_def ctx_init_def)

theorem regmem_deregmem_roundtrip_witness:
  "runs_to (sq (fgds_regmem sim_os 0 0x10000000 0x50000000) (fgds_deregmem sim_os 0 0x10000000 0x50000000)) open_lib
    (\<lambda>r t. reg_inv t \<and> (\<forall>e. valid_dev e \<longrightarrow> reg_entries t e = reg_entries open_lib e) \<and>
      node_heap t (next_ptr open_lib) = None \<and> (\<exists>c. calls t = calls open_lib @ c \<and> maps_of c = unmaps_of c))"
  by (rule regmem_deregmem_roundtrip [OF open_lib_ok(5,1-4) _ open_lib_entries(1)]) (simp_all add: open_lib_entries)

text \<open>
  C19. Deregistering the older of two buffers at one address corrupts the list. \<open>delete_fgds_mmap_node\<close> looks for the GPU
  address, not the node. When a buffer is to be deregistered and a newer node of the device starts at the same
  address, \<open>fgds_deregmem\<close> unmaps the pieces of the buffer and frees its node \<open>p\<close>, but unlinks the newer node \<open>q\<close>: \<open>q\<close> stays
  allocated and is on no list, \<open>p\<close> is freed and still linked, and every later search that is not answered by a node in
  front of \<open>p\<close> reads freed memory. This holds in every environment and for any other buffers on the list.
\<close>

theorem same_address_use_after_free:
  assumes "reg_inv s" and "reg_ready s d" and "initialized (g_dev_ctx s (nat d))"
    and "reg_entries s d = es1 @ (q, qd) # es2 @ (p, nd) # es3"
    and "gpu_addr qd = gpu_addr nd" and "\<forall>e\<in>set es1. gpu_addr (snd e) \<noteq> gpu_addr nd"
    and "covering s d gaddr len = Some (p, nd)" and "node_length nd = len" and "node_wf nd"
  shows "runs_to (fgds_deregmem os d gaddr len) s (\<lambda>r t. node_heap t p = None \<and>
    holds_node t q qd \<and> (\<forall>e. valid_dev e \<longrightarrow> q \<notin> set (dev_ptrs t e)) \<and>
    (\<exists>rc. calls t = calls s @ unreg_calls (g_dev_ctx s (nat d)) nd rc [0..<unat (mmap_count nd)]) \<and>
    (\<forall>a n. find_fgds_mmap_node d a n t = (case List.find (node_covers a n \<circ> snd) (es1 @ es2) of
       None \<Rightarrow> Inl Use_After_Free | Some e \<Rightarrow> Inr (Some (fst e), t))))" (is "runs_to _ _ ?Q")
proof -
  have d: "valid_dev d" using assms(2) by (simp add: reg_ready_def)
  have ent: "(p, nd) \<in> set (reg_entries s d)" using assms(4) by simp
  have rem: "remove_first (\<lambda>e. gpu_addr (snd e) = gpu_addr nd) (reg_entries s d) = es1 @ es2 @ (p, nd) # es3"
    unfolding assms(4) using assms(5,6) by (simp add: remove_first_append)
  show ?thesis
  proof (rule deregmem_run [OF assms(1) d assms(7-9)], rule runs_to_mono [OF reg.delete_law [OF assms(1,2) ent]], elim conjE, intro conjI)
    fix r u
    assume u: "reg_inv u" "reg_ready u d" "reg_rest u = reg_rest s" "\<forall>q m. holds_node s q m \<longrightarrow> holds_node u q m"
      "reg_entries u d = remove_first (\<lambda>e. gpu_addr (snd e) = gpu_addr nd) (reg_entries s d)"
      "\<forall>e. valid_dev e \<longrightarrow> e \<noteq> d \<longrightarrow> reg_entries u e = reg_entries s e"
    note rest = reg_rest_ctx [OF u(3)]
    have tr: "unreg_calls (g_dev_ctx u (nat d)) nd rc js = unreg_calls (g_dev_ctx s (nat d)) nd rc js" for rc js
      by (rule unreg_calls_cong) (simp_all add: rest)
    have hq: "holds_node u q qd" using u(4) reg.entries_hold [OF assms(1) d, of q qd] assms(4) by simp
    have other: "q \<notin> set (dev_ptrs u e)" if "valid_dev e" "e \<noteq> d" for e
    proof -
      have "q \<in> set (dev_ptrs s d)" using assms(4) by (simp flip: reg_entries_ptrs(1))
      moreover have "dev_ptrs u e = dev_ptrs s e" using u(6) that reg_entries_ptrs(2) by metis
      ultimately show ?thesis using reg_inv_disjoint [OF assms(1) d that(1)] that(2) by auto
    qed
    have "distinct (map fst (reg_entries s d))" by (rule reg.entries_distinct [OF assms(1) d])
    then have q: "q \<notin> set (map fst (es1 @ es2))" "q \<noteq> p" using assms(4) by auto
    have ini: "initialized (g_dev_ctx u (nat d))" using assms(3) rest by simp
    have ents: "reg_entries u d = (es1 @ es2) @ (p, nd) # es3" using u(5) rem by simp
    show "runs_to (bnd (load_node p) (\<lambda>mn.
      bnd (dereg_loop os d mn [0..<unat (mmap_count mn)] 0 0) (\<lambda>r. sq (free_node p) (ret r)))) u ?Q"
    proof (rule runs_to_mono [OF free_linked [OF u(1) d ents assms(9) ini]], elim conjE, intro conjI)
      fix t :: "'a lib"
      assume t: "node_heap t = (node_heap u)(p := None)" "dev_ptrs t d = map fst (es1 @ es2)"
        "\<forall>e. valid_dev e \<longrightarrow> e \<noteq> d \<longrightarrow> dev_ptrs t e = dev_ptrs u e"
      show "node_heap t p = None" using t(1) by simp
      show "holds_node t q qd" using hq t(1) q(2) by (simp add: holds_node_def)
      show "\<forall>e. valid_dev e \<longrightarrow> q \<notin> set (dev_ptrs t e)" using t(2,3) q(1) other by metis
    qed (unfold tr rest, assumption+)
  qed simp
qed

text \<open>The program that registers 128 KB and then 64 KB at one address is in such a state.\<close>

definition twin_node :: "u64 \<Rightarrow> u64 \<Rightarrow> nat option \<Rightarrow> fgds_mmap_node" where
  "twin_node v len nx = \<lparr>vaddrs = [v], mmap_count = 1, gpu_addr = 0x10000000, node_length = len,
     length_left = len, is_mapped = True, next_node = nx\<rparr>"

definition twin_lib :: "sim_world lib" where
  "twin_lib = open_lib\<lparr>
     g_dev_ctx := (\<lambda>_. ctx_init)(0 := ctx_init\<lparr>dev_fd := 3, initialized := True, head := Some 1\<rparr>),
     node_heap := [0 \<mapsto> twin_node 0x7f0000000000 0x20000 None, 1 \<mapsto> twin_node 0x7f0000020000 0x10000 (Some 0)],
     next_ptr := 2, vaddrs_live := 2, world := sim_world_init\<lparr>sim_va := 0x7f0000030000\<rparr>,
     calls := [C_mmap 0x20000 3 (Some 0x7f0000000000),
       C_ioctl 3 FGDS_IOCTL_MAP (map_param ctx_init 0x10000000 0x7f0000000000 0x20000) 0,
       C_mmap 0x10000 3 (Some 0x7f0000020000),
       C_ioctl 3 FGDS_IOCTL_MAP (map_param ctx_init 0x10000000 0x7f0000020000 0x10000) 0]\<rparr>"

lemma twin_lib_reached:
  "sq (fgds_regmem sim_os 0 0x10000000 0x20000) (fgds_regmem sim_os 0 0x10000000 0x10000) open_lib =
     Inr ((0, Some 0x7f0000020000), twin_lib)"
  by (simp add: run sys_defs lock_defs twin_lib_def twin_node_def open_lib_def lib_init_def ctx_init_def sim_os_def sim_world_init_def
      int_of_size_def regmem_len_def map_param_def Let_def fun_eq_iff)

lemma twin_lib_reg:
  "reg_inv twin_lib" "reg_entries twin_lib 0 = [(1, twin_node 0x7f0000020000 0x10000 None), (0, twin_node 0x7f0000000000 0x20000 None)]"
proof -
  define P :: "int \<Rightarrow> nat list" where "P d = (if d = 0 then [1, 0] else [])" for d
  have 1: "chain (node_heap twin_lib) (head (g_dev_ctx twin_lib (nat d))) (P d)" if "valid_dev d" for d
    using that by (auto simp: P_def twin_lib_def open_lib_def lib_init_def ctx_init_def twin_node_def)
  have 2: "set (P d) \<inter> set (P e) = {}" if "valid_dev d" "valid_dev e" "d \<noteq> e" for d e
    using that by (auto simp: P_def)
  have 3: "p < next_ptr twin_lib" if "node_heap twin_lib p \<noteq> None" for p
    using that by (auto simp: twin_lib_def split: if_splits)
  note I = reg_invI [of twin_lib P, OF 1 2 3]
  show "reg_inv twin_lib" by (rule I(1))
  show "reg_entries twin_lib 0 = [(1, twin_node 0x7f0000020000 0x10000 None), (0, twin_node 0x7f0000000000 0x20000 None)]"
    using I(2) [of 0] by (simp add: P_def reg_entries_def entries_at_def twin_lib_def payload_def twin_node_def)
qed

theorem same_address_use_after_free_witness:
  "sq (fgds_regmem sim_os 0 0x10000000 0x20000) (fgds_regmem sim_os 0 0x10000000 0x10000) open_lib =
     Inr ((0, Some 0x7f0000020000), twin_lib) \<and>
   runs_to (fgds_deregmem sim_os 0 0x10000000 0x20000) twin_lib (\<lambda>r t. node_heap t 0 = None \<and>
     find_fgds_mmap_node 0 0x10000000 0x1000 t = Inl Use_After_Free)"
proof (intro conjI twin_lib_reached, rule runs_to_mono [OF same_address_use_after_free [of twin_lib 0 "[]" 1 "twin_node 0x7f0000020000 0x10000 None" "[]" 0
      "twin_node 0x7f0000000000 0x20000 None" "[]"]])
  show "reg_ready twin_lib 0" "initialized (g_dev_ctx twin_lib (nat 0))"
    by (simp_all add: twin_lib_def ctx_init_def reg_ready_def)
  show "covering twin_lib 0 0x10000000 0x20000 = Some (0, twin_node 0x7f0000000000 0x20000 None)"
    by (simp add: covering_def twin_lib_reg(2)) (simp add: node_covers_def twin_node_def)
  show "node_wf (twin_node 0x7f0000000000 0x20000 None)" by (simp add: node_wf_def twin_node_def)
qed (simp_all add: twin_lib_reg, simp_all add: twin_node_def)

text \<open>
  A buffer of length zero passes the alignment check, is registered with no piece, and the
  first entry of its empty address array is then read.
\<close>

theorem regmem_zero_length:
  "fgds_regmem sim_os 0 0x10000000 0 open_lib = Inl Uninitialised"
  by (simp add: run sys_defs lock_defs open_lib_def lib_init_def ctx_init_def sim_os_def sim_world_init_def
      int_of_size_def Let_def)

text \<open>
  The check of \<open>initialized\<close> does not catch a closed device. \<open>fgds_close\<close> leaves the flag set, so
  \<open>fgds_regmem\<close> on a device that was closed maps and binds the buffer through the stale descriptor
  and then locks a destroyed mutex.
\<close>

theorem regmem_after_close:
  "sq (fgds_close sim_os 0) (fgds_regmem sim_os 0 0x10000000 0x10000) open_lib = Inl Bad_Mutex"
  by (simp add: run sys_defs lock_defs open_lib_def lib_init_def ctx_init_def sim_os_def sim_world_init_def
      int_of_size_def regmem_len_def map_param_def Let_def)

end
