(* ===== verification/Fgds_IO.thy ===== *)
theory Fgds_IO
  imports Fgds_Regmem "HOL-Library.Multiset"
begin

text \<open>
  Reading and writing: \<open>fgds_read_direct\<close>, \<open>fgds_read\<close>, \<open>fgds_write_direct\<close> and \<open>fgds_write\<close> of
  libfgds/fgds.cc. Small transfers are one \<open>pread\<close> or \<open>pwrite\<close> per address range; large ones are
  cut into requests of 256 KB that are queued on the device's io_uring ring in batches of at
  most 256 and reaped before the next batch.

  The bodies of \<open>fgds_read\<close> and \<open>fgds_write\<close> differ in the kind of request and the threshold only;
  the phases they share are one definition each, with the kind of request as a parameter.
\<close>

section \<open>Direct transfers\<close>

fun read_direct_loop :: "'w os \<Rightarrow> int \<Rightarrow> s64 \<Rightarrow> xfer_addr list \<Rightarrow> s64 \<Rightarrow> ('w lib, s64) prog" where
  "read_direct_loop os f f_offset [] tot = sq free_xfer (ret tot)"
| "read_direct_loop os f f_offset (x # xs) tot =
     bnd (sys_pread os f (target_addr x) (nbyte x) (f_offset + tot)) (\<lambda>r.
     if r \<noteq> nbyte x \<and> sint r < 0 then sq free_xfer (ret (-1))
     else read_direct_loop os f f_offset xs (tot + r))"

definition fgds_read_direct :: "'w os \<Rightarrow> fgds_fileid \<Rightarrow> u64 \<Rightarrow> s64 \<Rightarrow> s64 \<Rightarrow> s64 \<Rightarrow> ('w lib, s64) prog" where
  "fgds_read_direct os fid gpu_buf buf_offset n f_offset =
     bnd (fgds_do_xfer_addr os (deviceID fid) gpu_buf buf_offset n) (\<lambda>x. case x of
       None \<Rightarrow> ret (-1)
     | Some xs \<Rightarrow> read_direct_loop os (fd fid) f_offset xs 0)"

text \<open>The result of \<open>pwrite\<close> is kept in an \<open>int\<close>, which is then compared as a \<open>size_t\<close>.\<close>

fun write_direct_loop :: "'w os \<Rightarrow> int \<Rightarrow> s64 \<Rightarrow> xfer_addr list \<Rightarrow> u64 \<Rightarrow> ('w lib, s64) prog" where
  "write_direct_loop os f f_offset [] tot = sq free_xfer (ret tot)"
| "write_direct_loop os f f_offset (x # xs) tot =
     bnd (sys_pwrite os f (target_addr x) (nbyte x) (f_offset + tot)) (\<lambda>r.
     if scast (ucast r :: u32) \<noteq> nbyte x then sq free_xfer (ret (-1))
     else write_direct_loop os f f_offset xs (tot + nbyte x))"

definition fgds_write_direct :: "'w os \<Rightarrow> fgds_fileid \<Rightarrow> u64 \<Rightarrow> s64 \<Rightarrow> s64 \<Rightarrow> s64 \<Rightarrow> ('w lib, s64) prog" where
  "fgds_write_direct os fid gpu_buf buf_offset n f_offset =
     bnd (fgds_do_xfer_addr os (deviceID fid) gpu_buf buf_offset n) (\<lambda>x. case x of
       None \<Rightarrow> ret (-1)
     | Some xs \<Rightarrow> write_direct_loop os (fd fid) f_offset xs 0)"

section \<open>The io_uring pipeline\<close>

text \<open>The ring of a device is set up on first use, under its lock; false when that fails.\<close>

definition ring_setup :: "'w os \<Rightarrow> int \<Rightarrow> ('w lib, bool) prog" where
  "ring_setup os d = bnd (dev_ctx d) (\<lambda>b.
     if uring_init b then ret True
     else sq (acquire_uring_lock d) (bnd (dev_ctx d) (\<lambda>b.
       if uring_init b then sq (release_uring_lock d) (ret True)
       else bnd (io_uring_queue_init os d) (\<lambda>r.
         if r < 0 then sq (release_uring_lock d) (ret False)
         else sq (upd_ctx d (\<lambda>b. b\<lparr>uring_init := True\<rparr>)) (sq (release_uring_lock d) (ret True))))))"

text \<open>One request per address range; returns the number of requests queued and an error flag.\<close>

fun prep_loop :: "'w os \<Rightarrow> io_op \<Rightarrow> fgds_fileid \<Rightarrow> xfer_addr list \<Rightarrow> s64 \<Rightarrow> nat \<Rightarrow> ('w lib, nat \<times> bool) prog" where
  "prep_loop os op fid [] sub_f_off sqe_count = ret (sqe_count, False)"
| "prep_loop os op fid (x # xs) sub_f_off sqe_count =
     bnd (io_uring_get_sqe os (deviceID fid)) (\<lambda>ok.
     if \<not> ok then sq free_xfer (ret (sqe_count, True))
     else sq (io_uring_prep os (deviceID fid) op (fd fid) (target_addr x) (ucast (nbyte x)) sub_f_off)
       (prep_loop os op fid xs (sub_f_off + nbyte x) (Suc sqe_count)))"

definition sub_size :: "u64 \<Rightarrow> u64 \<Rightarrow> u64 \<Rightarrow> u64" where
  "sub_size n dn batch_bytes =
     (if n < dn + batch_bytes + FGDS_SUB_IO_SIZE then n - dn - batch_bytes else FGDS_SUB_IO_SIZE)"

text \<open>
  Phase 1, filling the submission queue; \<open>dn\<close> is \<open>done\<close>. It returns the number of requests, the
  bytes of the batch and the error flag. Every round that continues queues at least one request, so
  256 rounds are enough.
\<close>

fun fill_loop :: "nat \<Rightarrow> 'w os \<Rightarrow> io_op \<Rightarrow> fgds_fileid \<Rightarrow> u64 \<Rightarrow> s64 \<Rightarrow> u64 \<Rightarrow> s64 \<Rightarrow> u64 \<Rightarrow> nat \<Rightarrow> u64 \<Rightarrow>
    ('w lib, nat \<times> u64 \<times> bool) prog" where
  "fill_loop fuel os op fid gpu_buf buf_offset n f_offset dn sqe_count batch_bytes =
     (if \<not> (sqe_count < FGDS_URING_QD \<and> dn + batch_bytes < n) then ret (sqe_count, batch_bytes, False)
      else if fuel = 0 then fail Diverges
      else bnd (fgds_do_xfer_addr os (deviceID fid) gpu_buf (buf_offset + dn + batch_bytes) (sub_size n dn batch_bytes)) (\<lambda>x.
        case x of
          None \<Rightarrow> ret (sqe_count, batch_bytes, True)
        | Some xs \<Rightarrow>
            if FGDS_URING_QD < sqe_count + length xs then sq free_xfer (ret (sqe_count, batch_bytes, False))
            else bnd (prep_loop os op fid xs (f_offset + dn + batch_bytes) sqe_count) (\<lambda>(sqe_count', err).
              if err then ret (sqe_count', batch_bytes, True)
              else sq free_xfer (fill_loop (fuel - 1) os op fid gpu_buf buf_offset n f_offset dn sqe_count'
                (batch_bytes + sub_size n dn batch_bytes)))))"

declare fill_loop.simps [simp del]

text \<open>Phase 3, reaping \<open>k\<close> completions: the number reaped, the new total and an error flag.\<close>

fun reap_loop :: "nat \<Rightarrow> 'w os \<Rightarrow> int \<Rightarrow> int \<Rightarrow> s64 \<Rightarrow> ('w lib, int \<times> s64 \<times> bool) prog" where
  "reap_loop 0 os d reaped tot = ret (reaped, tot, False)"
| "reap_loop (Suc k) os d reaped tot = bnd (io_uring_wait_cqe os d) (\<lambda>(r, res).
     if r < 0 then ret (reaped, tot, True)
     else if res < 0 then sq (io_uring_cqe_seen os d) (ret (reaped + 1, tot, True))
     else sq (io_uring_cqe_seen os d) (reap_loop k os d (reaped + 1) (tot + of_int res)))"

text \<open>
  The error path: first the completions already there, then those still to come. A ring of 256
  entries has a completion queue of 512, the fuel of the first loop.
\<close>

fun peek_loop :: "nat \<Rightarrow> 'w os \<Rightarrow> int \<Rightarrow> int \<Rightarrow> ('w lib, int) prog" where
  "peek_loop fuel os d reaped = bnd (io_uring_peek_cqe os d) (\<lambda>r.
     if r \<noteq> 0 then ret reaped
     else if fuel = 0 then fail Diverges
     else sq (io_uring_cqe_seen os d) (peek_loop (fuel - 1) os d (reaped + 1)))"

declare peek_loop.simps [simp del]

fun wait_rest :: "nat \<Rightarrow> 'w os \<Rightarrow> int \<Rightarrow> ('w lib, unit) prog" where
  "wait_rest 0 os d = ret ()"
| "wait_rest (Suc k) os d = bnd (io_uring_wait_cqe os d) (\<lambda>(r, res).
     if r < 0 then ret () else sq (io_uring_cqe_seen os d) (wait_rest k os d))"

definition drain :: "'w os \<Rightarrow> int \<Rightarrow> int \<Rightarrow> int \<Rightarrow> ('w lib, unit) prog" where
  "drain os d submitted reaped = bnd (peek_loop 512 os d reaped) (\<lambda>reaped'.
     wait_rest (nat (submitted - reaped')) os d)"

text \<open>
  The end of a batch: the cleanup on errors and the unlocking. The result is the new \<open>done\<close> and
  total, or nothing when the call returns -1.
\<close>

definition finish_batch :: "'w os \<Rightarrow> int \<Rightarrow> u64 \<Rightarrow> int \<Rightarrow> int \<Rightarrow> s64 \<Rightarrow> bool \<Rightarrow> ('w lib, (u64 \<times> s64) option) prog" where
  "finish_batch os d dn submitted reaped tot batch_error =
     (if batch_error \<and> 0 < submitted then
        sq (drain os d submitted reaped) (sq (release_uring_lock d) (ret None))
      else
        sq (release_uring_lock d) (if batch_error then ret None else ret (Some (dn, tot))))"

text \<open>One batch: the lock, the three phases and the end.\<close>

definition io_batch :: "'w os \<Rightarrow> io_op \<Rightarrow> fgds_fileid \<Rightarrow> u64 \<Rightarrow> s64 \<Rightarrow> u64 \<Rightarrow> s64 \<Rightarrow> u64 \<Rightarrow> s64 \<Rightarrow>
    ('w lib, (u64 \<times> s64) option) prog" where
  "io_batch os op fid gpu_buf buf_offset n f_offset dn tot =
     sq (acquire_uring_lock (deviceID fid)) (
     bnd (fill_loop FGDS_URING_QD os op fid gpu_buf buf_offset n f_offset dn 0 0) (\<lambda>(sqe_count, batch_bytes, err1).
     bnd (if \<not> err1 \<and> 0 < sqe_count then io_uring_submit os (deviceID fid) else ret 0) (\<lambda>submitted.
     bnd (if \<not> (err1 \<or> submitted < 0) then reap_loop (nat submitted) os (deviceID fid) 0 tot else ret (0, tot, False))
       (\<lambda>(reaped, tot', err3).
     finish_batch os (deviceID fid) (dn + batch_bytes) submitted reaped tot' (err1 \<or> submitted < 0 \<or> err3)))))"

text \<open>The loop over the batches. Every round adds at least one byte to \<open>done\<close>: \<open>nbyte\<close> rounds are enough.\<close>

fun io_loop :: "nat \<Rightarrow> 'w os \<Rightarrow> io_op \<Rightarrow> fgds_fileid \<Rightarrow> u64 \<Rightarrow> s64 \<Rightarrow> u64 \<Rightarrow> s64 \<Rightarrow> u64 \<Rightarrow> s64 \<Rightarrow>
    ('w lib, s64) prog" where
  "io_loop fuel os op fid gpu_buf buf_offset n f_offset dn tot =
     (if \<not> dn < n then ret tot
      else if fuel = 0 then fail Diverges
      else bnd (io_batch os op fid gpu_buf buf_offset n f_offset dn tot) (\<lambda>r. case r of
        None \<Rightarrow> ret (-1)
      | Some (dn', tot') \<Rightarrow> io_loop (fuel - 1) os op fid gpu_buf buf_offset n f_offset dn' tot'))"

declare io_loop.simps [simp del]

definition fgds_read :: "'w os \<Rightarrow> fgds_fileid \<Rightarrow> u64 \<Rightarrow> s64 \<Rightarrow> s64 \<Rightarrow> s64 \<Rightarrow> ('w lib, s64) prog" where
  "fgds_read os fid gpu_buf buf_offset n f_offset =
     (if sint n < sint FGDS_URING_READ_THRESH then fgds_read_direct os fid gpu_buf buf_offset n f_offset
      else bnd (ring_setup os (deviceID fid)) (\<lambda>ok.
        if \<not> ok then ret (-1)
        else io_loop (unat n) os Op_Read fid gpu_buf buf_offset n f_offset 0 0))"

definition fgds_write :: "'w os \<Rightarrow> fgds_fileid \<Rightarrow> u64 \<Rightarrow> s64 \<Rightarrow> s64 \<Rightarrow> s64 \<Rightarrow> ('w lib, s64) prog" where
  "fgds_write os fid gpu_buf buf_offset n f_offset =
     (if sint n < sint FGDS_URING_WRITE_THRESH then fgds_write_direct os fid gpu_buf buf_offset n f_offset
      else bnd (ring_setup os (deviceID fid)) (\<lambda>ok.
        if \<not> ok then ret (-1)
        else io_loop (unat n) os Op_Write fid gpu_buf buf_offset n f_offset 0 0))"

declare fgds_read_direct_def [run] fgds_write_direct_def [run] ring_setup_def [run] drain_def [run]
  finish_batch_def [run] io_batch_def [run] fgds_read_def [run] fgds_write_def [run]

section \<open>What a sequence of calls transfers\<close>

text \<open>
  The pairs of host address and file offset that a transfer of \<open>n\<close> bytes between \<open>a\<close> and \<open>off\<close> moves, byte
  by byte, and those that the calls of a trace move.
\<close>

definition span :: "u64 \<Rightarrow> s64 \<Rightarrow> nat \<Rightarrow> (u64 \<times> s64) list" where
  "span a off n = map (\<lambda>k. (a + of_nat k, off + of_nat k)) [0..<n]"

definition call_bytes :: "call \<Rightarrow> (u64 \<times> s64) list" where
  "call_bytes c = (case c of
     C_pread f a n off r \<Rightarrow> span a off (unat n)
   | C_pwrite f a n off r \<Rightarrow> span a off (unat n)
   | C_sqe d op f a n off \<Rightarrow> span a off (unat n)
   | _ \<Rightarrow> [])"

definition io_bytes :: "call list \<Rightarrow> (u64 \<times> s64) list" where
  "io_bytes cs = concat (map call_bytes cs)"

lemma io_bytes_simps [simp]:
  "io_bytes [] = []" "io_bytes (cs @ ds) = io_bytes cs @ io_bytes ds" "io_bytes (c # cs) = call_bytes c @ io_bytes cs"
  by (simp_all add: io_bytes_def)

lemma call_bytes_simps [simp]:
  "call_bytes (C_pread f a n off r) = span a off (unat n)" "call_bytes (C_pwrite f a n off r) = span a off (unat n)"
  "call_bytes (C_sqe d op f a m off) = span a off (unat m)" "call_bytes (C_submit d i) = []"
  "call_bytes (C_cqe d i j) = []" "call_bytes (C_peek d i) = []" "call_bytes (C_ring_init d i) = []"
  by (simp_all add: call_bytes_def)

text \<open>Bytes \<open>lo .. hi - 1\<close> of the window at offset \<open>b\<close> of a buffer, against the file from \<open>f_off\<close> on.\<close>

definition win_pairs :: "fgds_mmap_node \<Rightarrow> nat \<Rightarrow> s64 \<Rightarrow> nat \<Rightarrow> nat \<Rightarrow> (u64 \<times> s64) list" where
  "win_pairs nd b f_off lo hi = map (\<lambda>k. (host_byte nd (b + k), f_off + of_nat k)) [lo..<hi]"

lemma win_pairs_append: "lo \<le> m \<Longrightarrow> m \<le> hi \<Longrightarrow> win_pairs nd b f lo m @ win_pairs nd b f m hi = win_pairs nd b f lo hi"
  unfolding win_pairs_def by (rule upt_append_map)

lemma win_pairs_empty [simp]: "win_pairs nd b f lo lo = []"
  by (simp add: win_pairs_def)

text \<open>The transfers of a descriptor, from file offset \<open>off\<close> on.\<close>

fun seg_spans :: "xfer_addr list \<Rightarrow> s64 \<Rightarrow> (u64 \<times> s64) list" where
  "seg_spans [] off = []"
| "seg_spans (x # xs) off = span (target_addr x) off (unat (nbyte x)) @ seg_spans xs (off + nbyte x)"

lemma seg_spans_zip:
  "seg_spans xs off = zip (concat (map seg_bytes xs)) (map (\<lambda>k. off + of_nat k) [0..<length (concat (map seg_bytes xs))])"
proof (induction xs arbitrary: off)
  case (Cons x xs)
  define a m where "a = unat (nbyte x)" and "m = length (concat (map seg_bytes xs))"
  have la: "length (seg_bytes x) = a" by (simp add: seg_bytes_def a_def)
  have sp: "span (target_addr x) off a = zip (seg_bytes x) (map (\<lambda>k. off + of_nat k) [0..<a])"
    unfolding span_def seg_bytes_def a_def by (simp add: zip_map_map zip_same_conv_map)
  have "[0..<a + m] = [0..<a] @ map (\<lambda>k. a + k) [0..<m]"
    using map_add_upt [of a m] upt_add_eq_append [of 0 a m] by (simp add: add.commute)
  then have "map (\<lambda>k. off + of_nat k) [0..<a + m] =
      map (\<lambda>k. off + of_nat k) [0..<a] @ map (\<lambda>k. off + nbyte x + of_nat k) [0..<m]"
    by (simp add: a_def add.assoc)
  then show ?case using Cons.IH [of "off + nbyte x"] la sp by (simp add: a_def [symmetric] m_def [symmetric])
qed simp

lemma seg_spans_window:
  assumes "0 < n"
  shows "seg_spans (window_segs nd b n) off = map (\<lambda>k. (host_byte nd (b + k), off + of_nat k)) [0..<n]"
proof -
  have "seg_spans (window_segs nd b n) off =
      zip (map (host_byte nd) [b..<b + n]) (map (\<lambda>k. off + of_nat k) [0..<n])"
    unfolding seg_spans_zip window_segs_bytes [OF assms] by simp
  also have "[b..<b + n] = map (\<lambda>k. b + k) [0..<n]" by (simp add: map_add_upt add.commute)
  finally show ?thesis by (simp add: zip_map_map zip_same_conv_map comp_def)
qed

text \<open>The bytes of a descriptor.\<close>

fun segs_total :: "xfer_addr list \<Rightarrow> nat" where
  "segs_total [] = 0"
| "segs_total (x # xs) = unat (nbyte x) + segs_total xs"

lemma segs_total_length: "length (concat (map seg_bytes xs)) = segs_total xs"
  by (induction xs) (simp_all add: seg_bytes_def)

lemma segs_total_member: "x \<in> set xs \<Longrightarrow> unat (nbyte x) \<le> segs_total xs"
  by (induction xs) auto

lemma window_segs_total: "0 < n \<Longrightarrow> segs_total (window_segs nd b n) = n"
  using segs_total_length [of "window_segs nd b n"] window_segs_bytes [of n nd b] by simp

lemma window_segs_nbyte_le: "0 < n \<Longrightarrow> x \<in> set (window_segs nd b n) \<Longrightarrow> unat (nbyte x) \<le> n"
  using segs_total_member window_segs_total by metis

section \<open>Direct transfers are exact\<close>

lemma read_direct_loop_full:
  assumes "\<And>a m off w. fst (os_pread os f a m off w) = m" and "xfer_live s = Suc k"
    and "\<forall>x\<in>set xs. 0 \<le> sint (nbyte x)"
  shows "runs_to (read_direct_loop os f f_offset xs tot) s (\<lambda>r t. \<exists>c.
    did (s\<lparr>xfer_live := k\<rparr>) c t \<and> io_bytes c = seg_spans xs (f_offset + tot) \<and>
    r = tot + of_nat (segs_total xs))"
  using assms(2,3)
proof (induction xs arbitrary: s tot)
  case Nil
  then show ?case using did_refl [of "s\<lparr>xfer_live := k\<rparr>"] by (auto intro!: exI [of _ "[]"])
next
  case (Cons x xs)
  obtain w where r: "os_pread os f (target_addr x) (nbyte x) (f_offset + tot) (world s) = (nbyte x, w)"
    using assms(1) by (metis prod.collapse)
  let ?c = "C_pread f (target_addr x) (nbyte x) (f_offset + tot) (nbyte x)"
  let ?s = "s\<lparr>world := w, calls := calls s @ [?c]\<rparr>"
  have "runs_to (read_direct_loop os f f_offset xs (tot + nbyte x)) ?s (\<lambda>r t. \<exists>c.
    did (?s\<lparr>xfer_live := k\<rparr>) c t \<and> io_bytes c = seg_spans xs (f_offset + (tot + nbyte x)) \<and>
    r = tot + nbyte x + of_nat (segs_total xs))"
    using Cons.prems by (intro Cons.IH) auto
  then have "runs_to (read_direct_loop os f f_offset xs (tot + nbyte x)) ?s (\<lambda>r t. \<exists>c.
    did (s\<lparr>xfer_live := k\<rparr>) c t \<and> io_bytes c = seg_spans (x # xs) (f_offset + tot) \<and>
    r = tot + of_nat (segs_total (x # xs)))"
  proof (rule runs_to_mono, elim exE conjE)
    fix r t c
    assume c: "did (?s\<lparr>xfer_live := k\<rparr>) c t" "io_bytes c = seg_spans xs (f_offset + (tot + nbyte x))"
      and r: "r = tot + nbyte x + of_nat (segs_total xs)"
    have "did (s\<lparr>xfer_live := k\<rparr>) ([?c] @ c) t" using c(1) by (auto simp: did_def)
    then show "\<exists>c. did (s\<lparr>xfer_live := k\<rparr>) c t \<and> io_bytes c = seg_spans (x # xs) (f_offset + tot) \<and>
        r = tot + of_nat (segs_total (x # xs))"
      using c(2) r by (intro exI [of _ "[?c] @ c"]) (simp add: add.assoc)
  qed
  then show ?case using r by (simp add: sys_defs)
qed

lemma write_direct_loop_full:
  assumes "\<And>a m off w. fst (os_pwrite os f a m off w) = m" and "xfer_live s = Suc k"
    and "\<forall>x\<in>set xs. unat (nbyte x) < 2147483648"
  shows "runs_to (write_direct_loop os f f_offset xs tot) s (\<lambda>r t. \<exists>c.
    did (s\<lparr>xfer_live := k\<rparr>) c t \<and> io_bytes c = seg_spans xs (f_offset + tot) \<and>
    r = tot + of_nat (segs_total xs))"
  using assms(2,3)
proof (induction xs arbitrary: s tot)
  case Nil
  then show ?case using did_refl [of "s\<lparr>xfer_live := k\<rparr>"] by (auto intro!: exI [of _ "[]"])
next
  case (Cons x xs)
  obtain w where r: "os_pwrite os f (target_addr x) (nbyte x) (f_offset + tot) (world s) = (nbyte x, w)"
    using assms(1) by (metis prod.collapse)
  let ?c = "C_pwrite f (target_addr x) (nbyte x) (f_offset + tot) (nbyte x)"
  let ?s = "s\<lparr>world := w, calls := calls s @ [?c]\<rparr>"
  have int: "scast (ucast (nbyte x) :: u32) = nbyte x" using Cons.prems(2) by (intro scast_ucast_small) simp
  have "runs_to (write_direct_loop os f f_offset xs (tot + nbyte x)) ?s (\<lambda>r t. \<exists>c.
    did (?s\<lparr>xfer_live := k\<rparr>) c t \<and> io_bytes c = seg_spans xs (f_offset + (tot + nbyte x)) \<and>
    r = tot + nbyte x + of_nat (segs_total xs))"
    using Cons.prems by (intro Cons.IH) auto
  then have "runs_to (write_direct_loop os f f_offset xs (tot + nbyte x)) ?s (\<lambda>r t. \<exists>c.
    did (s\<lparr>xfer_live := k\<rparr>) c t \<and> io_bytes c = seg_spans (x # xs) (f_offset + tot) \<and>
    r = tot + of_nat (segs_total (x # xs)))"
  proof (rule runs_to_mono, elim exE conjE)
    fix r t c
    assume c: "did (?s\<lparr>xfer_live := k\<rparr>) c t" "io_bytes c = seg_spans xs (f_offset + (tot + nbyte x))"
      and r: "r = tot + nbyte x + of_nat (segs_total xs)"
    have "did (s\<lparr>xfer_live := k\<rparr>) ([?c] @ c) t" using c(1) by (auto simp: did_def)
    then show "\<exists>c. did (s\<lparr>xfer_live := k\<rparr>) c t \<and> io_bytes c = seg_spans (x # xs) (f_offset + tot) \<and>
        r = tot + of_nat (segs_total (x # xs))"
      using c(2) r by (intro exI [of _ "[?c] @ c"]) (simp add: add.assoc)
  qed
  then show ?case using r int by (simp add: sys_defs)
qed

lemma seg_spans_win_pairs:
  "0 < n \<Longrightarrow> seg_spans (window_segs nd b n) off = win_pairs nd b off 0 n"
  by (simp add: seg_spans_window win_pairs_def)

lemma in_window_small:
  assumes "node_wf nd" and "in_window nd off n"
  shows "0 < unat n" and "unat off + unat n < 2305843009213693952"
  using assms by (auto simp: in_window_def node_wf_def)

lemma did_drop_xfer: "did (s\<lparr>world := w\<rparr>) c t \<Longrightarrow> did s c t"
  by (auto simp: did_def)

lemma read_direct_spec:
  assumes "reg_inv s" and "valid_dev (deviceID fid)" and "covering s (deviceID fid) g n = Some (p, nd)"
    and "node_wf nd" and "in_window nd off n" and "os_malloc os (xfer_bytes off n) (world s) = (True, w)"
    and "\<And>a m k w. fst (os_pread os (fd fid) a m k w) = m"
  shows "runs_to (fgds_read_direct os fid g off n f_off) s (\<lambda>r t. r = n \<and>
    (\<exists>c. did s c t \<and> io_bytes c = win_pairs nd (unat off) f_off 0 (unat n)))"
proof -
  let ?xs = "window_segs nd (unat off) (unat n)"
  let ?s = "s\<lparr>world := w, xfer_live := Suc (xfer_live s)\<rparr>"
  note small = in_window_small [OF assms(4,5)]
  have "\<forall>x\<in>set ?xs. 0 \<le> sint (nbyte x)"
    using window_segs_nbyte_le [OF small(1)] small(2) by (fastforce simp: sint_nonneg_u64)
  from read_direct_loop_full [where s = ?s and k = "xfer_live s" and tot = 0 and f_offset = f_off, OF assms(7) _ this]
  have "runs_to (read_direct_loop os (fd fid) f_off ?xs 0) ?s (\<lambda>r t. \<exists>c. did (?s\<lparr>xfer_live := xfer_live s\<rparr>) c t \<and>
      io_bytes c = seg_spans ?xs (f_off + 0) \<and> r = 0 + of_nat (segs_total ?xs))" by simp
  then have "runs_to (read_direct_loop os (fd fid) f_off ?xs 0) ?s (\<lambda>r t. r = n \<and>
    (\<exists>c. did s c t \<and> io_bytes c = win_pairs nd (unat off) f_off 0 (unat n)))"
    by (rule runs_to_mono)
      (auto simp: seg_spans_win_pairs [OF small(1)] window_segs_total [OF small(1)] intro!: did_drop_xfer [where w = w])
  then show ?thesis
    using do_xfer_addr_eq [OF assms(1-6)] by (simp add: fgds_read_direct_def runs_to_def run)
qed

lemma write_direct_spec:
  assumes "reg_inv s" and "valid_dev (deviceID fid)" and "covering s (deviceID fid) g n = Some (p, nd)"
    and "node_wf nd" and "in_window nd off n" and "os_malloc os (xfer_bytes off n) (world s) = (True, w)"
    and "\<And>a m k w. fst (os_pwrite os (fd fid) a m k w) = m" and "unat n < 2147483648"
  shows "runs_to (fgds_write_direct os fid g off n f_off) s (\<lambda>r t. r = n \<and>
    (\<exists>c. did s c t \<and> io_bytes c = win_pairs nd (unat off) f_off 0 (unat n)))"
proof -
  let ?xs = "window_segs nd (unat off) (unat n)"
  let ?s = "s\<lparr>world := w, xfer_live := Suc (xfer_live s)\<rparr>"
  note small = in_window_small [OF assms(4,5)]
  have "\<forall>x\<in>set ?xs. unat (nbyte x) < 2147483648"
    using window_segs_nbyte_le [OF small(1)] assms(8) by fastforce
  from write_direct_loop_full [where s = ?s and k = "xfer_live s" and tot = 0 and f_offset = f_off, OF assms(7) _ this]
  have "runs_to (write_direct_loop os (fd fid) f_off ?xs 0) ?s (\<lambda>r t. \<exists>c. did (?s\<lparr>xfer_live := xfer_live s\<rparr>) c t \<and>
      io_bytes c = seg_spans ?xs (f_off + 0) \<and> r = 0 + of_nat (segs_total ?xs))" by simp
  then have "runs_to (write_direct_loop os (fd fid) f_off ?xs 0) ?s (\<lambda>r t. r = n \<and>
    (\<exists>c. did s c t \<and> io_bytes c = win_pairs nd (unat off) f_off 0 (unat n)))"
    by (rule runs_to_mono)
      (auto simp: seg_spans_win_pairs [OF small(1)] window_segs_total [OF small(1)] intro!: did_drop_xfer [where w = w])
  then show ?thesis
    using do_xfer_addr_eq [OF assms(1-6)] by (simp add: fgds_write_direct_def runs_to_def run)
qed

section \<open>The ring\<close>

text \<open>
  What the pipeline relies on of liburing and the kernel, for a ring that transfers every request in
  full. \<open>sqf\<close> are the lengths of the requests prepared and not submitted, \<open>flight\<close> those submitted and
  not yet consumed: a request can be obtained while fewer than 256 are prepared; submission takes
  them all; a wait, when something is in flight, returns some completion, in any order, and marking
  it seen consumes it. The last two clauses are about allocation, which does not concern the ring,
  and about setting it up.
\<close>

definition ring_laws :: "'w os \<Rightarrow> int \<Rightarrow> ('w \<Rightarrow> u32 list) \<Rightarrow> ('w \<Rightarrow> u32 multiset) \<Rightarrow> bool" where
  "ring_laws os d sqf flight \<longleftrightarrow>
     (\<forall>w. length (sqf w) < FGDS_URING_QD \<longrightarrow>
        (\<exists>w'. ring_get_sqe os d w = (True, w') \<and> sqf w' = sqf w \<and> flight w' = flight w)) \<and>
     (\<forall>w op f a n off. sqf (ring_prep_rw os d op f a n off w) = sqf w @ [n] \<and>
        flight (ring_prep_rw os d op f a n off w) = flight w) \<and>
     (\<forall>w. \<exists>w'. ring_submit os d w = (int (length (sqf w)), w') \<and> sqf w' = [] \<and> flight w' = flight w + mset (sqf w)) \<and>
     (\<forall>w. flight w \<noteq> {#} \<longrightarrow> (\<exists>n w'. n \<in># flight w \<and> ring_wait_cqe os d w = ((0, uint n), w') \<and>
        sqf (ring_cqe_seen os d w') = sqf w \<and> flight (ring_cqe_seen os d w') = flight w - {#n#})) \<and>
     (\<forall>k w. \<exists>w'. os_malloc os k w = (True, w') \<and> sqf w' = sqf w \<and> flight w' = flight w) \<and>
     (\<forall>w. \<exists>w'. ring_queue_init os d w = (0, w') \<and> sqf w' = [] \<and> flight w' = {#})"

lemma prep_loop_spec:
  assumes "ring_laws os (deviceID fid) sqf flight" and "length (sqf (world s)) + length xs \<le> FGDS_URING_QD"
    and "\<forall>x\<in>set xs. unat (nbyte x) < 4294967296"
  shows "runs_to (prep_loop os op fid xs off sqe) s (\<lambda>r t. r = (sqe + length xs, False) \<and> (\<exists>c. did s c t \<and>
    io_bytes c = seg_spans xs off \<and> sqf (world t) = sqf (world s) @ map (\<lambda>x. ucast (nbyte x)) xs \<and> flight (world t) = flight (world s)))"
  using assms(2,3)
proof (induction xs arbitrary: s off sqe)
  case Nil
  then show ?case using did_refl [of s] by (auto intro!: exI [of _ "[]"])
next
  case (Cons x xs)
  have len: "length (sqf (world s)) < FGDS_URING_QD" using Cons.prems by simp
  obtain w where g: "ring_get_sqe os (deviceID fid) (world s) = (True, w)" "sqf w = sqf (world s)" "flight w = flight (world s)"
    using assms(1) len unfolding ring_laws_def by blast
  define w' where "w' = ring_prep_rw os (deviceID fid) op (fd fid) (target_addr x) (ucast (nbyte x)) off w"
  have w': "sqf w' = sqf (world s) @ [ucast (nbyte x)]" "flight w' = flight (world s)"
    using assms(1) g unfolding ring_laws_def w'_def by auto
  have nb: "unat (ucast (nbyte x) :: u32) = unat (nbyte x)" using Cons.prems by (simp add: unat_ucast_u32)
  let ?c = "C_sqe (deviceID fid) op (fd fid) (target_addr x) (ucast (nbyte x)) off"
  let ?s = "s\<lparr>world := w', calls := calls s @ [?c]\<rparr>"
  have "runs_to (prep_loop os op fid xs (off + nbyte x) (Suc sqe)) ?s (\<lambda>r t. r = (Suc sqe + length xs, False) \<and> (\<exists>c. did ?s c t \<and>
    io_bytes c = seg_spans xs (off + nbyte x) \<and> sqf (world t) = sqf (world ?s) @ map (\<lambda>x. ucast (nbyte x)) xs \<and> flight (world t) = flight (world ?s)))"
    using Cons.prems w' by (intro Cons.IH) simp_all
  then have "runs_to (prep_loop os op fid xs (off + nbyte x) (Suc sqe)) ?s (\<lambda>r t. r = (sqe + length (x # xs), False) \<and> (\<exists>c. did s c t \<and>
    io_bytes c = seg_spans (x # xs) off \<and> sqf (world t) = sqf (world s) @ map (\<lambda>x. ucast (nbyte x)) (x # xs) \<and> flight (world t) = flight (world s)))"
  proof (rule runs_to_mono, elim exE conjE)
    fix r t c
    assume "did ?s c t" "io_bytes c = seg_spans xs (off + nbyte x)" "r = (Suc sqe + length xs, False)"
      "sqf (world t) = sqf (world ?s) @ map (\<lambda>x. ucast (nbyte x)) xs" "flight (world t) = flight (world ?s)"
    then show "r = (sqe + length (x # xs), False) \<and> (\<exists>c. did s c t \<and> io_bytes c = seg_spans (x # xs) off \<and>
        sqf (world t) = sqf (world s) @ map (\<lambda>x. ucast (nbyte x)) (x # xs) \<and> flight (world t) = flight (world s))"
      using did_step [where s = s and w = w' and c = "[?c]" and c' = c and u = t] w' nb by (auto intro!: exI [of _ "[?c] @ c"])
  qed
  then show ?case using g(1) by (simp add: ring_defs w'_def)
qed

lemma of_int_uint: "(of_int (uint (n::u32)) :: u64) = of_nat (unat n)"
  by (metis of_int_of_nat_eq of_nat_unat)

lemma reap_loop_spec:
  assumes "ring_laws os d sqf flight" and "size (flight (world s)) = k"
  shows "runs_to (reap_loop k os d reaped tot) s (\<lambda>r t.
    r = (reaped + int k, tot + of_nat (\<Sum>n\<in>#flight (world s). unat n), False) \<and>
    (\<exists>c. did s c t \<and> io_bytes c = []) \<and> sqf (world t) = sqf (world s) \<and> flight (world t) = {#})"
  using assms(2)
proof (induction k arbitrary: s reaped tot)
  case 0
  then show ?case using did_refl [of s] by (auto intro!: exI [of _ "[]"])
next
  case (Suc k)
  then have "flight (world s) \<noteq> {#}" by auto
  then obtain n w where n: "n \<in># flight (world s)" "ring_wait_cqe os d (world s) = ((0, uint n), w)"
      "sqf (ring_cqe_seen os d w) = sqf (world s)" "flight (ring_cqe_seen os d w) = flight (world s) - {#n#}"
    using assms(1) unfolding ring_laws_def by meson
  define w' where "w' = ring_cqe_seen os d w"
  let ?s = "s\<lparr>calls := calls s @ [C_cqe d 0 (uint n)], world := w'\<rparr>"
  have sz: "size (flight (world ?s)) = k" using n Suc.prems by (simp add: w'_def size_Diff_singleton)
  have sum: "(\<Sum>n\<in>#flight (world s). unat n) = unat n + (\<Sum>n\<in>#flight w'. unat n)"
    using n(1,4) by (metis insert_DiffM image_mset_add_mset sum_mset.add_mset w'_def)
  have tot: "tot + of_int (uint n) + of_nat (\<Sum>n\<in>#flight w'. unat n) = tot + of_nat (\<Sum>n\<in>#flight (world s). unat n)"
    unfolding sum by (simp add: of_int_uint add.assoc)
  have "runs_to (reap_loop k os d (reaped + 1) (tot + of_int (uint n))) ?s (\<lambda>r t.
    r = (reaped + 1 + int k, tot + of_int (uint n) + of_nat (\<Sum>n\<in>#flight (world ?s). unat n), False) \<and>
    (\<exists>c. did ?s c t \<and> io_bytes c = []) \<and> sqf (world t) = sqf (world ?s) \<and> flight (world t) = {#})"
    by (rule Suc.IH [OF sz])
  then have "runs_to (reap_loop k os d (reaped + 1) (tot + of_int (uint n))) ?s (\<lambda>r t.
    r = (reaped + int (Suc k), tot + of_nat (\<Sum>n\<in>#flight (world s). unat n), False) \<and>
    (\<exists>c. did s c t \<and> io_bytes c = []) \<and> sqf (world t) = sqf (world s) \<and> flight (world t) = {#})"
  proof (rule runs_to_mono, elim exE conjE)
    fix r t c
    assume "did ?s c t" "io_bytes c = []" "sqf (world t) = sqf (world ?s)" "flight (world t) = {#}"
      and r: "r = (reaped + 1 + int k, tot + of_int (uint n) + of_nat (\<Sum>n\<in>#flight (world ?s). unat n), False)"
    moreover have "did s ([C_cqe d 0 (uint n)] @ c) t" using calculation(1) by (auto simp: did_def)
    ultimately show "r = (reaped + int (Suc k), tot + of_nat (\<Sum>n\<in>#flight (world s). unat n), False) \<and>
      (\<exists>c. did s c t \<and> io_bytes c = []) \<and> sqf (world t) = sqf (world s) \<and> flight (world t) = {#}"
      using tot n(3) by (auto simp: w'_def intro!: exI [of _ "[C_cqe d 0 (uint n)] @ c"])
  qed
  then show ?case using n(2) by (simp add: ring_defs w'_def)
qed

section \<open>Filling the queue\<close>

text \<open>
  The setting of a pipeline call: a well-formed registry in which the range that starts at the buffer
  address is found in one and the same node for every length up to \<open>n\<close>, and a window inside it. The
  search of each request uses the length of that request, so the node must be found for all of them.
\<close>

definition pipe_ok :: "'w lib \<Rightarrow> int \<Rightarrow> u64 \<Rightarrow> u64 \<Rightarrow> nat \<Rightarrow> fgds_mmap_node \<Rightarrow> s64 \<Rightarrow> bool" where
  "pipe_ok s d g n p nd off \<longleftrightarrow> reg_inv s \<and> valid_dev d \<and> node_wf nd \<and> in_window nd off n \<and>
     (\<forall>m. 0 < m \<longrightarrow> m \<le> n \<longrightarrow> covering s d g m = Some (p, nd))"

lemma pipe_ok_did: "did s c t \<Longrightarrow> pipe_ok t d g n p nd off = pipe_ok s d g n p nd off"
  by (simp add: pipe_ok_def did_same covering_def)

lemma sub_request:
  assumes "pipe_ok s d g n p nd off" and "unat dn + unat b < unat n"
  shows "unat (sub_size n dn b) = min 262144 (unat n - unat dn - unat b)"
    and "unat (off + dn + b) = unat off + unat dn + unat b"
    and "unat (f + dn + b) = unat (f + of_nat (unat dn + unat b))"
    and "in_window nd (off + dn + b) (sub_size n dn b)"
    and "0 < sub_size n dn b" and "sub_size n dn b \<le> n"
    and "unat (b + sub_size n dn b) = unat b + unat (sub_size n dn b)"
proof -
  have win: "node_wf nd" "in_window nd off n" using assms(1) by (auto simp: pipe_ok_def)
  note small = in_window_small [OF win]
  define N D b' where "N = unat n" and "D = unat dn" and "b' = unat b"
  have lt: "D + b' < N" "N < 2305843009213693952" using assms(2) small(2) by (simp_all add: N_def D_def b'_def)
  have db: "unat (dn + b) = D + b'" unfolding D_def b'_def by (rule unat_add_no_wrap) (use lt in \<open>simp add: D_def b'_def\<close>)
  have dbs: "unat (dn + b + FGDS_SUB_IO_SIZE) = D + b' + 262144"
    using unat_add_no_wrap [of "dn + b" FGDS_SUB_IO_SIZE] db lt by simp
  have "dn \<le> n" using lt by (simp add: word_le_nat_alt N_def D_def)
  then have nd1: "unat (n - dn) = N - D" by (simp add: unat_sub_no_wrap N_def D_def)
  moreover have "b \<le> n - dn" unfolding word_le_nat_alt nd1 using lt by (simp add: b'_def)
  ultimately have nd2: "unat (n - dn - b) = N - D - b'" by (simp add: unat_sub_no_wrap b'_def)
  show sub: "unat (sub_size n dn b) = min 262144 (unat n - unat dn - unat b)"
    unfolding sub_size_def using dbs nd2 lt by (auto simp: word_less_nat_alt N_def D_def b'_def)
  have off: "unat off + N < 2305843009213693952" using small(2) by (simp add: N_def)
  have "unat (off + dn) = unat off + D" unfolding D_def by (rule unat_add_no_wrap) (use off lt in \<open>simp add: D_def\<close>)
  then show obd: "unat (off + dn + b) = unat off + unat dn + unat b"
    using unat_add_no_wrap [of "off + dn" b] off lt by (simp add: D_def b'_def)
  show "unat (f + dn + b) = unat (f + of_nat (unat dn + unat b))" by (simp add: add.assoc)
  show "0 < sub_size n dn b" unfolding word_less_nat_alt sub using lt by (simp add: N_def D_def b'_def)
  show "sub_size n dn b \<le> n" unfolding word_le_nat_alt sub by simp
  show "unat (b + sub_size n dn b) = unat b + unat (sub_size n dn b)"
    by (rule unat_add_no_wrap) (use sub lt in \<open>simp add: N_def D_def b'_def\<close>)
  show "in_window nd (off + dn + b) (sub_size n dn b)"
    unfolding in_window_def sint_nonneg_u64 obd sub
    using win(2) lt off by (auto simp: in_window_def N_def D_def b'_def)
qed

lemma sub_request_xfer:
  assumes "pipe_ok s (deviceID fid) g n p nd off" and "unat dn + unat b < unat n"
    and "ring_laws os (deviceID fid) sqf flight"
  shows "\<exists>w xs. fgds_do_xfer_addr os (deviceID fid) g (off + dn + b) (sub_size n dn b) s =
      Inr (Some xs, s\<lparr>world := w, xfer_live := Suc (xfer_live s)\<rparr>) \<and>
    sqf w = sqf (world s) \<and> flight w = flight (world s) \<and> (length xs = 1 \<or> length xs = 2) \<and>
    segs_total xs = unat (sub_size n dn b) \<and> (\<forall>x\<in>set xs. unat (nbyte x) < 4294967296) \<and>
    (\<forall>f_off. seg_spans xs (f_off + dn + b) = win_pairs nd (unat off) f_off (unat dn + unat b)
      (unat dn + unat b + unat (sub_size n dn b)))"
proof -
  note sub = sub_request [OF assms(1,2)]
  have inv: "reg_inv s" "valid_dev (deviceID fid)" "node_wf nd"
    and cov: "covering s (deviceID fid) g (sub_size n dn b) = Some (p, nd)"
    using assms(1) sub(5,6) by (auto simp: pipe_ok_def)
  obtain w where w: "os_malloc os (xfer_bytes (off + dn + b) (sub_size n dn b)) (world s) = (True, w)"
      "sqf w = sqf (world s)" "flight w = flight (world s)"
    using assms(3) unfolding ring_laws_def by meson
  let ?o = "unat (off + dn + b)" and ?m = "unat (sub_size n dn b)"
  let ?xs = "window_segs nd ?o ?m"
  have pos: "0 < ?m" using sub(5) by (simp add: word_less_nat_alt)
  have le: "?m \<le> 262144" using sub(1) by simp
  have two: "length ?xs = 1 \<or> length ?xs = 2"
    using window_segs_le_2 [OF pos, of nd ?o] le by (cases ?xs) (auto simp: le_Suc_eq)
  have nb: "unat (nbyte x) < 4294967296" if "x \<in> set ?xs" for x
    using window_segs_nbyte_le [OF pos that] le by simp
  have sp: "seg_spans ?xs (f_off + dn + b) = win_pairs nd (unat off) f_off (unat dn + unat b) (unat dn + unat b + ?m)" for f_off
  proof -
    have "[unat dn + unat b..<unat dn + unat b + ?m] = map (\<lambda>k. k + (unat dn + unat b)) [0..<?m]"
      by (simp add: map_add_upt add.commute)
    then show ?thesis unfolding seg_spans_window [OF pos] win_pairs_def sub(2)
      by (simp add: comp_def ac_simps)
  qed
  show ?thesis
    using do_xfer_addr_eq [OF inv(1,2) cov inv(3) sub(4) w(1)] w(2,3) two nb sp window_segs_total [OF pos, of nd ?o] by auto
qed

text \<open>What phase 1 has done when it started with \<open>sqe\<close> requests for \<open>b\<close> bytes.\<close>

definition filled :: "('w \<Rightarrow> u32 list) \<Rightarrow> ('w \<Rightarrow> u32 multiset) \<Rightarrow> fgds_mmap_node \<Rightarrow> s64 \<Rightarrow> s64 \<Rightarrow> u64 \<Rightarrow> u64 \<Rightarrow>
    'w lib \<Rightarrow> nat \<Rightarrow> u64 \<Rightarrow> nat \<times> u64 \<times> bool \<Rightarrow> 'w lib \<Rightarrow> bool" where
  "filled sqf flight nd off f_off n dn s sqe b r t \<longleftrightarrow> (case r of (sqe', b', err) \<Rightarrow>
     \<not> err \<and> sqe \<le> sqe' \<and> sqe' \<le> FGDS_URING_QD \<and> unat b \<le> unat b' \<and> unat dn + unat b' \<le> unat n \<and>
     (sqe = 0 \<longrightarrow> unat dn + unat b < unat n \<longrightarrow> 0 < sqe' \<and> unat b < unat b') \<and>
     (\<exists>c. did s c t \<and> io_bytes c = win_pairs nd (unat off) f_off (unat dn + unat b) (unat dn + unat b')) \<and>
     (\<exists>ls. sqf (world t) = sqf (world s) @ ls \<and> length ls + sqe = sqe' \<and> sum_list (map unat ls) + unat b = unat b') \<and>
     flight (world t) = flight (world s))"

lemma filled_refl:
  "unat dn + unat b \<le> unat n \<Longrightarrow> sqe \<le> FGDS_URING_QD \<Longrightarrow> sqe \<noteq> 0 \<or> unat dn + unat b = unat n \<Longrightarrow> did s c t \<Longrightarrow> io_bytes c = [] \<Longrightarrow>
    sqf (world t) = sqf (world s) \<Longrightarrow> flight (world t) = flight (world s) \<Longrightarrow>
    filled sqf flight nd off f_off n dn s sqe b (sqe, b, False) t"
  by (auto simp: filled_def intro!: exI [of _ c])

lemma segs_total_ucast:
  "\<forall>x\<in>set xs. unat (nbyte x) < 4294967296 \<Longrightarrow> sum_list (map unat (map (\<lambda>x. ucast (nbyte x) :: u32) xs)) = segs_total xs"
  by (induction xs) (simp_all add: unat_ucast_u32)

lemma filled_step:
  assumes "filled sqf flight nd off f_off n dn s' (sqe + length xs) (b + m) r t"
    and "did s c s'" and "io_bytes c = win_pairs nd (unat off) f_off (unat dn + unat b) (unat dn + unat b + unat m)"
    and "sqf (world s') = sqf (world s) @ map (\<lambda>x. ucast (nbyte x)) xs" and "flight (world s') = flight (world s)"
    and "segs_total xs = unat m" and "\<forall>x\<in>set xs. unat (nbyte x) < 4294967296"
    and "xs \<noteq> []" and "0 < unat m" and "unat (b + m) = unat b + unat m"
  shows "filled sqf flight nd off f_off n dn s sqe b r t"
proof -
  obtain sqe' b' err where r: "r = (sqe', b', err)" by (cases r) auto
  from assms(1) have f: "\<not> err" "sqe + length xs \<le> sqe'" "sqe' \<le> FGDS_URING_QD" "unat b + unat m \<le> unat b'" "unat dn + unat b' \<le> unat n"
    "flight (world t) = flight (world s')" unfolding filled_def r by (simp_all add: assms(10))
  from assms(1) obtain c' where c': "did s' c' t" "io_bytes c' = win_pairs nd (unat off) f_off (unat dn + (unat b + unat m)) (unat dn + unat b')"
    unfolding filled_def r by (auto simp: assms(10))
  from assms(1) obtain ls where ls: "sqf (world t) = sqf (world s') @ ls" "length ls + (sqe + length xs) = sqe'"
      "sum_list (map unat ls) + (unat b + unat m) = unat b'"
    unfolding filled_def r by (auto simp: assms(10))
  have "did s (c @ c') t" by (rule did_trans [OF assms(2) c'(1)])
  moreover have "io_bytes (c @ c') = win_pairs nd (unat off) f_off (unat dn + unat b) (unat dn + unat b')"
    using assms(3) c'(2) win_pairs_append [of "unat dn + unat b" "unat dn + unat b + unat m" "unat dn + unat b'"] f(4)
    by (simp add: add.assoc)
  moreover have "sqf (world t) = sqf (world s) @ (map (\<lambda>x. ucast (nbyte x)) xs @ ls)" using ls(1) assms(4) by simp
  moreover have "length (map (\<lambda>x. ucast (nbyte x) :: u32) xs @ ls) + sqe = sqe'" using ls(2) by simp
  moreover have "sum_list (map unat (map (\<lambda>x. ucast (nbyte x) :: u32) xs @ ls)) + unat b = unat b'"
    using ls(3) segs_total_ucast [OF assms(7)] assms(6) by simp
  moreover have "0 < length xs" using assms(8) by simp
  ultimately show ?thesis unfolding filled_def r prod.case using f assms(5,9) by (intro conjI exI) auto
qed

lemma fill_loop_spec:
  assumes "ring_laws os (deviceID fid) sqf flight" and "pipe_ok s (deviceID fid) g n p nd off"
    and "unat dn + unat b \<le> unat n" and "length (sqf (world s)) = sqe" and "sqe \<le> FGDS_URING_QD" and "FGDS_URING_QD - sqe \<le> fuel"
  shows "runs_to (fill_loop fuel os op fid g off n f_off dn sqe b) s (filled sqf flight nd off f_off n dn s sqe b)"
  using assms(2-)
proof (induction fuel arbitrary: s sqe b rule: less_induct)
  case (less fuel)
  have dnb: "dn + b < n \<longleftrightarrow> unat dn + unat b < unat n"
  proof -
    have "unat n < 2305843009213693952" using less.prems(1) in_window_small [of nd off n] by (simp add: pipe_ok_def)
    then have "unat (dn + b) = unat dn + unat b" using less.prems(2) by (intro unat_add_no_wrap) simp
    then show ?thesis by (simp add: word_less_nat_alt)
  qed
  show ?case
  proof (cases "sqe < FGDS_URING_QD \<and> unat dn + unat b < unat n")
    case False
    then have "filled sqf flight nd off f_off n dn s sqe b (sqe, b, False) s"
      using less.prems(2,4) did_refl [of s] by (intro filled_refl) auto
    then show ?thesis using False dnb by (auto simp: fill_loop.simps)
  next
    case True
    note sub = sub_request [OF less.prems(1) conjunct2 [OF True]]
    let ?m = "sub_size n dn b"
    obtain w xs where x: "fgds_do_xfer_addr os (deviceID fid) g (off + dn + b) ?m s =
        Inr (Some xs, s\<lparr>world := w, xfer_live := Suc (xfer_live s)\<rparr>)"
      and w: "sqf w = sqf (world s)" "flight w = flight (world s)" and two: "length xs = 1 \<or> length xs = 2"
      and xs: "segs_total xs = unat ?m" "\<forall>x\<in>set xs. unat (nbyte x) < 4294967296"
      and sp: "\<forall>f_off. seg_spans xs (f_off + dn + b) = win_pairs nd (unat off) f_off (unat dn + unat b) (unat dn + unat b + unat ?m)"
      using sub_request_xfer [OF less.prems(1) conjunct2 [OF True] assms(1)] by blast
    let ?s = "s\<lparr>world := w, xfer_live := Suc (xfer_live s)\<rparr>"
    have fuel: "fuel \<noteq> 0" using True less.prems(5) by auto
    have ne: "xs \<noteq> []" using two by auto
    have pos: "0 < unat ?m" using sub(5) by (simp add: word_less_nat_alt)
    show ?thesis
    proof (cases "FGDS_URING_QD < sqe + length xs")
      case full: True
      have "did s [] (s\<lparr>world := w\<rparr>)" by (auto simp: did_def)
      then have "filled sqf flight nd off f_off n dn s sqe b (sqe, b, False) (s\<lparr>world := w\<rparr>)"
        using less.prems(2,4) two full w by (intro filled_refl) auto
      moreover have "s\<lparr>world := w, xfer_live := xfer_live s\<rparr> = s\<lparr>world := w\<rparr>" by simp
      ultimately show ?thesis using True dnb fuel x full
        by (subst fill_loop.simps) (simp add: runs_to_def run)
    next
      case False
      have "runs_to (prep_loop os op fid xs (f_off + dn + b) sqe) ?s (\<lambda>r t. r = (sqe + length xs, False) \<and> (\<exists>c. did ?s c t \<and>
        io_bytes c = seg_spans xs (f_off + dn + b) \<and> sqf (world t) = sqf (world ?s) @ map (\<lambda>x. ucast (nbyte x)) xs \<and>
        flight (world t) = flight (world ?s)))"
        by (rule prep_loop_spec [OF assms(1)]) (use w less.prems(3) False xs in auto)
      then have "runs_to (prep_loop os op fid xs (f_off + dn + b) sqe) ?s (\<lambda>r t. r = (sqe + length xs, False) \<and> xfer_live t \<noteq> 0 \<and>
        runs_to (fill_loop (fuel - 1) os op fid g off n f_off dn (sqe + length xs) (b + ?m)) (t\<lparr>xfer_live := xfer_live t - 1\<rparr>)
          (filled sqf flight nd off f_off n dn s sqe b))"
      proof (rule runs_to_mono, elim exE conjE)
        fix r t c
        assume r: "r = (sqe + length xs, False)" and c: "did ?s c t" "io_bytes c = seg_spans xs (f_off + dn + b)"
          and q: "sqf (world t) = sqf (world ?s) @ map (\<lambda>x. ucast (nbyte x)) xs" "flight (world t) = flight (world ?s)"
        let ?t = "t\<lparr>xfer_live := xfer_live t - 1\<rparr>"
        have d: "did s c ?t" using c(1) by (auto simp: did_def)
        have "runs_to (fill_loop (fuel - 1) os op fid g off n f_off dn (sqe + length xs) (b + ?m)) ?t
            (filled sqf flight nd off f_off n dn ?t (sqe + length xs) (b + ?m))"
        proof (rule less.IH)
          show "fuel - 1 < fuel" using fuel by simp
          show "pipe_ok ?t (deviceID fid) g n p nd off" using less.prems(1) pipe_ok_did [OF d] by simp
          show "unat dn + unat (b + ?m) \<le> unat n" using sub(1,7) True by linarith
          show "length (sqf (world ?t)) = sqe + length xs" using q(1) w less.prems(3) by simp
          show "sqe + length xs \<le> FGDS_URING_QD" "FGDS_URING_QD - (sqe + length xs) \<le> fuel - 1"
            using False two less.prems(5) by auto
        qed
        then have "runs_to (fill_loop (fuel - 1) os op fid g off n f_off dn (sqe + length xs) (b + ?m)) ?t
            (filled sqf flight nd off f_off n dn s sqe b)"
          by (rule runs_to_mono, elim filled_step) (use d c(2) sp q w xs ne pos sub(7) in auto)
        moreover have "xfer_live t \<noteq> 0" using c(1) by (auto simp: did_def)
        ultimately show "r = (sqe + length xs, False) \<and> xfer_live t \<noteq> 0 \<and>
          runs_to (fill_loop (fuel - 1) os op fid g off n f_off dn (sqe + length xs) (b + ?m)) ?t
            (filled sqf flight nd off f_off n dn s sqe b)" using r by simp
      qed
      then have "runs_to (prep_loop os op fid xs (f_off + dn + b) sqe) ?s (\<lambda>r t. runs_to (case r of (sqe_count', err) \<Rightarrow>
          if err then ret (sqe_count', b, True) else sq free_xfer (fill_loop (fuel - 1) os op fid g off n f_off dn sqe_count' (b + ?m))) t
          (filled sqf flight nd off f_off n dn s sqe b))"
        by (rule runs_to_mono) auto
      moreover have "runs_to (fgds_do_xfer_addr os (deviceID fid) g (off + dn + b) ?m) s Q = Q (Some xs) ?s" for Q
        using x by (simp add: runs_to_def)
      ultimately show ?thesis using True dnb fuel False
        by (subst fill_loop.simps) simp
    qed
  qed
qed

section \<open>Batches\<close>

text \<open>The uring lock of a device.\<close>

definition set_uring_lock :: "'w lib \<Rightarrow> int \<Rightarrow> mutex \<Rightarrow> 'w lib" where
  "set_uring_lock s d m = s\<lparr>g_dev_ctx := (g_dev_ctx s)(nat d := (g_dev_ctx s (nat d))\<lparr>uring_lock := m\<rparr>)\<rparr>"

lemma runs_to_acquire_uring:
  "valid_dev d \<Longrightarrow> uring_lock (g_dev_ctx s (nat d)) = Unlocked \<Longrightarrow>
    runs_to (acquire_uring_lock d) s Q = Q () (set_uring_lock s d Locked)"
  by (simp add: lock_defs set_uring_lock_def)

lemma runs_to_release_uring:
  "valid_dev d \<Longrightarrow> uring_lock (g_dev_ctx s (nat d)) = Locked \<Longrightarrow>
    runs_to (release_uring_lock d) s Q = Q () (set_uring_lock s d Unlocked)"
  by (simp add: lock_defs set_uring_lock_def)

lemma set_uring_lock_simps [simp]:
  "world (set_uring_lock s d m) = world s" "xfer_live (set_uring_lock s d m) = xfer_live s"
  "uring_lock (g_dev_ctx (set_uring_lock s d m) (nat d)) = m"
  "pipe_ok (set_uring_lock s d m) e g n p nd off = pipe_ok s e g n p nd off"
  by (simp_all add: set_uring_lock_def pipe_ok_def covering_def)

lemma set_uring_lock_did:
  assumes "did (set_uring_lock s d m) c t" and "uring_lock (g_dev_ctx s (nat d)) = m'"
  shows "did s c (set_uring_lock t d m')"
proof -
  have "(g_dev_ctx s)(nat d := (g_dev_ctx s (nat d))\<lparr>uring_lock := m'\<rparr>) = g_dev_ctx s"
    using assms(2) by (simp add: fun_eq_iff)
  then show ?thesis using assms(1) by (auto simp: did_def set_uring_lock_def)
qed

lemma batch_spec:
  assumes "ring_laws os (deviceID fid) sqf flight" and "pipe_ok s (deviceID fid) g n p nd off"
    and "unat dn < unat n" and "sqf (world s) = []" and "flight (world s) = {#}"
    and "uring_lock (g_dev_ctx s (nat (deviceID fid))) = Unlocked"
  shows "runs_to (io_batch os op fid g off n f_off dn tot) s (\<lambda>r t. \<exists>b c. r = Some (dn + b, tot + b) \<and>
    0 < unat b \<and> unat dn + unat b \<le> unat n \<and> did s c t \<and>
    io_bytes c = win_pairs nd (unat off) f_off (unat dn) (unat dn + unat b) \<and> sqf (world t) = [] \<and> flight (world t) = {#})"
proof -
  let ?d = "deviceID fid"
  have d: "valid_dev ?d" using assms(2) by (simp add: pipe_ok_def)
  let ?s = "set_uring_lock s ?d Locked"
  have fill: "runs_to (fill_loop FGDS_URING_QD os op fid g off n f_off dn 0 0) ?s (filled sqf flight nd off f_off n dn ?s 0 0)"
    by (rule fill_loop_spec [OF assms(1)]) (use assms in simp_all)
  show ?thesis unfolding io_batch_def runs_to_sq runs_to_acquire_uring [OF d assms(6)] runs_to_bnd
  proof (rule runs_to_mono [OF fill], goal_cases)
    case (1 r t)
    obtain sqe b err where r: "r = (sqe, b, err)" by (cases r) auto
    from 1 have f: "\<not> err" "0 < sqe" "0 < unat b" "unat dn + unat b \<le> unat n" "flight (world t) = {#}"
      using assms(3,5) unfolding filled_def r by simp_all
    from 1 obtain c where c: "did ?s c t" "io_bytes c = win_pairs nd (unat off) f_off (unat dn) (unat dn + unat b)"
      unfolding filled_def r by auto
    from 1 obtain ls where ls: "sqf (world t) = ls" "length ls = sqe" "sum_list (map unat ls) = unat b"
      using assms(4) unfolding filled_def r by auto
    obtain w where w: "ring_submit os ?d (world t) = (int sqe, w)" "sqf w = []" "flight w = mset ls"
      using assms(1) f(5) ls unfolding ring_laws_def by (metis add_0)
    let ?u = "t\<lparr>world := w, calls := calls t @ [C_submit ?d (int sqe)]\<rparr>"
    have sum: "of_nat (\<Sum>n\<in>#flight (world ?u). unat n) = b"
      using w(3) ls(3) by (simp add: sum_mset_sum_list [symmetric] flip: mset_map)
    have "runs_to (reap_loop sqe os ?d 0 tot) ?u (\<lambda>r v.
      r = (0 + int sqe, tot + of_nat (\<Sum>n\<in>#flight (world ?u). unat n), False) \<and>
      (\<exists>c. did ?u c v \<and> io_bytes c = []) \<and> sqf (world v) = sqf (world ?u) \<and> flight (world v) = {#})"
      by (rule reap_loop_spec [OF assms(1)]) (use w ls in simp)
    then have "runs_to (reap_loop sqe os ?d 0 tot) ?u (\<lambda>r v. runs_to (case r of (reaped, tot', err3) \<Rightarrow>
        finish_batch os ?d (dn + b) (int sqe) reaped tot' err3) v (\<lambda>r t. \<exists>b c. r = Some (dn + b, tot + b) \<and>
      0 < unat b \<and> unat dn + unat b \<le> unat n \<and> did s c t \<and>
      io_bytes c = win_pairs nd (unat off) f_off (unat dn) (unat dn + unat b) \<and> sqf (world t) = [] \<and> flight (world t) = {#}))"
    proof (rule runs_to_mono, elim exE conjE)
      fix r v c'
      assume r: "r = (0 + int sqe, tot + of_nat (\<Sum>n\<in>#flight (world ?u). unat n), False)"
        and c': "did ?u c' v" "io_bytes c' = []" and v: "sqf (world v) = sqf (world ?u)" "flight (world v) = {#}"
      let ?c = "c @ [C_submit ?d (int sqe)] @ c'"
      have dv: "did ?s ?c v" by (rule did_trans [OF c(1) did_step [OF c'(1)]])
      have "uring_lock (g_dev_ctx v (nat ?d)) = Locked" using did_same(1) [OF dv] by simp
      moreover have "did s ?c (set_uring_lock v ?d Unlocked)" by (rule set_uring_lock_did [OF dv assms(6)])
      moreover have "io_bytes ?c = win_pairs nd (unat off) f_off (unat dn) (unat dn + unat b)" using c(2) c'(2) by simp
      ultimately show "runs_to (case r of (reaped, tot', err3) \<Rightarrow>
          finish_batch os ?d (dn + b) (int sqe) reaped tot' err3) v (\<lambda>r t. \<exists>b c. r = Some (dn + b, tot + b) \<and>
        0 < unat b \<and> unat dn + unat b \<le> unat n \<and> did s c t \<and>
        io_bytes c = win_pairs nd (unat off) f_off (unat dn) (unat dn + unat b) \<and> sqf (world t) = [] \<and> flight (world t) = {#})"
        unfolding r sum using d f(3,4) v w(2)
        by (auto simp: finish_batch_def runs_to_release_uring simp del: io_bytes_simps intro!: exI [of _ b] exI [of _ ?c])
    qed
    then show ?case using f(1,2) w(1) by (simp add: r ring_defs)
  qed
qed

lemma io_loop_spec:
  assumes "ring_laws os (deviceID fid) sqf flight" and "pipe_ok s (deviceID fid) g n p nd off"
    and "unat dn \<le> unat n" and "sqf (world s) = []" and "flight (world s) = {#}"
    and "uring_lock (g_dev_ctx s (nat (deviceID fid))) = Unlocked" and "unat n - unat dn \<le> fuel"
  shows "runs_to (io_loop fuel os op fid g off n f_off dn tot) s (\<lambda>r t. r = tot + (n - dn) \<and>
    (\<exists>c. did s c t \<and> io_bytes c = win_pairs nd (unat off) f_off (unat dn) (unat n)) \<and>
    sqf (world t) = [] \<and> flight (world t) = {#})"
  using assms(2-)
proof (induction fuel arbitrary: s dn tot rule: less_induct)
  case (less fuel)
  show ?case
  proof (cases "unat dn < unat n")
    case False
    then have "dn = n" using less.prems(2) by (simp add: word_unat_eq_iff)
    then show ?thesis using less.prems(3,4) did_refl [of s]
      by (subst io_loop.simps) (auto intro!: exI [of _ "[]"])
  next
    case True
    then have fuel: "fuel \<noteq> 0" "dn < n" using less.prems(6) by (auto simp: word_less_nat_alt)
    have "runs_to (io_batch os op fid g off n f_off dn tot) s (\<lambda>r t. runs_to (case r of None \<Rightarrow> ret (-1)
        | Some (dn', tot') \<Rightarrow> io_loop (fuel - 1) os op fid g off n f_off dn' tot') t (\<lambda>r t. r = tot + (n - dn) \<and>
      (\<exists>c. did s c t \<and> io_bytes c = win_pairs nd (unat off) f_off (unat dn) (unat n)) \<and>
      sqf (world t) = [] \<and> flight (world t) = {#}))"
    proof (rule runs_to_mono [OF batch_spec [OF assms(1) less.prems(1) True less.prems(3-5)]], elim exE conjE)
      fix r t b c
      assume r: "r = Some (dn + b, tot + b)" and b: "0 < unat b" "unat dn + unat b \<le> unat n"
        and c: "did s c t" "io_bytes c = win_pairs nd (unat off) f_off (unat dn) (unat dn + unat b)"
        and t: "sqf (world t) = []" "flight (world t) = {#}"
      have db: "unat (dn + b) = unat dn + unat b"
        by (rule unat_add_no_wrap) (use order_le_less_trans [OF b(2) unat_u64_less] in simp)
      have "runs_to (io_loop (fuel - 1) os op fid g off n f_off (dn + b) (tot + b)) t (\<lambda>r u. r = tot + b + (n - (dn + b)) \<and>
        (\<exists>c. did t c u \<and> io_bytes c = win_pairs nd (unat off) f_off (unat (dn + b)) (unat n)) \<and>
        sqf (world u) = [] \<and> flight (world u) = {#})"
      proof (rule less.IH)
        show "pipe_ok t (deviceID fid) g n p nd off" using less.prems(1) pipe_ok_did [OF c(1)] by simp
        show "uring_lock (g_dev_ctx t (nat (deviceID fid))) = Unlocked" using less.prems(5) did_same [OF c(1)] by simp
      qed (use fuel b db t less.prems(6) in auto)
      then show "runs_to (case r of None \<Rightarrow> ret (-1)
          | Some (dn', tot') \<Rightarrow> io_loop (fuel - 1) os op fid g off n f_off dn' tot') t (\<lambda>r t. r = tot + (n - dn) \<and>
        (\<exists>c. did s c t \<and> io_bytes c = win_pairs nd (unat off) f_off (unat dn) (unat n)) \<and>
        sqf (world t) = [] \<and> flight (world t) = {#})"
        unfolding r option.case prod.case
      proof (rule runs_to_mono, elim exE conjE)
        fix r u c'
        assume u: "r = tot + b + (n - (dn + b))" "did t c' u" "sqf (world u) = []" "flight (world u) = {#}"
          "io_bytes c' = win_pairs nd (unat off) f_off (unat (dn + b)) (unat n)"
        have "io_bytes (c @ c') = win_pairs nd (unat off) f_off (unat dn) (unat n)"
          using c(2) u(5) db b win_pairs_append [of "unat dn" "unat dn + unat b" "unat n"] by simp
        then show "r = tot + (n - dn) \<and> (\<exists>c. did s c u \<and> io_bytes c = win_pairs nd (unat off) f_off (unat dn) (unat n)) \<and>
            sqf (world u) = [] \<and> flight (world u) = {#}"
          using u did_trans [OF c(1) u(2)] by auto
      qed
    qed
    then show ?thesis using fuel by (subst io_loop.simps) (simp del: One_nat_def)
  qed
qed

text \<open>A ring that is set up is empty between calls.\<close>

definition ring_idle :: "'w lib \<Rightarrow> int \<Rightarrow> ('w \<Rightarrow> u32 list) \<Rightarrow> ('w \<Rightarrow> u32 multiset) \<Rightarrow> bool" where
  "ring_idle s d sqf flight \<longleftrightarrow> uring_lock (g_dev_ctx s (nat d)) = Unlocked \<and>
     (uring_init (g_dev_ctx s (nat d)) \<longrightarrow> sqf (world s) = [] \<and> flight (world s) = {#})"

lemma ring_setup_spec:
  assumes "ring_laws os d sqf flight" and "valid_dev d" and "ring_idle s d sqf flight"
  shows "runs_to (ring_setup os d) s (\<lambda>r t. r \<and> sqf (world t) = [] \<and> flight (world t) = {#} \<and>
    (\<exists>c w. io_bytes c = [] \<and> t = s\<lparr>world := w, calls := calls s @ c,
      g_dev_ctx := (g_dev_ctx s)(nat d := (g_dev_ctx s (nat d))\<lparr>uring_init := True\<rparr>)\<rparr>))"
proof (cases "uring_init (g_dev_ctx s (nat d))")
  case True
  then have "(g_dev_ctx s)(nat d := (g_dev_ctx s (nat d))\<lparr>uring_init := True\<rparr>) = g_dev_ctx s"
    by (simp add: fun_eq_iff)
  then have eq: "s = s\<lparr>world := world s, calls := calls s @ [],
      g_dev_ctx := (g_dev_ctx s)(nat d := (g_dev_ctx s (nat d))\<lparr>uring_init := True\<rparr>)\<rparr>" by simp
  have "runs_to (ring_setup os d) s (\<lambda>r t. r \<and> t = s)" using True assms(2) by (simp add: ring_setup_def)
  then show ?thesis
  proof (rule runs_to_mono, elim conjE)
    fix r t
    assume r: "r" and t: "t = s"
    have "sqf (world s) = []" "flight (world s) = {#}" using True assms(3) by (simp_all add: ring_idle_def)
    then show "r \<and> sqf (world t) = [] \<and> flight (world t) = {#} \<and> (\<exists>c w. io_bytes c = [] \<and> t = s\<lparr>world := w,
        calls := calls s @ c, g_dev_ctx := (g_dev_ctx s)(nat d := (g_dev_ctx s (nat d))\<lparr>uring_init := True\<rparr>)\<rparr>)"
      using r t eq io_bytes_simps(1) by blast
  qed
next
  case False
  obtain w where w: "ring_queue_init os d (world s) = (0, w)" "sqf w = []" "flight w = {#}"
    using assms(1) unfolding ring_laws_def by meson
  have upd: "b\<lparr>uring_init := True, uring_lock := Unlocked\<rparr> = b\<lparr>uring_init := True\<rparr>" if "uring_lock b = Unlocked" for b :: fgds_mmap_buffer
    using that by (cases b) simp
  show ?thesis using False assms(2,3) w unfolding ring_setup_def
    by (auto simp: lock_defs ring_defs ring_idle_def upd intro!: exI [of _ "[C_ring_init d 0]"] exI [of _ w])
qed

section \<open>Whole calls\<close>

text \<open>
  A call that only transfers: beside the world and the log it may have set up the ring of its device. The list of
  buffers, the nodes, the descriptors allocated, the marks and all locks are as before.
\<close>

definition io_frame :: "'w lib \<Rightarrow> int \<Rightarrow> call list \<Rightarrow> 'w lib \<Rightarrow> bool" where
  "io_frame s d c t \<longleftrightarrow> (\<exists>w i. t = s\<lparr>world := w, calls := calls s @ c,
     g_dev_ctx := (g_dev_ctx s)(nat d := (g_dev_ctx s (nat d))\<lparr>uring_init := i\<rparr>)\<rparr>)"

lemma io_frame_did: "did s c t \<Longrightarrow> io_frame s d c t"
  unfolding io_frame_def did_def
proof (elim exE)
  fix w
  assume "t = s\<lparr>world := w, calls := calls s @ c\<rparr>"
  then have "t = s\<lparr>world := w, calls := calls s @ c,
      g_dev_ctx := (g_dev_ctx s)(nat d := (g_dev_ctx s (nat d))\<lparr>uring_init := uring_init (g_dev_ctx s (nat d))\<rparr>)\<rparr>" by simp
  then show "\<exists>w i. t = s\<lparr>world := w, calls := calls s @ c, g_dev_ctx := (g_dev_ctx s)(nat d := (g_dev_ctx s (nat d))\<lparr>uring_init := i\<rparr>)\<rparr>"
    by blast
qed

lemma io_frame_trans: "io_frame s d c t \<Longrightarrow> io_frame t d c' u \<Longrightarrow> io_frame s d (c @ c') u"
  unfolding io_frame_def
proof (elim exE)
  fix w i w' j
  assume "t = s\<lparr>world := w, calls := calls s @ c, g_dev_ctx := (g_dev_ctx s)(nat d := (g_dev_ctx s (nat d))\<lparr>uring_init := i\<rparr>)\<rparr>"
    and "u = t\<lparr>world := w', calls := calls t @ c', g_dev_ctx := (g_dev_ctx t)(nat d := (g_dev_ctx t (nat d))\<lparr>uring_init := j\<rparr>)\<rparr>"
  then have "u = s\<lparr>world := w', calls := calls s @ c @ c', g_dev_ctx := (g_dev_ctx s)(nat d := (g_dev_ctx s (nat d))\<lparr>uring_init := j\<rparr>)\<rparr>"
    by simp
  then show "\<exists>w i. u = s\<lparr>world := w, calls := calls s @ c @ c',
      g_dev_ctx := (g_dev_ctx s)(nat d := (g_dev_ctx s (nat d))\<lparr>uring_init := i\<rparr>)\<rparr>" by blast
qed

lemma io_frame_same:
  assumes "io_frame s d c t"
  shows "calls t = calls s @ c" "node_heap t = node_heap s" "next_ptr t = next_ptr s" "vaddrs_live t = vaddrs_live s"
    "xfer_live t = xfer_live s" "fgds_initialized t = fgds_initialized s" "reg_inv t = reg_inv s" "reg_entries t = reg_entries s"
    "uring_lock (g_dev_ctx t e) = uring_lock (g_dev_ctx s e)" "lock (g_dev_ctx t e) = lock (g_dev_ctx s e)"
    "initialized (g_dev_ctx t e) = initialized (g_dev_ctx s e)" "dev_fd (g_dev_ctx t e) = dev_fd (g_dev_ctx s e)"
    "device_id (g_dev_ctx t e) = device_id (g_dev_ctx s e)"
  using assms by (auto simp: io_frame_def fun_eq_iff split: if_splits)

text \<open>
  A complete transfer: all bytes are reported, and the calls made move byte \<open>k\<close> of the window to or from
  file offset \<open>f_off + k\<close>, each exactly once and in order.
\<close>

definition moved :: "'w lib \<Rightarrow> int \<Rightarrow> fgds_mmap_node \<Rightarrow> s64 \<Rightarrow> s64 \<Rightarrow> s64 \<Rightarrow> s64 \<Rightarrow> 'w lib \<Rightarrow> bool" where
  "moved s d nd off n f_off r t \<longleftrightarrow> r = n \<and> (\<exists>c. io_frame s d c t \<and> io_bytes c = win_pairs nd (unat off) f_off 0 (unat n))"

lemma moved_did:
  "did s c t \<Longrightarrow> io_bytes c = win_pairs nd (unat off) f_off 0 (unat n) \<Longrightarrow> moved s d nd off n f_off n t"
  by (auto simp: moved_def intro: io_frame_did)

lemma pipe_ok_dev: "pipe_ok s d g n p nd off \<Longrightarrow> valid_dev d"
  by (simp add: pipe_ok_def)

lemma pipeline_spec:
  assumes "ring_laws os (deviceID fid) sqf flight" and "pipe_ok s (deviceID fid) g n p nd off"
    and "ring_idle s (deviceID fid) sqf flight"
  shows "runs_to (bnd (ring_setup os (deviceID fid)) (\<lambda>ok. if \<not> ok then ret (-1)
      else io_loop (unat n) os op fid g off n f_off 0 0)) s (\<lambda>r t. moved s (deviceID fid) nd off n f_off r t \<and>
    ring_idle t (deviceID fid) sqf flight)"
  unfolding runs_to_bnd
proof (rule runs_to_mono [OF ring_setup_spec [OF assms(1) pipe_ok_dev [OF assms(2)] assms(3)]], elim exE conjE)
  let ?d = "deviceID fid"
  fix r t c w
  assume r: "r" and e: "sqf (world t) = []" "flight (world t) = {#}" and c: "io_bytes c = []"
    and t: "t = s\<lparr>world := w, calls := calls s @ c, g_dev_ctx := (g_dev_ctx s)(nat ?d := (g_dev_ctx s (nat ?d))\<lparr>uring_init := True\<rparr>)\<rparr>"
  have un: "uring_lock (g_dev_ctx s (nat ?d)) = Unlocked" using assms(3) by (simp add: ring_idle_def)
  have "runs_to (io_loop (unat n) os op fid g off n f_off 0 0) t (\<lambda>r u. r = 0 + (n - 0) \<and>
    (\<exists>c. did t c u \<and> io_bytes c = win_pairs nd (unat off) f_off (unat (0::u64)) (unat n)) \<and>
    sqf (world u) = [] \<and> flight (world u) = {#})"
    by (rule io_loop_spec [where p = p, OF assms(1)]) (use assms(2) e un in \<open>simp_all add: t pipe_ok_def covering_def\<close>)
  then have "runs_to (io_loop (unat n) os op fid g off n f_off 0 0) t (\<lambda>r u. moved s ?d nd off n f_off r u \<and>
    ring_idle u ?d sqf flight)"
  proof (rule runs_to_mono, elim exE conjE)
    fix r u c'
    assume u: "r = 0 + (n - 0)" "did t c' u" "io_bytes c' = win_pairs nd (unat off) f_off (unat (0::u64)) (unat n)"
      "sqf (world u) = []" "flight (world u) = {#}"
    have fr: "io_frame s ?d (c @ c') u" by (rule io_frame_trans [OF _ io_frame_did [OF u(2)]]) (auto simp: io_frame_def t)
    moreover have "uring_lock (g_dev_ctx u (nat ?d)) = Unlocked" using io_frame_same(9) [OF fr] un by simp
    moreover have "io_bytes (c @ c') = win_pairs nd (unat off) f_off 0 (unat n)" using c u(3) by simp
    ultimately show "moved s ?d nd off n f_off r u \<and> ring_idle u ?d sqf flight"
      using u(1,4,5) unfolding moved_def ring_idle_def by auto
  qed
  then show "runs_to (if \<not> r then ret (-1) else io_loop (unat n) os op fid g off n f_off 0 0) t
      (\<lambda>r t. moved s ?d nd off n f_off r t \<and> ring_idle t ?d sqf flight)" using r by simp
qed

lemma pipe_ok_full: "pipe_ok s d g n p nd off \<Longrightarrow> covering s d g n = Some (p, nd)"
  using in_window_small(1) [of nd off n] by (auto simp: pipe_ok_def word_less_nat_alt)

section \<open>Safety in any environment\<close>

text \<open>
  Nothing is assumed here of the ring, of allocation or of the results of the calls, except that
  \<open>io_uring_peek_cqe\<close>, with each completion marked as seen, finds no more than the 512 entries of the
  completion queue in a row.
\<close>

fun peek_ends :: "nat \<Rightarrow> 'w os \<Rightarrow> int \<Rightarrow> 'w \<Rightarrow> bool" where
  "peek_ends k os d w \<longleftrightarrow> (case ring_peek_cqe os d w of (r, w') \<Rightarrow>
     r \<noteq> 0 \<or> (if k = 0 then False else peek_ends (k - 1) os d (ring_cqe_seen os d w')))"

declare peek_ends.simps [simp del]

text \<open>The calls made go to the host addresses of the window only.\<close>

definition inside :: "fgds_mmap_node \<Rightarrow> nat \<Rightarrow> nat \<Rightarrow> call list \<Rightarrow> bool" where
  "inside nd b n c \<longleftrightarrow> fst ` set (io_bytes c) \<subseteq> host_byte nd ` {b..<b + n}"

lemma inside_simps [simp]:
  "inside nd b n []" "inside nd b n (c @ c') \<longleftrightarrow> inside nd b n c \<and> inside nd b n c'"
  by (auto simp: inside_def)

lemma inside_silent: "io_bytes c = [] \<Longrightarrow> inside nd b n c"
  by (simp add: inside_def)

lemma win_pairs_fst: "fst ` set (win_pairs nd b f lo hi) = host_byte nd ` {b + lo..<b + hi}"
proof -
  have "fst ` set (win_pairs nd b f lo hi) = (\<lambda>k. host_byte nd (b + k)) ` {lo..<hi}"
    by (simp add: win_pairs_def image_image)
  also have "\<dots> = host_byte nd ` ((+) b ` {lo..<hi})" by (simp only: image_image)
  finally show ?thesis by (simp add: add.commute)
qed

lemma did_call': "did s c (s\<lparr>calls := calls s @ c, world := w\<rparr>)"
  unfolding did_def by (rule exI [of _ w]) simp

lemma reap_any:
  "runs_to (reap_loop k os d reaped tot) s (\<lambda>r t. \<exists>c. did s c t \<and> io_bytes c = [])"
proof (induction k arbitrary: s reaped tot)
  case 0
  then show ?case using did_refl [of s] by (auto intro!: exI [of _ "[]"])
next
  case (Suc k)
  obtain r res w where w: "ring_wait_cqe os d (world s) = ((r, res), w)" by (metis prod.collapse)
  let ?c = "[C_cqe d r res]"
  have cs: "\<exists>c. did s c t \<and> io_bytes c = []" if "did (s\<lparr>calls := calls s @ ?c, world := w'\<rparr>) c t" "io_bytes c = []" for w' c t
    using that by (intro exI [of _ "?c @ c"]) (auto simp: did_def)
  have one: "\<exists>c. did s c (s\<lparr>calls := calls s @ ?c, world := w'\<rparr>) \<and> io_bytes c = []" for w'
    using did_call' [of s ?c w'] by (intro exI [of _ ?c]) simp
  have one': "\<exists>c. did s c (s\<lparr>world := w', calls := calls s @ ?c\<rparr>) \<and> io_bytes c = []" for w'
    by (intro exI [of _ ?c]) (auto simp: did_def)
  have "runs_to (reap_loop k os d (reaped + 1) (tot + of_int res)) (s\<lparr>calls := calls s @ ?c, world := ring_cqe_seen os d w\<rparr>)
      (\<lambda>r t. \<exists>c. did s c t \<and> io_bytes c = [])"
    by (rule runs_to_mono [OF Suc.IH]) (use cs in blast)
  then show ?case using w one one' by (simp add: ring_defs)
qed

lemma wait_rest_any: "runs_to (wait_rest k os d) s (\<lambda>r t. \<exists>c. did s c t \<and> io_bytes c = [])"
proof (induction k arbitrary: s)
  case 0
  then show ?case using did_refl [of s] by (auto intro!: exI [of _ "[]"])
next
  case (Suc k)
  obtain r res w where w: "ring_wait_cqe os d (world s) = ((r, res), w)" by (metis prod.collapse)
  let ?c = "[C_cqe d r res]"
  have cs: "\<exists>c. did s c t \<and> io_bytes c = []" if "did (s\<lparr>calls := calls s @ ?c, world := w'\<rparr>) c t" "io_bytes c = []" for w' c t
    using that by (intro exI [of _ "?c @ c"]) (auto simp: did_def)
  have one': "\<exists>c. did s c (s\<lparr>world := w', calls := calls s @ ?c\<rparr>) \<and> io_bytes c = []" for w'
    by (intro exI [of _ ?c]) (auto simp: did_def)
  have "runs_to (wait_rest k os d) (s\<lparr>calls := calls s @ ?c, world := ring_cqe_seen os d w\<rparr>)
      (\<lambda>r t. \<exists>c. did s c t \<and> io_bytes c = [])"
    by (rule runs_to_mono [OF Suc.IH]) (use cs in blast)
  then show ?case using w one' by (simp add: ring_defs)
qed

lemma peek_any:
  assumes "peek_ends k os d (world s)"
  shows "runs_to (peek_loop k os d reaped) s (\<lambda>r t. \<exists>c. did s c t \<and> io_bytes c = [])"
  using assms
proof (induction k arbitrary: s reaped rule: less_induct)
  case (less k)
  obtain r w where w: "ring_peek_cqe os d (world s) = (r, w)" by fastforce
  let ?c = "[C_peek d r]"
  have cs: "\<exists>c. did s c t \<and> io_bytes c = []" if "did (s\<lparr>calls := calls s @ ?c, world := w'\<rparr>) c t" "io_bytes c = []" for w' c t
    using that by (intro exI [of _ "?c @ c"]) (auto simp: did_def)
  have one': "\<exists>c. did s c (s\<lparr>world := w, calls := calls s @ ?c\<rparr>) \<and> io_bytes c = []"
    by (intro exI [of _ ?c]) (auto simp: did_def)
  show ?case
  proof (cases "r = 0")
    case False
    then show ?thesis using w one' by (subst peek_loop.simps) (simp add: ring_defs)
  next
    case True
    then have k: "0 < k" "peek_ends (k - 1) os d (ring_cqe_seen os d w)"
      using less.prems w by (simp_all add: peek_ends.simps [of k] split: if_splits)
    have "runs_to (peek_loop (k - 1) os d (reaped + 1)) (s\<lparr>calls := calls s @ ?c, world := ring_cqe_seen os d w\<rparr>)
        (\<lambda>r t. \<exists>c. did s c t \<and> io_bytes c = [])"
      by (rule runs_to_mono [OF less.IH]) (use k cs in auto)
    then show ?thesis using w True k(1) by (subst peek_loop.simps) (simp add: ring_defs)
  qed
qed

lemma drain_any:
  assumes "\<forall>w. peek_ends 512 os d w"
  shows "runs_to (drain os d submitted reaped) s (\<lambda>r t. \<exists>c. did s c t \<and> io_bytes c = [])"
  unfolding drain_def runs_to_bnd
proof (rule runs_to_mono [OF peek_any], rule spec [OF assms], elim exE conjE)
  fix r t c
  assume c: "did s c t" "io_bytes c = []"
  show "runs_to (wait_rest (nat (submitted - r)) os d) t (\<lambda>r t. \<exists>c. did s c t \<and> io_bytes c = [])"
    by (rule runs_to_mono [OF wait_rest_any], elim exE conjE) (use c did_trans in fastforce)
qed

lemma span_fst: "fst ` set (span a off n) = (\<lambda>k. a + of_nat k) ` {..<n}"
  by (simp add: span_def image_image atLeast0LessThan)

lemma seg_spans_fst: "fst ` set (seg_spans xs off) = \<Union> (set ` seg_bytes ` set xs)"
  by (induction xs arbitrary: off) (auto simp: span_fst seg_bytes_def image_Un atLeast0LessThan)

lemma prep_any:
  assumes "xfer_live s = Suc k" and "\<forall>x\<in>set xs. unat (nbyte x) < 4294967296"
  shows "runs_to (prep_loop os op fid xs off sqe) s (\<lambda>r t. \<exists>c. fst ` set (io_bytes c) \<subseteq> \<Union> (set ` seg_bytes ` set xs) \<and>
    did (if snd r then s\<lparr>xfer_live := k\<rparr> else s) c t \<and> (\<not> snd r \<longrightarrow> fst r = sqe + length xs))"
  using assms
proof (induction xs arbitrary: s off sqe)
  case Nil
  then show ?case using did_refl [of s] by (auto intro!: exI [of _ "[]"])
next
  case (Cons x xs)
  obtain ok w where g: "ring_get_sqe os (deviceID fid) (world s) = (ok, w)" by fastforce
  have nb: "unat (ucast (nbyte x) :: u32) = unat (nbyte x)" using Cons.prems by (simp add: unat_ucast_u32)
  show ?case
  proof (cases ok)
    case False
    have "did (s\<lparr>xfer_live := k\<rparr>) [] (s\<lparr>world := w, xfer_live := k\<rparr>)"
      unfolding did_def by (rule exI [of _ w]) simp
    then show ?thesis using False g Cons.prems by (auto simp: ring_defs intro!: exI [of _ "[]"])
  next
    case True
    define w' where "w' = ring_prep_rw os (deviceID fid) op (fd fid) (target_addr x) (ucast (nbyte x)) off w"
    let ?c = "C_sqe (deviceID fid) op (fd fid) (target_addr x) (ucast (nbyte x)) off"
    let ?s = "s\<lparr>world := w', calls := calls s @ [?c]\<rparr>"
    have "fst ` set (call_bytes ?c) = set (seg_bytes x)" using nb by (simp add: span_fst seg_bytes_def atLeast0LessThan)
    then have sub: "fst ` set (io_bytes (?c # c)) \<subseteq> \<Union> (set ` seg_bytes ` set (x # xs))"
      if "fst ` set (io_bytes c) \<subseteq> \<Union> (set ` seg_bytes ` set xs)" for c using that by (auto simp del: call_bytes_simps)
    have step: "did (if e then s\<lparr>xfer_live := k\<rparr> else s) (?c # c) t"
      if "did (if e then ?s\<lparr>xfer_live := k\<rparr> else ?s) c t" for e c t
      using that by (cases e) (auto simp: did_def)
    have "runs_to (prep_loop os op fid xs (off + nbyte x) (Suc sqe)) ?s (\<lambda>r t. \<exists>c. fst ` set (io_bytes c) \<subseteq> \<Union> (set ` seg_bytes ` set xs) \<and>
      did (if snd r then ?s\<lparr>xfer_live := k\<rparr> else ?s) c t \<and> (\<not> snd r \<longrightarrow> fst r = Suc sqe + length xs))"
      using Cons.prems by (intro Cons.IH) simp_all
    then have "runs_to (prep_loop os op fid xs (off + nbyte x) (Suc sqe)) ?s (\<lambda>r t. \<exists>c. fst ` set (io_bytes c) \<subseteq> \<Union> (set ` seg_bytes ` set (x # xs)) \<and>
      did (if snd r then s\<lparr>xfer_live := k\<rparr> else s) c t \<and> (\<not> snd r \<longrightarrow> fst r = sqe + length (x # xs)))"
    proof (rule runs_to_mono, elim exE conjE)
      fix r t c
      assume "fst ` set (io_bytes c) \<subseteq> \<Union> (set ` seg_bytes ` set xs)"
        "did (if snd r then ?s\<lparr>xfer_live := k\<rparr> else ?s) c t" "\<not> snd r \<longrightarrow> fst r = Suc sqe + length xs"
      then show "\<exists>c. fst ` set (io_bytes c) \<subseteq> \<Union> (set ` seg_bytes ` set (x # xs)) \<and>
          did (if snd r then s\<lparr>xfer_live := k\<rparr> else s) c t \<and> (\<not> snd r \<longrightarrow> fst r = sqe + length (x # xs))"
        using sub step by (intro exI [of _ "?c # c"]) simp
    qed
    then show ?thesis using True g by (simp add: ring_defs w'_def)
  qed
qed


lemma sub_xfer_any:
  assumes "pipe_ok s (deviceID fid) g n p nd off" and "unat dn + unat b < unat n"
  shows "\<exists>ok w xs. fgds_do_xfer_addr os (deviceID fid) g (off + dn + b) (sub_size n dn b) s =
      (if ok then Inr (Some xs, s\<lparr>world := w, xfer_live := Suc (xfer_live s)\<rparr>) else Inr (None, s\<lparr>world := w\<rparr>)) \<and>
    (length xs = 1 \<or> length xs = 2) \<and> (\<forall>x\<in>set xs. unat (nbyte x) < 4294967296) \<and>
    \<Union> (set ` seg_bytes ` set xs) \<subseteq> host_byte nd ` {unat off..<unat off + unat n}"
proof -
  note sub = sub_request [OF assms(1,2)]
  have inv: "reg_inv s" "valid_dev (deviceID fid)" "node_wf nd"
    and cov: "covering s (deviceID fid) g (sub_size n dn b) = Some (p, nd)"
    using assms(1) sub(5,6) by (auto simp: pipe_ok_def)
  obtain ok w where w: "os_malloc os (xfer_bytes (off + dn + b) (sub_size n dn b)) (world s) = (ok, w)" by fastforce
  let ?o = "unat (off + dn + b)" and ?m = "unat (sub_size n dn b)"
  let ?xs = "window_segs nd ?o ?m"
  have pos: "0 < ?m" using sub(5) by (simp add: word_less_nat_alt)
  have le: "?m \<le> 262144" using sub(1) by simp
  have two: "length ?xs = 1 \<or> length ?xs = 2"
    using window_segs_le_2 [OF pos, of nd ?o] le by (cases ?xs) (auto simp: le_Suc_eq)
  have nb: "\<forall>x\<in>set ?xs. unat (nbyte x) < 4294967296"
    using window_segs_nbyte_le [OF pos] le by fastforce
  have "\<Union> (set ` seg_bytes ` set ?xs) = set (concat (map seg_bytes ?xs))" by auto
  also have "\<dots> = host_byte nd ` {?o..<?o + ?m}" unfolding window_segs_bytes [OF pos] by simp
  also have "\<dots> \<subseteq> host_byte nd ` {unat off..<unat off + unat n}"
    using sub(1,2) assms(2) by (intro image_mono) auto
  finally have ins: "\<Union> (set ` seg_bytes ` set ?xs) \<subseteq> host_byte nd ` {unat off..<unat off + unat n}" .
  show ?thesis
    using do_xfer_addr_eq [OF inv(1,2) cov inv(3) sub(4) w] two nb ins by (intro exI [of _ ok] exI [of _ w] exI [of _ ?xs]) simp
qed

definition fill_safe :: "fgds_mmap_node \<Rightarrow> s64 \<Rightarrow> u64 \<Rightarrow> u64 \<Rightarrow> 'w lib \<Rightarrow> nat \<Rightarrow> u64 \<Rightarrow> nat \<times> u64 \<times> bool \<Rightarrow> 'w lib \<Rightarrow> bool" where
  "fill_safe nd off n dn s sqe b r t \<longleftrightarrow> (case r of (sqe', b', err) \<Rightarrow>
     (\<exists>c. did s c t \<and> inside nd (unat off) (unat n) c) \<and> unat dn + unat b' \<le> unat n \<and> unat b \<le> unat b' \<and>
     (\<not> err \<longrightarrow> sqe = 0 \<longrightarrow> unat dn + unat b < unat n \<longrightarrow> unat b < unat b'))"

lemma fill_any:
  assumes "pipe_ok s (deviceID fid) g n p nd off" and "unat dn + unat b \<le> unat n"
    and "sqe \<le> FGDS_URING_QD" and "FGDS_URING_QD - sqe \<le> fuel"
  shows "runs_to (fill_loop fuel os op fid g off n f_off dn sqe b) s (fill_safe nd off n dn s sqe b)"
  using assms
proof (induction fuel arbitrary: s sqe b rule: less_induct)
  case (less fuel)
  have dnb: "dn + b < n \<longleftrightarrow> unat dn + unat b < unat n"
  proof -
    have "unat n < 2305843009213693952" using less.prems(1) in_window_small [of nd off n] by (simp add: pipe_ok_def)
    then have "unat (dn + b) = unat dn + unat b" using less.prems(2) by (intro unat_add_no_wrap) simp
    then show ?thesis by (simp add: word_less_nat_alt)
  qed
  have same: "\<exists>c. did s c s \<and> inside nd (unat off) (unat n) c" "\<And>w. \<exists>c. did s c (s\<lparr>world := w\<rparr>) \<and> inside nd (unat off) (unat n) c"
    using did_refl [of s] by (auto simp: did_def intro!: exI [of _ "[]"])
  show ?case
  proof (cases "sqe < FGDS_URING_QD \<and> unat dn + unat b < unat n")
    case False
    then show ?thesis using dnb less.prems(2) same(1) by (auto simp: fill_loop.simps fill_safe_def)
  next
    case True
    note sub = sub_request [OF less.prems(1) conjunct2 [OF True]]
    let ?m = "sub_size n dn b"
    obtain ok w xs where x: "fgds_do_xfer_addr os (deviceID fid) g (off + dn + b) ?m s =
        (if ok then Inr (Some xs, s\<lparr>world := w, xfer_live := Suc (xfer_live s)\<rparr>) else Inr (None, s\<lparr>world := w\<rparr>))"
      and two: "length xs = 1 \<or> length xs = 2" and nb: "\<forall>x\<in>set xs. unat (nbyte x) < 4294967296"
      and ins: "\<Union> (set ` seg_bytes ` set xs) \<subseteq> host_byte nd ` {unat off..<unat off + unat n}"
      using sub_xfer_any [OF less.prems(1) conjunct2 [OF True], of os] by blast
    have X: "runs_to (fgds_do_xfer_addr os (deviceID fid) g (off + dn + b) ?m) s Q =
        (if ok then Q (Some xs) (s\<lparr>world := w, xfer_live := Suc (xfer_live s)\<rparr>) else Q None (s\<lparr>world := w\<rparr>))" for Q
      using x by (simp add: runs_to_def)
    let ?s = "s\<lparr>world := w, xfer_live := Suc (xfer_live s)\<rparr>"
    have fuel: "fuel \<noteq> 0" using True less.prems(4) by auto
    have pos: "0 < unat ?m" using sub(5) by (simp add: word_less_nat_alt)
    have step: "runs_to (prep_loop os op fid xs (f_off + dn + b) sqe) ?s (\<lambda>r t. runs_to (case r of (sqe', err) \<Rightarrow>
          if err then ret (sqe', b, True) else sq free_xfer (fill_loop (fuel - 1) os op fid g off n f_off dn sqe' (b + ?m))) t
        (fill_safe nd off n dn s sqe b))" if fits: "\<not> FGDS_URING_QD < sqe + length xs"
    proof (rule runs_to_mono [OF prep_any [where k = "xfer_live s"]])
      fix r t
      assume "\<exists>c. fst ` set (io_bytes c) \<subseteq> \<Union> (set ` seg_bytes ` set xs) \<and>
        did (if snd r then ?s\<lparr>xfer_live := xfer_live s\<rparr> else ?s) c t \<and> (\<not> snd r \<longrightarrow> fst r = sqe + length xs)"
      then obtain c where c: "fst ` set (io_bytes c) \<subseteq> \<Union> (set ` seg_bytes ` set xs)"
        "did (if snd r then ?s\<lparr>xfer_live := xfer_live s\<rparr> else ?s) c t" "\<not> snd r \<longrightarrow> fst r = sqe + length xs" by blast
      have inc: "inside nd (unat off) (unat n) c" using c(1) ins by (auto simp: inside_def)
      show "runs_to (case r of (sqe', err) \<Rightarrow> if err then ret (sqe', b, True)
          else sq free_xfer (fill_loop (fuel - 1) os op fid g off n f_off dn sqe' (b + ?m))) t (fill_safe nd off n dn s sqe b)"
      proof (cases "snd r")
        case True
        then have "did s c t" using c(2) by (auto simp: did_def)
        then show ?thesis using True inc less.prems(2) by (cases r) (auto simp: fill_safe_def)
      next
        case False
        let ?t = "t\<lparr>xfer_live := xfer_live t - 1\<rparr>"
        have d: "did s c ?t" and xl: "xfer_live t \<noteq> 0" using c(2) False by (auto simp: did_def)
        have bm: "unat (b + ?m) = unat b + unat ?m" by (rule sub(7))
        have "runs_to (fill_loop (fuel - 1) os op fid g off n f_off dn (sqe + length xs) (b + ?m)) ?t
            (fill_safe nd off n dn ?t (sqe + length xs) (b + ?m))"
        proof (rule less.IH)
          show "fuel - 1 < fuel" using fuel by simp
          show "pipe_ok ?t (deviceID fid) g n p nd off" using less.prems(1) pipe_ok_did [OF d] by simp
          show "unat dn + unat (b + ?m) \<le> unat n" using sub(1) bm \<open>sqe < FGDS_URING_QD \<and> unat dn + unat b < unat n\<close> by linarith
          show "sqe + length xs \<le> FGDS_URING_QD" "FGDS_URING_QD - (sqe + length xs) \<le> fuel - 1"
            using fits two less.prems(4) by auto
        qed
        then have "runs_to (fill_loop (fuel - 1) os op fid g off n f_off dn (sqe + length xs) (b + ?m)) ?t (fill_safe nd off n dn s sqe b)"
        proof (rule runs_to_mono)
          fix r' u
          assume f: "fill_safe nd off n dn ?t (sqe + length xs) (b + ?m) r' u"
          obtain sqe' b' err where r': "r' = (sqe', b', err)" by (cases r') auto
          from f obtain c' where c': "did ?t c' u" "inside nd (unat off) (unat n) c'" unfolding fill_safe_def r' by auto
          have "did s (c @ c') u" "inside nd (unat off) (unat n) (c @ c')" using did_trans [OF d c'(1)] inc c'(2) by simp_all
          then show "fill_safe nd off n dn s sqe b r' u"
            using f bm pos unfolding fill_safe_def r' by auto
        qed
        then show ?thesis using False c(3) xl by (cases r) simp
      qed
    qed (use nb in simp_all)
    show ?thesis
    proof (cases "FGDS_URING_QD < sqe + length xs")
      case full: True
      then have "fill_safe nd off n dn s sqe b (sqe, b, False) (s\<lparr>world := w\<rparr>)"
        using two less.prems(2) same(2) by (auto simp: fill_safe_def)
      moreover have "fill_safe nd off n dn s sqe b (sqe, b, True) (s\<lparr>world := w\<rparr>)"
        using less.prems(2) same(2) by (auto simp: fill_safe_def)
      ultimately show ?thesis using True dnb fuel full by (subst fill_loop.simps) (simp add: X)
    next
      case False
      have "fill_safe nd off n dn s sqe b (sqe, b, True) (s\<lparr>world := w\<rparr>)"
        using less.prems(2) same(2) by (auto simp: fill_safe_def)
      then show ?thesis using True dnb fuel False step by (subst fill_loop.simps) (simp add: X)
    qed
  qed
qed

lemma finish_any:
  assumes "\<forall>w. peek_ends 512 os d w" and "valid_dev d" and "uring_lock (g_dev_ctx v (nat d)) = Locked"
    and "did (set_uring_lock s d Locked) c v" and "uring_lock (g_dev_ctx s (nat d)) = Unlocked"
    and "inside nd b n c" and "\<not> err \<longrightarrow> P dn tot"
  shows "runs_to (finish_batch os d dn submitted reaped tot err) v
    (\<lambda>r t. \<exists>c. did s c t \<and> inside nd b n c \<and> (\<forall>dn' tot'. r = Some (dn', tot') \<longrightarrow> P dn' tot'))"
proof (cases "err \<and> 0 < submitted")
  case False
  have "did s c (set_uring_lock v d Unlocked)" by (rule set_uring_lock_did [OF assms(4,5)])
  then show ?thesis using False assms by (auto simp: finish_batch_def runs_to_release_uring)
next
  case True
  have "runs_to (drain os d submitted reaped) v (\<lambda>r u. uring_lock (g_dev_ctx u (nat d)) = Locked \<and>
      (\<exists>c. did s c (set_uring_lock u d Unlocked) \<and> inside nd b n c))"
  proof (rule runs_to_mono [OF drain_any [OF assms(1)]], elim exE conjE)
    fix u c'
    assume c': "did v c' u" "io_bytes c' = []"
    have "did (set_uring_lock s d Locked) (c @ c') u" by (rule did_trans [OF assms(4) c'(1)])
    from set_uring_lock_did [OF this assms(5)]
    show "uring_lock (g_dev_ctx u (nat d)) = Locked \<and> (\<exists>c. did s c (set_uring_lock u d Unlocked) \<and> inside nd b n c)"
      using assms(3,6) did_same(1) [OF c'(1)] inside_silent [OF c'(2)] by (auto intro!: exI [of _ "c @ c'"])
  qed
  then have "runs_to (drain os d submitted reaped) v (\<lambda>r u. runs_to (sq (release_uring_lock d) (ret None)) u
      (\<lambda>r t. \<exists>c. did s c t \<and> inside nd b n c \<and> (\<forall>dn' tot'. r = Some (dn', tot') \<longrightarrow> P dn' tot')))"
    by (rule runs_to_mono) (use assms(2) in \<open>auto simp: runs_to_release_uring\<close>)
  then show ?thesis using True by (simp add: finish_batch_def)
qed

lemma batch_any:
  assumes "\<forall>w. peek_ends 512 os (deviceID fid) w" and "pipe_ok s (deviceID fid) g n p nd off"
    and "unat dn < unat n" and "uring_lock (g_dev_ctx s (nat (deviceID fid))) = Unlocked"
  shows "runs_to (io_batch os op fid g off n f_off dn tot) s (\<lambda>r t. \<exists>c. did s c t \<and> inside nd (unat off) (unat n) c \<and>
    (\<forall>dn' tot'. r = Some (dn', tot') \<longrightarrow> unat dn < unat dn' \<and> unat dn' \<le> unat n))"
proof -
  let ?d = "deviceID fid"
  have d: "valid_dev ?d" using assms(2) by (simp add: pipe_ok_def)
  let ?s = "set_uring_lock s ?d Locked"
  have fill: "runs_to (fill_loop FGDS_URING_QD os op fid g off n f_off dn 0 0) ?s (fill_safe nd off n dn ?s 0 0)"
    by (rule fill_any) (use assms in simp_all)
  show ?thesis unfolding io_batch_def runs_to_sq runs_to_acquire_uring [OF d assms(4)] runs_to_bnd
  proof (rule runs_to_mono [OF fill], goal_cases)
    case (1 r t)
    obtain sqe b err where r: "r = (sqe, b, err)" by (cases r) auto
    from 1 obtain c where c: "did ?s c t" "inside nd (unat off) (unat n) c" unfolding fill_safe_def r by auto
    from 1 have bb: "unat dn + unat b \<le> unat n" "\<not> err \<longrightarrow> 0 < unat b" using assms(3) unfolding fill_safe_def r by auto
    have db: "unat (dn + b) = unat dn + unat b"
      by (rule unat_add_no_wrap) (use order_le_less_trans [OF bb(1) unat_u64_less] in simp)
    have fin: "runs_to (finish_batch os ?d (dn + b) sub reaped tot' e) v (\<lambda>r t. \<exists>c. did s c t \<and> inside nd (unat off) (unat n) c \<and>
        (\<forall>dn' tot'. r = Some (dn', tot') \<longrightarrow> unat dn < unat dn' \<and> unat dn' \<le> unat n))"
      if "did ?s c' v" "inside nd (unat off) (unat n) c'" "\<not> e \<longrightarrow> \<not> err" for sub reaped tot' e v c'
      by (rule finish_any [OF assms(1) d _ that(1) assms(4) that(2)])
        (use did_same(1) [OF that(1)] that(3) bb db in auto)
    obtain sub w where w: "ring_submit os ?d (world t) = (sub, w)" by fastforce
    let ?u = "t\<lparr>world := w, calls := calls t @ [C_submit ?d sub]\<rparr>"
    have u: "did ?s (c @ [C_submit ?d sub]) ?u" by (rule did_trans [OF c(1) did_call])
    have ins: "inside nd (unat off) (unat n) [C_submit ?d sub]" by (rule inside_silent) simp
    have reap: "runs_to (reap_loop k os ?d 0 tot) v (\<lambda>r v. runs_to (case r of (reaped, tot', err3) \<Rightarrow>
        finish_batch os ?d (dn + b) sb reaped tot' (e \<or> err3)) v (\<lambda>r t. \<exists>c. did s c t \<and> inside nd (unat off) (unat n) c \<and>
        (\<forall>dn' tot'. r = Some (dn', tot') \<longrightarrow> unat dn < unat dn' \<and> unat dn' \<le> unat n)))"
      if v: "did ?s c' v" "inside nd (unat off) (unat n) c'" "\<not> err" for k sb v c' e
    proof (rule runs_to_mono [OF reap_any], elim exE conjE)
      fix r v' c2
      assume c2: "did v c2 v'" "io_bytes c2 = []"
      show "runs_to (case r of (reaped, tot', err3) \<Rightarrow>
        finish_batch os ?d (dn + b) sb reaped tot' (e \<or> err3)) v' (\<lambda>r t. \<exists>c. did s c t \<and> inside nd (unat off) (unat n) c \<and>
        (\<forall>dn' tot'. r = Some (dn', tot') \<longrightarrow> unat dn < unat dn' \<and> unat dn' \<le> unat n))"
        unfolding split_beta
        by (rule fin [OF did_trans [OF v(1) c2(1)]]) (use v inside_silent [OF c2(2)] in simp_all)
    qed
    show ?case
    proof (cases "\<not> err \<and> 0 < sqe")
      case True
      then show ?thesis unfolding r
        using fin [OF u] reap [OF u, where e = False] c(2) ins w by (auto simp: ring_defs)
    next
      case False
      then show ?thesis unfolding r
        using fin [OF c(1,2)] reap [OF c(1,2), where e = False] by auto
    qed
  qed
qed

lemma io_loop_any:
  assumes "\<forall>w. peek_ends 512 os (deviceID fid) w" and "pipe_ok s (deviceID fid) g n p nd off"
    and "unat dn \<le> unat n" and "uring_lock (g_dev_ctx s (nat (deviceID fid))) = Unlocked" and "unat n - unat dn \<le> fuel"
  shows "runs_to (io_loop fuel os op fid g off n f_off dn tot) s (\<lambda>r t. \<exists>c. did s c t \<and> inside nd (unat off) (unat n) c)"
  using assms(2-)
proof (induction fuel arbitrary: s dn tot rule: less_induct)
  case (less fuel)
  show ?case
  proof (cases "unat dn < unat n")
    case False
    then show ?thesis using did_refl [of s]
      by (subst io_loop.simps) (auto simp: word_less_nat_alt intro!: exI [of _ "[]"])
  next
    case True
    then have fuel: "fuel \<noteq> 0" "dn < n" using less.prems(4) by (auto simp: word_less_nat_alt)
    have "runs_to (io_batch os op fid g off n f_off dn tot) s (\<lambda>r t. runs_to (case r of None \<Rightarrow> ret (-1)
        | Some (dn', tot') \<Rightarrow> io_loop (fuel - 1) os op fid g off n f_off dn' tot') t
        (\<lambda>r t. \<exists>c. did s c t \<and> inside nd (unat off) (unat n) c))"
    proof (rule runs_to_mono [OF batch_any [OF assms(1) less.prems(1) True less.prems(3)]], elim exE conjE)
      fix r :: "(u64 \<times> u64) option" and t c
      assume c: "did s c t" "inside nd (unat off) (unat n) c"
        and r: "\<forall>dn' tot'. r = Some (dn', tot') \<longrightarrow> unat dn < unat dn' \<and> unat dn' \<le> unat n"
      have next_batch: "runs_to (io_loop (fuel - 1) os op fid g off n f_off dn' tot') t (\<lambda>r t. \<exists>c. did s c t \<and> inside nd (unat off) (unat n) c)"
        if "r = Some (dn', tot')" for dn' tot'
      proof (rule runs_to_mono [OF less.IH])
        show "pipe_ok t (deviceID fid) g n p nd off" using less.prems(1) pipe_ok_did [OF c(1)] by simp
        show "uring_lock (g_dev_ctx t (nat (deviceID fid))) = Unlocked" using less.prems(3) did_same [OF c(1)] by simp
        show "fuel - 1 < fuel" using fuel by simp
        show "unat dn' \<le> unat n" "unat n - unat dn' \<le> fuel - 1" using r that less.prems(4) by auto
        show "\<exists>c'. did t c' u \<and> inside nd (unat off) (unat n) c' \<Longrightarrow> \<exists>c. did s c u \<and> inside nd (unat off) (unat n) c" for u
          using did_trans [OF c(1)] c(2) inside_simps(2) by blast
      qed
      show "runs_to (case r of None \<Rightarrow> ret (-1)
        | Some (dn', tot') \<Rightarrow> io_loop (fuel - 1) os op fid g off n f_off dn' tot') t
        (\<lambda>r t. \<exists>c. did s c t \<and> inside nd (unat off) (unat n) c)"
        using c next_batch by (auto split: option.split)
    qed
    then show ?thesis using fuel by (subst io_loop.simps) (simp del: One_nat_def)
  qed
qed

definition reaches :: "'w lib \<Rightarrow> xfer_addr list \<Rightarrow> 'w lib \<Rightarrow> bool" where
  "reaches s xs t \<longleftrightarrow> (\<exists>c. did s c t \<and> fst ` set (io_bytes c) \<subseteq> \<Union> (set ` seg_bytes ` set xs))"

lemma reaches_step:
  assumes "reaches (s\<lparr>world := w, calls := calls s @ [c], xfer_live := k\<rparr>) xs t" and "call_bytes c = span (target_addr x) off (unat (nbyte x))"
  shows "reaches (s\<lparr>xfer_live := k\<rparr>) (x # xs) t"
proof -
  obtain c' where c': "did (s\<lparr>world := w, calls := calls s @ [c], xfer_live := k\<rparr>) c' t"
      "fst ` set (io_bytes c') \<subseteq> \<Union> (set ` seg_bytes ` set xs)" using assms(1) by (auto simp: reaches_def)
  have "did (s\<lparr>xfer_live := k\<rparr>) (c # c') t" using c'(1) by (auto simp: did_def)
  moreover have "fst ` set (call_bytes c) = set (seg_bytes x)"
    unfolding assms(2) by (simp add: span_fst seg_bytes_def atLeast0LessThan)
  then have "fst ` set (io_bytes (c # c')) \<subseteq> \<Union> (set ` seg_bytes ` set (x # xs))"
    using c'(2) by (simp add: image_Un) blast
  ultimately show ?thesis unfolding reaches_def by blast
qed

lemma reaches_refl: "reaches s xs s"
  unfolding reaches_def by (rule exI [of _ "[]"]) (simp add: did_refl)

lemma read_direct_any:
  assumes "xfer_live s = Suc k"
  shows "runs_to (read_direct_loop os f f_off xs tot) s (\<lambda>r. reaches (s\<lparr>xfer_live := k\<rparr>) xs)"
  using assms
proof (induction xs arbitrary: s tot)
  case Nil
  then show ?case by (simp add: reaches_refl)
next
  case (Cons x xs)
  obtain r w where r: "os_pread os f (target_addr x) (nbyte x) (f_off + tot) (world s) = (r, w)" by fastforce
  let ?s = "s\<lparr>world := w, calls := calls s @ [C_pread f (target_addr x) (nbyte x) (f_off + tot) r]\<rparr>"
  have "runs_to (read_direct_loop os f f_off xs (tot + r)) ?s (\<lambda>r. reaches (s\<lparr>xfer_live := k\<rparr>) (x # xs))"
    by (rule runs_to_mono [OF Cons.IH]) (use Cons.prems in \<open>auto intro: reaches_step\<close>)
  then show ?case using Cons.prems r by (simp add: sys_defs reaches_step [OF reaches_refl, where off = "f_off + tot"])
qed

lemma write_direct_any:
  assumes "xfer_live s = Suc k"
  shows "runs_to (write_direct_loop os f f_off xs tot) s (\<lambda>r. reaches (s\<lparr>xfer_live := k\<rparr>) xs)"
  using assms
proof (induction xs arbitrary: s tot)
  case Nil
  then show ?case by (simp add: reaches_refl)
next
  case (Cons x xs)
  obtain r w where r: "os_pwrite os f (target_addr x) (nbyte x) (f_off + tot) (world s) = (r, w)" by fastforce
  let ?s = "s\<lparr>world := w, calls := calls s @ [C_pwrite f (target_addr x) (nbyte x) (f_off + tot) r]\<rparr>"
  have "runs_to (write_direct_loop os f f_off xs (tot + nbyte x)) ?s (\<lambda>r. reaches (s\<lparr>xfer_live := k\<rparr>) (x # xs))"
    by (rule runs_to_mono [OF Cons.IH]) (use Cons.prems in \<open>auto intro: reaches_step\<close>)
  then show ?case using Cons.prems r by (simp add: sys_defs reaches_step [OF reaches_refl, where off = "f_off + tot"])
qed

text \<open>
  What holds of a call whatever the environment answers: only host addresses of the window are
  passed on, and nothing else of the state changes.
\<close>

definition io_safe :: "'w lib \<Rightarrow> int \<Rightarrow> fgds_mmap_node \<Rightarrow> s64 \<Rightarrow> u64 \<Rightarrow> 'w lib \<Rightarrow> bool" where
  "io_safe s d nd off n t \<longleftrightarrow> (\<exists>c. io_frame s d c t \<and> inside nd (unat off) (unat n) c)"

lemma io_safe_did: "did s c t \<Longrightarrow> inside nd (unat off) (unat n) c \<Longrightarrow> io_safe s d nd off n t"
  by (auto simp: io_safe_def intro: io_frame_did)

lemma direct_safe:
  assumes "pipe_ok s (deviceID fid) g n p nd off" and "uring_lock (g_dev_ctx s (nat (deviceID fid))) = Unlocked"
  shows "runs_to (fgds_read_direct os fid g off n f_off) s (\<lambda>r. io_safe s (deviceID fid) nd off n)"
    and "runs_to (fgds_write_direct os fid g off n f_off) s (\<lambda>r. io_safe s (deviceID fid) nd off n)"
proof -
  let ?xs = "window_segs nd (unat off) (unat n)"
  have ok: "reg_inv s" "valid_dev (deviceID fid)" "node_wf nd" "in_window nd off n"
    using assms(1) by (auto simp: pipe_ok_def)
  note small = in_window_small [OF ok(3,4)]
  obtain a w where w: "os_malloc os (xfer_bytes off n) (world s) = (a, w)" by fastforce
  let ?s = "s\<lparr>world := w, xfer_live := Suc (xfer_live s)\<rparr>"
  have unmoved: "io_safe s (deviceID fid) nd off n (s\<lparr>world := w\<rparr>)"
    by (rule io_safe_did [where c = "[]"]) (use did_call [of s "[]" w] in simp_all)
  have xs: "\<Union> (set ` seg_bytes ` set ?xs) = host_byte nd ` {unat off..<unat off + unat n}"
  proof -
    have "\<Union> (set ` seg_bytes ` set ?xs) = set (concat (map seg_bytes ?xs))" by auto
    also have "\<dots> = host_byte nd ` {unat off..<unat off + unat n}" unfolding window_segs_bytes [OF small(1)] by simp
    finally show ?thesis .
  qed
  have done_safe: "io_safe s (deviceID fid) nd off n t" if reached: "reaches (?s\<lparr>xfer_live := xfer_live s\<rparr>) ?xs t" for t
  proof -
    have "?s\<lparr>xfer_live := xfer_live s\<rparr> = s\<lparr>world := w\<rparr>" by simp
    then obtain c where c: "did (s\<lparr>world := w\<rparr>) c t" "inside nd (unat off) (unat n) c"
      using reached unfolding reaches_def xs inside_def by auto
    show ?thesis by (rule io_safe_did [OF did_drop_xfer [OF c(1)] c(2)])
  qed
  have safe: "runs_to (bnd (fgds_do_xfer_addr os (deviceID fid) g off n) (\<lambda>x. case x of None \<Rightarrow> ret (-1) | Some xs \<Rightarrow> m xs)) s
      (\<lambda>r. io_safe s (deviceID fid) nd off n)"
    if "runs_to (m ?xs) ?s (\<lambda>r. io_safe s (deviceID fid) nd off n)" for m
    using that unmoved unfolding runs_to_def bnd_def do_xfer_addr_eq [OF ok(1,2) pipe_ok_full [OF assms(1)] ok(3,4) w]
    by (cases a) (simp_all add: ret_def)
  have "runs_to (read_direct_loop os (fd fid) f_off ?xs 0) ?s (\<lambda>r. io_safe s (deviceID fid) nd off n)"
    by (rule runs_to_mono [OF read_direct_any]) (use done_safe in auto)
  then show "runs_to (fgds_read_direct os fid g off n f_off) s (\<lambda>r. io_safe s (deviceID fid) nd off n)"
    unfolding fgds_read_direct_def by (intro safe) simp
  have "runs_to (write_direct_loop os (fd fid) f_off ?xs 0) ?s (\<lambda>r. io_safe s (deviceID fid) nd off n)"
    by (rule runs_to_mono [OF write_direct_any]) (use done_safe in auto)
  then show "runs_to (fgds_write_direct os fid g off n f_off) s (\<lambda>r. io_safe s (deviceID fid) nd off n)"
    unfolding fgds_write_direct_def by (intro safe) simp
qed

lemma ring_setup_any:
  assumes "valid_dev d" and "uring_lock (g_dev_ctx s (nat d)) = Unlocked"
  shows "runs_to (ring_setup os d) s (\<lambda>r t. \<exists>c w i. io_bytes c = [] \<and> t = s\<lparr>world := w, calls := calls s @ c,
    g_dev_ctx := (g_dev_ctx s)(nat d := (g_dev_ctx s (nat d))\<lparr>uring_init := i\<rparr>)\<rparr>)"
proof (cases "uring_init (g_dev_ctx s (nat d))")
  case True
  then have "(g_dev_ctx s)(nat d := (g_dev_ctx s (nat d))\<lparr>uring_init := True\<rparr>) = g_dev_ctx s"
    by (simp add: fun_eq_iff)
  then have eq: "s = s\<lparr>world := world s, calls := calls s @ [],
      g_dev_ctx := (g_dev_ctx s)(nat d := (g_dev_ctx s (nat d))\<lparr>uring_init := True\<rparr>)\<rparr>" by simp
  have "runs_to (ring_setup os d) s (\<lambda>r t. t = s)" using True assms(1) by (simp add: ring_setup_def)
  then show ?thesis by (rule runs_to_mono) (use eq io_bytes_simps(1) in blast)
next
  case False
  obtain r w where w: "ring_queue_init os d (world s) = (r, w)" by fastforce
  have upd: "b\<lparr>uring_init := True, uring_lock := Unlocked\<rparr> = b\<lparr>uring_init := True\<rparr>"
      "\<not> uring_init b \<Longrightarrow> b\<lparr>uring_lock := Unlocked\<rparr> = b\<lparr>uring_init := False\<rparr>"
    if "uring_lock b = Unlocked" for b :: fgds_mmap_buffer
    using that by (cases b; simp)+
  show ?thesis using False assms w unfolding ring_setup_def
    by (cases "r < 0") (auto simp: upd lock_defs ring_defs intro!: exI [of _ "[C_ring_init d r]"] exI [of _ w] exI [of _ "0 \<le> r"])
qed

lemma pipeline_safe:
  assumes "\<forall>w. peek_ends 512 os (deviceID fid) w" and "pipe_ok s (deviceID fid) g n p nd off"
    and "uring_lock (g_dev_ctx s (nat (deviceID fid))) = Unlocked"
  shows "runs_to (bnd (ring_setup os (deviceID fid)) (\<lambda>ok. if \<not> ok then ret (-1)
      else io_loop (unat n) os op fid g off n f_off 0 0)) s (\<lambda>r. io_safe s (deviceID fid) nd off n)"
  unfolding runs_to_bnd
proof (rule runs_to_mono [OF ring_setup_any [OF pipe_ok_dev [OF assms(2)] assms(3)]], elim exE conjE)
  let ?d = "deviceID fid"
  fix r t c w i
  assume c: "io_bytes c = []"
    and t: "t = s\<lparr>world := w, calls := calls s @ c, g_dev_ctx := (g_dev_ctx s)(nat ?d := (g_dev_ctx s (nat ?d))\<lparr>uring_init := i\<rparr>)\<rparr>"
  have un: "uring_lock (g_dev_ctx t (nat ?d)) = Unlocked" using assms(3) by (simp add: t)
  have safe: "io_safe s ?d nd off n u" if u: "did t c' u" "inside nd (unat off) (unat n) c'" for c' u
  proof -
    have "io_frame s ?d (c @ c') u" by (rule io_frame_trans [OF _ io_frame_did [OF u(1)]]) (auto simp: io_frame_def t)
    moreover have "inside nd (unat off) (unat n) (c @ c')" using u(2) inside_silent [OF c] by simp
    ultimately show ?thesis unfolding io_safe_def by blast
  qed
  have "runs_to (io_loop (unat n) os op fid g off n f_off 0 0) t (\<lambda>r u. \<exists>c. did t c u \<and> inside nd (unat off) (unat n) c)"
    by (rule io_loop_any [where p = p, OF assms(1)]) (use assms(2) un in \<open>simp_all add: t pipe_ok_def covering_def\<close>)
  then have "runs_to (io_loop (unat n) os op fid g off n f_off 0 0) t (\<lambda>r. io_safe s ?d nd off n)"
    by (rule runs_to_mono) (use safe in blast)
  then show "runs_to (if \<not> r then ret (-1) else io_loop (unat n) os op fid g off n f_off 0 0) t (\<lambda>r. io_safe s ?d nd off n)"
    using safe [OF did_refl] by simp
qed

end
