(* ===== verification/Fgds_Trace.thy ===== *)
theory Fgds_Trace
  imports Fgds_Regmem
begin

text \<open>
  What every run of an operation does to the state, whatever it computes and whatever the environment answers. A relation
  between the state before and the state after that is reflexive and transitive holds of an operation as soon as it
  holds of its elementary steps. Two relations are used: the calls added to the log satisfy a predicate, and a part of
  the state is kept.
\<close>

section \<open>Relations that every step keeps\<close>

definition always :: "('s \<Rightarrow> 's \<Rightarrow> bool) \<Rightarrow> ('s, 'a) prog \<Rightarrow> bool" where
  "always R m \<longleftrightarrow> (\<forall>s r t. m s = Inr (r, t) \<longrightarrow> R s t)"

named_theorems trace \<open>what the building blocks do in every run\<close>

lemma always_if [trace]: "always R m \<Longrightarrow> always R n \<Longrightarrow> always R (if b then m else n)"
  by simp

lemma always_option [trace]: "always R m \<Longrightarrow> (\<And>x. always R (f x)) \<Longrightarrow> always R (case z of None \<Rightarrow> m | Some x \<Rightarrow> f x)"
  by (cases z) simp_all

lemma always_prod [trace]: "(\<And>x y. always R (f x y)) \<Longrightarrow> always R (case z of (x, y) \<Rightarrow> f x y)"
  by (cases z) simp

lemma always_modify [trace]: "(\<And>s. R s (f s)) \<Longrightarrow> always R (modify f)"
  by (simp add: always_def modify_def)

text \<open>A run that satisfies a postcondition also satisfies the relation.\<close>

lemma always_runs_to: "always R m \<Longrightarrow> runs_to m s Q \<Longrightarrow> runs_to m s (\<lambda>r t. Q r t \<and> R s t)"
  by (auto simp: always_def runs_to_def split: sum.splits)

locale step_relation =
  fixes R :: "'s \<Rightarrow> 's \<Rightarrow> bool"
  assumes step_refl: "R s s" and step_trans: "R s t \<Longrightarrow> R t u \<Longrightarrow> R s u"
begin

lemma always_bnd [trace]: "always R m \<Longrightarrow> (\<And>x. always R (f x)) \<Longrightarrow> always R (bnd m f)"
  unfolding always_def bnd_def by (simp split: sum.splits prod.splits) (blast intro: step_trans)

lemma always_sq [trace]: "always R m \<Longrightarrow> always R n \<Longrightarrow> always R (sq m n)"
  unfolding sq_def by (rule always_bnd)

lemma always_still [trace]:
  "always R (ret x)" "always R (fail e)" "always R (gets g)" "always R (lift r)" "always R (assert_or e b)" "always R (the_or e y)"
  by (auto simp: always_def ret_def fail_def gets_def lift_def assert_or_def the_or_def step_refl split: sum.splits option.splits if_splits)

lemma always_for_each [trace]: "(\<And>x. always R (f x)) \<Longrightarrow> always R (for_each xs f)"
  by (induction xs) (simp_all add: always_still always_sq)

end

section \<open>The calls an operation makes\<close>

definition logged :: "(call \<Rightarrow> bool) \<Rightarrow> 'w lib \<Rightarrow> 'w lib \<Rightarrow> bool" where
  "logged P s t \<longleftrightarrow> (\<exists>c. calls t = calls s @ c \<and> list_all P c)"

interpretation log: step_relation "logged P" for P
  by unfold_locales (force simp: logged_def)+

lemma logged_same [trace]: "calls t = calls s \<Longrightarrow> logged P s t"
  by (simp add: logged_def)

lemma log_env [trace]: "(\<And>w. P (k (fst (f w)))) \<Longrightarrow> always (logged P) (ext f k)" "always (logged P) (silent h)"
  by (auto simp: always_def logged_def ext_def silent_def split: prod.splits) (metis fst_conv)

lemma log_state [trace]:
  "always (logged P) (dev_ctx d)" "always (logged P) (upd_ctx d u)" "always (logged P) (load_node p)"
  "always (logged P) (store_node p n)" "always (logged P) (free_node p)" "always (logged P) (malloc_node os)"
  "always (logged P) (acquire_uring_lock d)" "always (logged P) (release_uring_lock d)" "always (logged P) free_xfer"
  "always (logged P) (acquire_lock d)" "always (logged P) (release_lock d)" "always (logged P) free_vaddrs"
  by (simp_all add: dev_ctx_def upd_ctx_def load_node_def store_node_def free_node_def malloc_node_def malloc_def lock_defs
    free_xfer_def free_vaddrs_def trace)

lemma log_find [trace]: "always (logged P) (find_loop fuel q a l)" "always (logged P) (find_fgds_mmap_node d a l)"
proof -
  show find: "always (logged P) (find_loop fuel q a l)" for fuel q
    by (induction fuel q a l rule: find_loop.induct) (simp_all add: trace)
  show "always (logged P) (find_fgds_mmap_node d a l)" unfolding find_fgds_mmap_node_def by (intro trace find)
qed

lemma log_xfer_addr [trace]: "always (logged P) (fgds_do_xfer_addr os d g off n)"
  unfolding fgds_do_xfer_addr_def malloc_def Let_def by (intro trace) simp

section \<open>What registering and deregistering keep\<close>

text \<open>
  The marks, the descriptors in use, and of every context the descriptor, the flags and the lock of the ring.
\<close>

definition dev_part :: "'w lib \<Rightarrow> (nat \<Rightarrow> bool) \<times> nat \<times> (nat \<Rightarrow> int \<times> bool \<times> bool \<times> mutex)" where
  "dev_part s = (fgds_initialized s, xfer_live s,
     \<lambda>k. (dev_fd (g_dev_ctx s k), initialized (g_dev_ctx s k), uring_init (g_dev_ctx s k), uring_lock (g_dev_ctx s k)))"

definition kept :: "'w lib \<Rightarrow> 'w lib \<Rightarrow> bool" where
  "kept s t \<longleftrightarrow> dev_part t = dev_part s"

interpretation kept: step_relation kept
  by unfold_locales (simp_all add: kept_def)

lemma keeps_env [trace]: "always kept (ext f k)" "always kept (silent h)"
  by (auto simp: always_def kept_def dev_part_def ext_def silent_def split: prod.splits)

lemma keeps_sys [trace]:
  "always kept (sys_mmap os len f)" "always kept (sys_munmap os a len)" "always kept (sys_ioctl os f' c p)" "always kept (malloc os n)"
  unfolding sys_defs by (intro trace)+

lemma keeps_upd_ctx [trace]:
  assumes "\<And>b. dev_fd (u b) = dev_fd b \<and> initialized (u b) = initialized b \<and> uring_init (u b) = uring_init b \<and> uring_lock (u b) = uring_lock b"
  shows "always kept (upd_ctx d u)"
  unfolding upd_ctx_def by (intro trace) (simp add: kept_def dev_part_def fun_eq_iff assms)

lemma keeps_state [trace]:
  "always kept (dev_ctx d)" "always kept (load_node p)" "always kept (store_node p n)" "always kept (free_node p)"
  "always kept (malloc_node os)" "always kept free_vaddrs" "always kept (acquire_lock d)" "always kept (release_lock d)"
  by (simp_all add: dev_ctx_def load_node_def store_node_def free_node_def malloc_node_def free_vaddrs_def acquire_lock_def
    release_lock_def trace kept_def dev_part_def)

lemma keeps_registry [trace]:
  "always kept (find_fgds_mmap_node d a l)" "always kept (insert_fgds_mmap_node d q)" "always kept (delete_fgds_mmap_node d p)"
proof -
  have "always kept (find_loop fuel q a l)" for fuel q
    by (induction fuel q a l rule: find_loop.induct) (simp_all add: trace)
  then show "always kept (find_fgds_mmap_node d a l)" unfolding find_fgds_mmap_node_def by (intro trace)
  show "always kept (insert_fgds_mmap_node d q)" unfolding insert_fgds_mmap_node_def by (intro trace) simp
  have "always kept (delete_loop fuel d p pr q)" for fuel pr q
    by (induction fuel d p pr q rule: delete_loop.induct) (simp_all add: trace)
  then show "always kept (delete_fgds_mmap_node d p)" unfolding delete_fgds_mmap_node_def by (intro trace)
qed

lemma keeps_regmem: "always kept (fgds_regmem os d g len)"
proof -
  have "always kept (regmem_loop os d g count left js mapped vs)" for count left js mapped vs
    by (induction js arbitrary: mapped vs) (simp_all add: trace fgds_regmem_ctx_def regmem_cleanup_def)
  then show ?thesis unfolding fgds_regmem_def Let_def
    by (intro trace) (simp_all add: kept_def dev_part_def)
qed

lemma keeps_deregmem: "always kept (fgds_deregmem os d g len)"
proof -
  have "always kept (dereg_loop os d n js um r)" for n js um r
    by (induction js arbitrary: um r) (simp_all add: trace fgds_deregmem_ctx_def)
  then show ?thesis unfolding fgds_deregmem_def by (intro trace)
qed

section \<open>Operations on the registry do not call the environment\<close>

definition same_world :: "'w lib \<Rightarrow> 'w lib \<Rightarrow> bool" where
  "same_world s t \<longleftrightarrow> world t = world s"

interpretation still: step_relation same_world
  by unfold_locales (simp_all add: same_world_def)

lemma world_insert: "always same_world (insert_fgds_mmap_node d q)"
  by (simp add: insert_fgds_mmap_node_def acquire_lock_def release_lock_def dev_ctx_def upd_ctx_def load_node_def store_node_def trace
    same_world_def split: option.split)

section \<open>The calls of registering and deregistering\<close>

definition mem_call :: "call \<Rightarrow> bool" where
  "mem_call c = (case c of C_mmap len f a \<Rightarrow> a \<noteq> Some 0 | C_munmap a len r \<Rightarrow> True | C_ioctl f k p r \<Rightarrow> True | _ \<Rightarrow> False)"

lemma log_mem [trace]:
  "always (logged mem_call) (sys_munmap os a len)" "always (logged mem_call) (sys_ioctl os f c p)"
  "(\<And>w. fst (os_mmap os len f w) \<noteq> Some 0) \<Longrightarrow> always (logged mem_call) (sys_mmap os len f)"
  unfolding sys_defs by (intro trace; simp add: mem_call_def)+

lemma log_registry [trace]:
  "always (logged P) (insert_fgds_mmap_node d q)" "always (logged P) (delete_fgds_mmap_node d p)"
proof -
  show "always (logged P) (insert_fgds_mmap_node d q)" unfolding insert_fgds_mmap_node_def by (intro trace)
  have "always (logged P) (delete_loop fuel d p pr q)" for fuel pr q
    by (induction fuel d p pr q rule: delete_loop.induct) (simp_all add: trace)
  then show "always (logged P) (delete_fgds_mmap_node d p)" unfolding delete_fgds_mmap_node_def by (intro trace)
qed

lemma log_regmem:
  assumes "\<And>n f w. fst (os_mmap os n f w) \<noteq> Some 0"
  shows "always (logged mem_call) (fgds_regmem os d g len)"
proof -
  have "always (logged mem_call) (regmem_loop os d g count left js mapped vs)" for count left js mapped vs
    by (induction js arbitrary: mapped vs) (simp_all add: trace assms fgds_regmem_ctx_def regmem_cleanup_def)
  then show ?thesis unfolding fgds_regmem_def Let_def malloc_def by (intro trace) simp_all
qed

lemma log_deregmem: "always (logged mem_call) (fgds_deregmem os d g len)"
proof -
  have "always (logged mem_call) (dereg_loop os d n js um r)" for n js um r
    by (induction js arbitrary: um r) (simp_all add: trace fgds_deregmem_ctx_def)
  then show ?thesis unfolding fgds_deregmem_def by (intro trace)
qed

end
