(* ===== verification/Fgds_Transfer.thy ===== *)
theory Fgds_Transfer
  imports Fgds_IO Fgds_Trace
begin

text \<open>
  The properties of \<open>fgds_read\<close> and \<open>fgds_write\<close>. The traces of an operation say which calls it can make, without looking
  at what it computes: a read makes read requests on its file and on the ring of its device and nothing else, whatever the
  environment answers.
\<close>

section \<open>The calls of reads and writes\<close>

text \<open>A transfer request of kind \<open>op\<close> on the file, or an operation on the ring of the device.\<close>

definition io_call :: "io_op \<Rightarrow> fgds_fileid \<Rightarrow> call \<Rightarrow> bool" where
  "io_call op fid c = (case c of
     C_pread f a n off r \<Rightarrow> op = Op_Read \<and> f = fd fid
   | C_pwrite f a n off r \<Rightarrow> op = Op_Write \<and> f = fd fid
   | C_sqe d k f a n off \<Rightarrow> d = deviceID fid \<and> k = op \<and> f = fd fid
   | C_ring_init d r \<Rightarrow> d = deviceID fid
   | C_submit d r \<Rightarrow> d = deviceID fid
   | C_cqe d r res \<Rightarrow> d = deviceID fid
   | C_peek d r \<Rightarrow> d = deviceID fid
   | _ \<Rightarrow> False)"

lemma logs_direct:
  "always (logged (io_call Op_Read fid)) (fgds_read_direct os fid g off n f_off)"
  "always (logged (io_call Op_Write fid)) (fgds_write_direct os fid g off n f_off)"
proof -
  have "always (logged (io_call Op_Read fid)) (read_direct_loop os (fd fid) f_off xs tot)" for xs tot
    by (induction xs arbitrary: tot) (auto simp: sys_defs io_call_def intro!: trace)
  then show "always (logged (io_call Op_Read fid)) (fgds_read_direct os fid g off n f_off)"
    unfolding fgds_read_direct_def by (intro trace)
  have "always (logged (io_call Op_Write fid)) (write_direct_loop os (fd fid) f_off xs tot)" for xs tot
    by (induction xs arbitrary: tot) (auto simp: sys_defs io_call_def intro!: trace)
  then show "always (logged (io_call Op_Write fid)) (fgds_write_direct os fid g off n f_off)"
    unfolding fgds_write_direct_def by (intro trace)
qed

lemma logs_fill: "always (logged (io_call op fid)) (fill_loop fuel os op fid g off n f_off dn sqe b)"
proof -
  have prep: "always (logged (io_call op fid)) (prep_loop os op fid xs o' k)" for xs o' k
    by (induction xs arbitrary: o' k) (auto simp: ring_defs io_call_def intro!: trace)
  show ?thesis
  proof (induction fuel arbitrary: sqe b)
    case 0
    show ?case by (subst fill_loop.simps) (simp add: trace)
  next
    case (Suc fuel)
    then show ?case by (subst fill_loop.simps) (intro trace prep, simp)
  qed
qed

lemma logs_rings:
  "always (logged (io_call op fid)) (ring_setup os (deviceID fid))" "always (logged (io_call op fid)) (io_uring_submit os (deviceID fid))"
  "always (logged (io_call op fid)) (reap_loop k os (deviceID fid) rp tot)"
  "always (logged (io_call op fid)) (finish_batch os (deviceID fid) dn sub rp' tot' err)"
proof -
  let ?d = "deviceID fid"
  show "always (logged (io_call op fid)) (ring_setup os ?d)" "always (logged (io_call op fid)) (io_uring_submit os ?d)"
    unfolding ring_setup_def ring_defs by (intro trace; simp add: io_call_def)+
  show "always (logged (io_call op fid)) (reap_loop k os ?d rp tot)"
    by (induction k arbitrary: rp tot) (auto simp: ring_defs io_call_def intro!: trace split: prod.splits)
  have peek: "always (logged (io_call op fid)) (peek_loop fuel os ?d rp)" for fuel rp
    by (induction fuel arbitrary: rp; subst peek_loop.simps) (auto simp: ring_defs io_call_def intro!: trace)
  have wait: "always (logged (io_call op fid)) (wait_rest k os ?d)" for k
    by (induction k) (auto simp: ring_defs io_call_def intro!: trace split: prod.splits)
  show "always (logged (io_call op fid)) (finish_batch os ?d dn sub rp' tot' err)"
    unfolding finish_batch_def drain_def by (intro trace peek wait)
qed

lemma logs_io_loop: "always (logged (io_call op fid)) (io_loop fuel os op fid g off n f_off dn tot)"
proof (induction fuel arbitrary: dn tot)
  case 0
  show ?case by (subst io_loop.simps) (simp add: trace)
next
  case (Suc fuel)
  have "always (logged (io_call op fid)) (io_batch os op fid g off n f_off dn tot)"
    unfolding io_batch_def by (intro trace logs_fill logs_rings)
  then show ?case by (subst io_loop.simps) (intro trace, simp_all add: Suc)
qed

lemma logs_transfer:
  "always (logged (io_call Op_Read fid)) (fgds_read os fid g off n f_off)" "always (logged (io_call Op_Write fid)) (fgds_write os fid g off n f_off)"
  unfolding fgds_read_def fgds_write_def by (intro trace logs_direct logs_rings logs_io_loop)+

section \<open>Complete and confined transfers\<close>

text \<open>
  A complete transfer: \<open>n\<close> is returned, the requests are of the right kind and on the right file, they move byte \<open>k\<close> of
  the window to or from file offset \<open>f_off + k\<close>, each exactly once and in order, and nothing else of the state changes.
\<close>

definition transferred :: "io_op \<Rightarrow> fgds_fileid \<Rightarrow> 'w lib \<Rightarrow> fgds_mmap_node \<Rightarrow> s64 \<Rightarrow> s64 \<Rightarrow> s64 \<Rightarrow> s64 \<Rightarrow> 'w lib \<Rightarrow> bool" where
  "transferred op fid s nd off n f_off r t \<longleftrightarrow> r = n \<and> (\<exists>c. io_frame s (deviceID fid) c t \<and> list_all (io_call op fid) c \<and>
     io_bytes c = win_pairs nd (unat off) f_off 0 (unat n))"

text \<open>
  What holds of a call whatever the environment answers: its requests are of its kind and on its file, they name no host
  address outside the window, and nothing else of the state changes.
\<close>

definition confined :: "io_op \<Rightarrow> fgds_fileid \<Rightarrow> 'w lib \<Rightarrow> fgds_mmap_node \<Rightarrow> s64 \<Rightarrow> u64 \<Rightarrow> s64 \<Rightarrow> 'w lib \<Rightarrow> bool" where
  "confined op fid s nd off n r t \<longleftrightarrow> (\<exists>c. io_frame s (deviceID fid) c t \<and> list_all (io_call op fid) c \<and>
     inside nd (unat off) (unat n) c)"

lemma transferred_moved:
  assumes "always (logged (io_call op fid)) m" and "runs_to m s (\<lambda>r t. moved s (deviceID fid) nd off n f_off r t \<and> R t)"
  shows "runs_to m s (\<lambda>r t. transferred op fid s nd off n f_off r t \<and> R t)"
  by (rule runs_to_mono [OF always_runs_to [OF assms]])
    (use io_frame_same(1) in \<open>fastforce simp: logged_def moved_def transferred_def\<close>)

lemma confined_safe:
  assumes "always (logged (io_call op fid)) m" and "runs_to m s (\<lambda>r. io_safe s (deviceID fid) nd off n)"
  shows "runs_to m s (confined op fid s nd off n)"
  by (rule runs_to_mono [OF always_runs_to [OF assms]]) (use io_frame_same(1) in \<open>fastforce simp: logged_def io_safe_def confined_def\<close>)

lemma large_transfer:
  assumes "ring_laws os (deviceID fid) sqf flight" and "pipe_ok s (deviceID fid) g n p nd off" and "ring_idle s (deviceID fid) sqf flight"
  shows "\<not> sint n < sint FGDS_URING_READ_THRESH \<Longrightarrow> runs_to (fgds_read os fid g off n f_off) s
      (\<lambda>r t. transferred Op_Read fid s nd off n f_off r t \<and> ring_idle t (deviceID fid) sqf flight)"
    and "\<not> sint n < sint FGDS_URING_WRITE_THRESH \<Longrightarrow> runs_to (fgds_write os fid g off n f_off) s
      (\<lambda>r t. transferred Op_Write fid s nd off n f_off r t \<and> ring_idle t (deviceID fid) sqf flight)"
  by (rule transferred_moved [OF logs_transfer(1)], simp add: fgds_read_def pipeline_spec [OF assms] del: runs_to_bnd)
    (rule transferred_moved [OF logs_transfer(2)], simp add: fgds_write_def pipeline_spec [OF assms] del: runs_to_bnd)

lemma small_transfer:
  assumes "always (logged (io_call op fid)) m" and "runs_to m s (\<lambda>r t. r = n \<and> (\<exists>c. did s c t \<and> io_bytes c = win_pairs nd (unat off) f_off 0 (unat n)))"
  shows "runs_to m s (transferred op fid s nd off n f_off)"
proof -
  have "runs_to m s (\<lambda>r t. moved s (deviceID fid) nd off n f_off r t \<and> True)"
    by (rule runs_to_mono [OF assms(2)]) (auto intro: moved_did)
  from transferred_moved [OF assms(1) this] show ?thesis by simp
qed

lemma transfer_confined:
  assumes "\<forall>w. peek_ends 512 os (deviceID fid) w" and "pipe_ok s (deviceID fid) g n p nd off"
    and "uring_lock (g_dev_ctx s (nat (deviceID fid))) = Unlocked"
  shows "runs_to (fgds_read os fid g off n f_off) s (confined Op_Read fid s nd off n)"
    and "runs_to (fgds_write os fid g off n f_off) s (confined Op_Write fid s nd off n)"
proof -
  have "runs_to (fgds_read os fid g off n f_off) s (\<lambda>r. io_safe s (deviceID fid) nd off n)"
    and "runs_to (fgds_write os fid g off n f_off) s (\<lambda>r. io_safe s (deviceID fid) nd off n)"
    unfolding fgds_read_def fgds_write_def using direct_safe [OF assms(2,3)] pipeline_safe [OF assms] by (simp_all del: runs_to_bnd)
  then show "runs_to (fgds_read os fid g off n f_off) s (confined Op_Read fid s nd off n)"
    and "runs_to (fgds_write os fid g off n f_off) s (confined Op_Write fid s nd off n)"
    using confined_safe logs_transfer by blast+
qed

section \<open>What is issued\<close>

text \<open>
  The submission queue of a device, read from the log of a program run from its start. A request that is prepared waits in
  the queue of its ring; a submission that returns \<open>r\<close> issues the first \<open>r\<close> requests that wait, whoever prepared them; a
  new ring and a torn down one have an empty queue. A \<open>pread\<close> or \<open>pwrite\<close> is issued at once. The result is the queue left
  and the transfers issued, in order.
\<close>

fun run_ring :: "int \<Rightarrow> call list \<Rightarrow> call list \<Rightarrow> call list \<times> call list" where
  "run_ring d q [] = (q, [])"
| "run_ring d q (c # cs) = (case c of
     C_sqe e op f a n off \<Rightarrow> run_ring d (if e = d then q @ [c] else q) cs
   | C_submit e r \<Rightarrow> (if e = d then map_prod id ((@) (take (nat r) q)) (run_ring d (drop (nat r) q) cs) else run_ring d q cs)
   | C_ring_init e r \<Rightarrow> run_ring d (if e = d \<and> 0 \<le> r then [] else q) cs
   | C_ring_exit e \<Rightarrow> run_ring d (if e = d then [] else q) cs
   | C_pread f a n off r \<Rightarrow> map_prod id ((#) c) (run_ring d q cs)
   | C_pwrite f a n off r \<Rightarrow> map_prod id ((#) c) (run_ring d q cs)
   | _ \<Rightarrow> run_ring d q cs)"

definition waiting :: "int \<Rightarrow> 'w lib \<Rightarrow> call list" where
  "waiting d s = fst (run_ring d [] (calls s))"

definition issued :: "int \<Rightarrow> 'w lib \<Rightarrow> call list" where
  "issued d s = snd (run_ring d [] (calls s))"

lemma run_ring_append:
  "run_ring d q (cs @ cs') = map_prod id ((@) (snd (run_ring d q cs))) (run_ring d (fst (run_ring d q cs)) cs')"
  by (induction cs arbitrary: q) (auto split: call.split simp: map_prod_def split_beta)

text \<open>Nothing is issued but what waited before or was asked for since.\<close>

lemma run_ring_subset: "set (snd (run_ring d q cs)) \<subseteq> set q \<union> set cs"
proof (induction cs arbitrary: q)
  case (Cons c cs)
  then show ?case by (cases c) (auto dest: in_set_takeD in_set_dropD dest!: subsetD [OF Cons.IH] split: if_splits)
qed simp

lemma inside_subset:
  assumes "inside nd b n c" and "set c' \<subseteq> set c"
  shows "inside nd b n c'"
proof -
  have "set (io_bytes c') \<subseteq> set (io_bytes c)" using assms(2) by (auto simp: io_bytes_def)
  then show ?thesis using assms(1) unfolding inside_def by blast
qed

text \<open>
  On a ring where nothing waits, what a confined call issues is its own: transfers of its kind on its file, at host
  addresses of the window.
\<close>

definition issues_own :: "io_op \<Rightarrow> fgds_fileid \<Rightarrow> 'w lib \<Rightarrow> fgds_mmap_node \<Rightarrow> s64 \<Rightarrow> u64 \<Rightarrow> 'w lib \<Rightarrow> bool" where
  "issues_own op fid s nd off n t \<longleftrightarrow> (\<exists>xs. issued (deviceID fid) t = issued (deviceID fid) s @ xs \<and>
     list_all (io_call op fid) xs \<and> inside nd (unat off) (unat n) xs)"

lemma confined_issues:
  assumes "confined op fid s nd off n r t" and "waiting (deviceID fid) s = []"
  shows "issues_own op fid s nd off n t"
proof -
  obtain c where c: "io_frame s (deviceID fid) c t" "list_all (io_call op fid) c" "inside nd (unat off) (unat n) c"
    using assms(1) unfolding confined_def by blast
  let ?xs = "snd (run_ring (deviceID fid) [] c)"
  have sub: "set ?xs \<subseteq> set c" using run_ring_subset [of "deviceID fid" "[]" c] by simp
  have "issued (deviceID fid) t = issued (deviceID fid) s @ ?xs"
    using io_frame_same(1) [OF c(1)] assms(2) by (simp add: issued_def waiting_def run_ring_append)
  moreover have "list_all (io_call op fid) ?xs" using c(2) sub by (auto simp: list_all_iff)
  ultimately show ?thesis unfolding issues_own_def using inside_subset [OF c(3) sub] by blast
qed

section \<open>Properties\<close>

text \<open>
  C4. Reads are exact on both paths. When \<open>gpu_buf\<close> is the start of a registered buffer that contains the window of
  \<open>nbyte\<close> bytes at \<open>gpu_buf + buf_offset\<close>, on an idle ring that satisfies \<open>ring_laws\<close> (completions in any order) and
  with full \<open>pread\<close> results, \<open>fgds_read\<close> ends, returns \<open>nbyte\<close>, and makes read requests on its file only, whether
  one \<open>pread\<close> per range or batches of 256 KB requests, which move byte \<open>k\<close> of the file from \<open>f_offset\<close> on to the
  host address of GPU byte \<open>gpu_buf + buf_offset + k\<close>, each byte once and in order. No descriptor is leaked, and the
  registry and the locks are as before.
\<close>

theorem fgds_read_exact:
  assumes "ring_laws os (deviceID fid) sqf flight" and "pipe_ok s (deviceID fid) g n p nd off"
    and "ring_idle s (deviceID fid) sqf flight" and "\<forall>a m k w. fst (os_pread os (fd fid) a m k w) = m"
    and "g = gpu_addr nd"
  shows "runs_to (fgds_read os fid g off n f_off) s (transferred Op_Read fid s nd off n f_off)"
proof (cases "sint n < sint FGDS_URING_READ_THRESH")
  case False
  show ?thesis by (rule runs_to_mono [OF large_transfer(1) [OF assms(1-3) False]]) simp
next
  case True
  have ok: "reg_inv s" "valid_dev (deviceID fid)" "node_wf nd" "in_window nd off n"
    using assms(2) by (auto simp: pipe_ok_def)
  obtain w where m: "os_malloc os (xfer_bytes off n) (world s) = (True, w)"
    using assms(1) unfolding ring_laws_def by meson
  show ?thesis unfolding fgds_read_def if_P [OF True]
    by (rule small_transfer [OF logs_direct(1) read_direct_spec [OF ok(1,2) pipe_ok_full [OF assms(2)] ok(3,4) m assms(4) [rule_format]]])
qed

lemma sim_ring_laws: "ring_laws sim_os d sim_sq (mset \<circ> sim_cq)"
proof -
  have "\<exists>n w'. n \<in># mset (sim_cq w) \<and> ring_wait_cqe sim_os d w = ((0, uint n), w') \<and>
      sim_sq (ring_cqe_seen sim_os d w') = sim_sq w \<and> mset (sim_cq (ring_cqe_seen sim_os d w')) = mset (sim_cq w) - {#n#}"
    if "sim_cq w \<noteq> []" for w
    using that by (intro exI [of _ "hd (sim_cq w)"] exI [of _ w]) (cases "sim_cq w"; simp add: sim_os_def)
  then show ?thesis unfolding ring_laws_def by (simp add: sim_os_def)
qed

lemma two_gb_pipe:
  "pipe_ok two_gb_lib (deviceID \<lparr>fd = 5, deviceID = 0\<rparr>) 0x10000000 0x300000 0 two_gb_node 0x3ff00000"
  "ring_idle two_gb_lib (deviceID \<lparr>fd = 5, deviceID = 0\<rparr>) sim_sq (mset \<circ> sim_cq)"
proof -
  have cov: "covering two_gb_lib 0 0x10000000 m = Some (0, two_gb_node)" if "m \<le> 0x300000" for m
  proof -
    have "unat m \<le> 3145728" using that by (simp add: word_le_nat_alt)
    then have "unat (0x10000000 + m) = 268435456 + unat m" using unat_add_no_wrap [of "0x10000000" m] by simp
    then have "(0x10000000 :: u64) + m \<le> 0x90000000" using \<open>unat m \<le> 3145728\<close> by (simp add: word_le_nat_alt)
    then show ?thesis unfolding covering_def two_gb_reg(2) by (simp add: node_covers_def two_gb_node_def)
  qed
  have "in_window two_gb_node 0x3ff00000 0x300000" by (simp add: in_window_def two_gb_node_def)
  then show "pipe_ok two_gb_lib (deviceID \<lparr>fd = 5, deviceID = 0\<rparr>) 0x10000000 0x300000 0 two_gb_node 0x3ff00000"
    using cov by (simp add: pipe_ok_def two_gb_reg(1) two_gb_covering(2))
  show "ring_idle two_gb_lib (deviceID \<lparr>fd = 5, deviceID = 0\<rparr>) sim_sq (mset \<circ> sim_cq)"
    by (simp add: ring_idle_def two_gb_lib_def lib_init_def ctx_init_def)
qed

theorem fgds_read_exact_witness:
  "runs_to (fgds_read sim_os \<lparr>fd = 5, deviceID = 0\<rparr> 0x10000000 0x3ff00000 0x300000 0x1000) two_gb_lib
    (transferred Op_Read \<lparr>fd = 5, deviceID = 0\<rparr> two_gb_lib two_gb_node 0x3ff00000 0x300000 0x1000)"
  by (rule fgds_read_exact [OF sim_ring_laws two_gb_pipe]) (simp_all add: sim_os_def two_gb_node_def)

text \<open>
  C5. Writes are exact on both paths. When \<open>gpu_buf\<close> is the start of a registered buffer that contains the window of
  \<open>nbyte\<close> bytes at \<open>gpu_buf + buf_offset\<close>, on an idle ring that satisfies \<open>ring_laws\<close> and with full \<open>pwrite\<close> results,
  \<open>fgds_write\<close> ends, returns \<open>nbyte\<close>, and makes write requests on its file only, which move the host address of GPU
  byte \<open>gpu_buf + buf_offset + k\<close> to byte \<open>f_offset + k\<close> of the file, each byte once and in order. No descriptor is
  leaked, and the registry and the locks are as before.
\<close>

theorem fgds_write_exact:
  assumes "ring_laws os (deviceID fid) sqf flight" and "pipe_ok s (deviceID fid) g n p nd off"
    and "ring_idle s (deviceID fid) sqf flight" and "\<forall>a m k w. fst (os_pwrite os (fd fid) a m k w) = m"
    and "g = gpu_addr nd"
  shows "runs_to (fgds_write os fid g off n f_off) s (transferred Op_Write fid s nd off n f_off)"
proof (cases "sint n < sint FGDS_URING_WRITE_THRESH")
  case False
  show ?thesis by (rule runs_to_mono [OF large_transfer(2) [OF assms(1-3) False]]) simp
next
  case True
  have ok: "reg_inv s" "valid_dev (deviceID fid)" "node_wf nd" "in_window nd off n"
    using assms(2) by (auto simp: pipe_ok_def)
  have pos: "0 \<le> sint n" using in_window_small [OF ok(3,4)] by (simp add: sint_nonneg_u64)
  have "int (unat n) < 2097152" using True unfolding sint_eq_unat [OF pos] by (simp del: of_nat_unat)
  then have small: "unat n < 2147483648" by linarith
  obtain w where m: "os_malloc os (xfer_bytes off n) (world s) = (True, w)"
    using assms(1) unfolding ring_laws_def by meson
  show ?thesis unfolding fgds_write_def if_P [OF True]
    by (rule small_transfer [OF logs_direct(2) write_direct_spec [OF ok(1,2) pipe_ok_full [OF assms(2)] ok(3,4) m assms(4) [rule_format] small]])
qed

theorem fgds_write_exact_witness:
  "runs_to (fgds_write sim_os \<lparr>fd = 5, deviceID = 0\<rparr> 0x10000000 0x3ff00000 0x300000 0x1000) two_gb_lib
    (transferred Op_Write \<lparr>fd = 5, deviceID = 0\<rparr> two_gb_lib two_gb_node 0x3ff00000 0x300000 0x1000)"
  by (rule fgds_write_exact [OF sim_ring_laws two_gb_pipe]) (simp_all add: sim_os_def two_gb_node_def)


text \<open>An environment whose waits fail and whose allocator gives out.\<close>

definition broken_os :: "sim_world os" where
  "broken_os = sim_os\<lparr>ring_wait_cqe := (\<lambda>_ w. ((-4, 0), w)), ring_peek_cqe := (\<lambda>_ w. (-11, w)),
     os_malloc := (\<lambda>_ w. (length (sim_sq w) < 3, w)), os_pread := (\<lambda>_ _ _ _ w. (-1, w))\<rparr>"


end
