(* ===== verification/Fgds_Async.thy ===== *)
theory Fgds_Async
  imports Fgds_Transfer
begin

text \<open>
  Asynchronous transfers on a CUDA stream (libfgds/integration.cc). \<open>fgds_read_async\<close> and \<open>fgds_write_async\<close>
  translate the window at once and hand a record to \<open>cudaLaunchHostFunc\<close>; the stream later calls \<open>fgds_callback\<close> with it.

  The state adds to that of the library the queue of each stream, the caller's \<open>bytes_done\<close> cells and the number of
  records allocated. CUDA is a parameter: \<open>launch\<close> says whether a launch is accepted. What CUDA documents of a stream, that
  host functions run one after the other in the order of their launches, is the step \<open>exec\<close> of \<open>async_step\<close> and the
  function \<open>stream_drain\<close>. A failing \<open>operator new\<close> throws and is not modelled.
\<close>

section \<open>The code\<close>

datatype fgds_op = FGDS_OP_READ | FGDS_OP_WRITE

record fgds_data =
  data_fd :: int
  data_op :: fgds_op
  data_xfer :: "xfer_addr list"
  data_offset :: s64
  data_done :: nat

record 'w app =
  app_lib :: "'w lib"
  streams :: "nat \<Rightarrow> fgds_data list"
  cells :: "nat \<Rightarrow> s64"
  data_live :: nat

abbreviation cudaSuccess :: int where "cudaSuccess \<equiv> 0"
abbreviation cudaErrorHostMemoryNotRegistered :: int where "cudaErrorHostMemoryNotRegistered \<equiv> 62"

definition lift_lib :: "('w lib, 'a) prog \<Rightarrow> ('w app, 'a) prog" where
  "lift_lib m = (\<lambda>s. case m (app_lib s) of Inl e \<Rightarrow> Inl e | Inr (x, l) \<Rightarrow> Inr (x, s\<lparr>app_lib := l\<rparr>))"

fun callback_loop :: "'w os \<Rightarrow> fgds_data \<Rightarrow> xfer_addr list \<Rightarrow> s64 \<Rightarrow> ('w app, unit) prog" where
  "callback_loop os d [] file_offset = ret ()"
| "callback_loop os d (x # xs) file_offset =
     bnd (lift_lib (if data_op d = FGDS_OP_READ then sys_pread os (data_fd d) (target_addr x) (nbyte x) file_offset
       else sys_pwrite os (data_fd d) (target_addr x) (nbyte x) file_offset)) (\<lambda>r.
     sq (modify (\<lambda>s. s\<lparr>cells := (cells s)(data_done d := cells s (data_done d) + r)\<rparr>))
     (callback_loop os d xs (file_offset + nbyte x)))"

definition fgds_callback :: "'w os \<Rightarrow> fgds_data \<Rightarrow> ('w app, unit) prog" where
  "fgds_callback os d = sq (modify (\<lambda>s. s\<lparr>cells := (cells s)(data_done d := 0)\<rparr>))
     (callback_loop os d (data_xfer d) (data_offset d))"

definition fgds_async :: "'w os \<Rightarrow> (nat \<Rightarrow> 'w \<Rightarrow> int \<times> 'w) \<Rightarrow> fgds_fileid \<Rightarrow> fgds_op \<Rightarrow> u64 \<Rightarrow> u64 \<Rightarrow> s64 \<Rightarrow> nat \<Rightarrow> nat \<Rightarrow> ('w app, int) prog" where
  "fgds_async os launch fid op buf n off bytes_done stream =
     bnd (lift_lib (fgds_do_xfer_addr os (deviceID fid) buf 0 n)) (\<lambda>addrs. case addrs of
       None \<Rightarrow> ret cudaErrorHostMemoryNotRegistered
     | Some xs \<Rightarrow>
       let d = \<lparr>data_fd = fd fid, data_op = op, data_xfer = xs, data_offset = off, data_done = bytes_done\<rparr> in
       sq (modify (\<lambda>s. s\<lparr>data_live := Suc (data_live s)\<rparr>))
       (bnd (lift_lib (silent (launch stream))) (\<lambda>r.
       sq (if r = cudaSuccess then modify (\<lambda>s. s\<lparr>streams := (streams s)(stream := streams s stream @ [d])\<rparr>) else ret ())
       (ret r))))"

definition fgds_read_async :: "'w os \<Rightarrow> (nat \<Rightarrow> 'w \<Rightarrow> int \<times> 'w) \<Rightarrow> fgds_fileid \<Rightarrow> u64 \<Rightarrow> u64 \<Rightarrow> s64 \<Rightarrow> nat \<Rightarrow> nat \<Rightarrow> ('w app, int) prog" where
  "fgds_read_async os launch fid buf n off bytes_done stream = fgds_async os launch fid FGDS_OP_READ buf n off bytes_done stream"

definition fgds_write_async :: "'w os \<Rightarrow> (nat \<Rightarrow> 'w \<Rightarrow> int \<times> 'w) \<Rightarrow> fgds_fileid \<Rightarrow> u64 \<Rightarrow> u64 \<Rightarrow> s64 \<Rightarrow> nat \<Rightarrow> nat \<Rightarrow> ('w app, int) prog" where
  "fgds_write_async os launch fid buf n off bytes_done stream = fgds_async os launch fid FGDS_OP_WRITE buf n off bytes_done stream"

section \<open>Streams\<close>

definition stream_drain :: "'w os \<Rightarrow> nat \<Rightarrow> ('w app, unit) prog" where
  "stream_drain os st = bnd (gets (\<lambda>s. streams s st)) (\<lambda>ds.
     sq (modify (\<lambda>s. s\<lparr>streams := (streams s)(st := [])\<rparr>)) (for_each ds (fgds_callback os)))"

text \<open>The steps of an application: an asynchronous call, or a stream running the function at its head.\<close>

inductive async_step :: "'w os \<Rightarrow> (nat \<Rightarrow> 'w \<Rightarrow> int \<times> 'w) \<Rightarrow> 'w app \<Rightarrow> 'w app \<Rightarrow> bool" for os launch where
  call: "fgds_async os launch fid op buf n off bytes_done stream s = Inr (r, t) \<Longrightarrow> async_step os launch s t"
| exec: "streams s st = d # ds \<Longrightarrow> fgds_callback os d (s\<lparr>streams := (streams s)(st := ds)\<rparr>) = Inr (u, t) \<Longrightarrow> async_step os launch s t"

lemma runs_to_lift_lib [wp, simp]:
  "runs_to (lift_lib m) s Q = runs_to m (app_lib s) (\<lambda>x l. Q x (s\<lparr>app_lib := l\<rparr>))"
  by (auto simp: runs_to_def lift_lib_def split: sum.splits)

section \<open>What a callback does\<close>

text \<open>The results of a sequence of transfers, whatever they are, are summed into the cell.\<close>

fun results :: "call list \<Rightarrow> s64" where
  "results [] = 0"
| "results (C_pread f a n off r # cs) = r + results cs"
| "results (C_pwrite f a n off r # cs) = r + results cs"
| "results (c # cs) = results cs"

lemma callback_loop_spec:
  "runs_to (callback_loop os d xs off) s (\<lambda>_ t. \<exists>c. did (app_lib s) c (app_lib t) \<and> length c = length xs \<and>
     io_bytes c = seg_spans xs off \<and> streams t = streams s \<and> data_live t = data_live s \<and>
     cells t = (cells s)(data_done d := cells s (data_done d) + results c) \<and>
     (\<forall>x\<in>set c. (\<exists>a n k w. x = (if data_op d = FGDS_OP_READ then C_pread (data_fd d) a n k (fst (os_pread os (data_fd d) a n k w))
        else C_pwrite (data_fd d) a n k (fst (os_pwrite os (data_fd d) a n k w))))))"
  (is "runs_to _ _ (\<lambda>_ t. ?Q xs off s t)")
proof (induction xs arbitrary: s off)
  case Nil
  have "?Q [] off s s" using did_refl [of "app_lib s"] by (intro exI [of _ "[]"]) simp
  then show ?case by simp
next
  case (Cons x xs)
  let ?io = "if data_op d = FGDS_OP_READ then sys_pread os (data_fd d) (target_addr x) (nbyte x) off
    else sys_pwrite os (data_fd d) (target_addr x) (nbyte x) off"
  let ?call = "\<lambda>r. if data_op d = FGDS_OP_READ then C_pread (data_fd d) (target_addr x) (nbyte x) off r
    else C_pwrite (data_fd d) (target_addr x) (nbyte x) off r"
  let ?f = "if data_op d = FGDS_OP_READ then os_pread os (data_fd d) (target_addr x) (nbyte x) off
    else os_pwrite os (data_fd d) (target_addr x) (nbyte x) off"
  obtain r w where w: "?f (world (app_lib s)) = (r, w)" by fastforce
  let ?l = "(app_lib s)\<lparr>world := w, calls := calls (app_lib s) @ [?call r]\<rparr>"
  let ?s = "s\<lparr>app_lib := ?l, cells := (cells s)(data_done d := cells s (data_done d) + r)\<rparr>"
  have step: "runs_to ?io (app_lib s) (\<lambda>x l. x = r \<and> l = ?l)" using w by (auto simp: sys_defs)
  have "runs_to (callback_loop os d xs (off + nbyte x)) ?s (\<lambda>_ t. ?Q (x # xs) off s t)"
  proof (rule runs_to_mono [OF Cons.IH], elim exE conjE)
    fix u :: unit and t :: "'a app" and c
    assume c: "did (app_lib ?s) c (app_lib t)" "length c = length xs" "io_bytes c = seg_spans xs (off + nbyte x)"
      and t: "streams t = streams ?s" "data_live t = data_live ?s" "cells t = (cells ?s)(data_done d := cells ?s (data_done d) + results c)"
      and e: "\<forall>x\<in>set c. (\<exists>a n k w. x = (if data_op d = FGDS_OP_READ then C_pread (data_fd d) a n k (fst (os_pread os (data_fd d) a n k w))
        else C_pwrite (data_fd d) a n k (fst (os_pwrite os (data_fd d) a n k w))))"
    have "did (app_lib s) (?call r # c) (app_lib t)" using c(1) by (auto simp: did_def)
    moreover have "results (?call r # c) = r + results c" "io_bytes (?call r # c) = seg_spans (x # xs) off" using c(3) by auto
    moreover have "\<exists>w. r = fst (?f w)" using w by (metis fst_conv)
    ultimately show "?Q (x # xs) off s t" using c(2) e t
      by (intro exI [of _ "?call r # c"]) (auto simp: add.assoc)
  qed
  then show ?case unfolding callback_loop.simps runs_to_bnd runs_to_lift_lib runs_to_sq runs_to_modify
    by (intro runs_to_mono [OF step]) (auto simp del: fun_upd_apply)
qed

lemma results_full:
  "\<forall>x\<in>set c. \<exists>f a n k. x = C_pread f a n k n \<or> x = C_pwrite f a n k n \<Longrightarrow> results c = of_nat (length (io_bytes c))"
proof (induction c)
  case (Cons x c)
  then obtain f a n k where "x = C_pread f a n k n \<or> x = C_pwrite f a n k n" by auto
  then show ?case using Cons by (auto simp: span_def)
qed simp

lemma results_failed:
  "\<forall>x\<in>set c. \<exists>f a n k. x = C_pread f a n k (-1) \<or> x = C_pwrite f a n k (-1) \<Longrightarrow> results c = - of_nat (length c)"
proof (induction c)
  case (Cons x c)
  then obtain f a n k where "x = C_pread f a n k (-1) \<or> x = C_pwrite f a n k (-1)" by auto
  then show ?case using Cons by auto
qed simp

text \<open>A call for a window of a registered buffer queues one callback on the stream.\<close>

lemma async_eq:
  assumes "reg_inv (app_lib s)" and "valid_dev (deviceID fid)" and "covering (app_lib s) (deviceID fid) buf n = Some (p, nd)"
    and "node_wf nd" and "in_window nd 0 n" and "os_malloc os (xfer_bytes 0 n) (world (app_lib s)) = (True, w)"
    and "launch st w = (cudaSuccess, w')"
  shows "fgds_async os launch fid op buf n off cell st s = Inr (cudaSuccess,
    s\<lparr>app_lib := (app_lib s)\<lparr>world := w', xfer_live := Suc (xfer_live (app_lib s))\<rparr>, data_live := Suc (data_live s),
      streams := (streams s)(st := streams s st @ [\<lparr>data_fd = fd fid, data_op = op, data_xfer = window_segs nd 0 (unat n),
        data_offset = off, data_done = cell\<rparr>])\<rparr>)"
  using do_xfer_addr_eq [OF assms(1-6)] assms(7) by (simp add: fgds_async_def run_simps lift_lib_def silent_def Let_def)

text \<open>
  A call on an empty stream followed by the run of the stream: the transfers are those of the window, and the cell holds the
  sum of their results.
\<close>

lemma async_then_drain:
  assumes "reg_inv (app_lib s)" and "valid_dev (deviceID fid)" and "covering (app_lib s) (deviceID fid) buf n = Some (p, nd)"
    and "node_wf nd" and "in_window nd 0 n" and m: "os_malloc os (xfer_bytes 0 n) (world (app_lib s)) = (True, w)"
    and l: "\<forall>w. fst (launch st w) = cudaSuccess" and e: "streams s st = []"
  shows "runs_to (bnd (fgds_async os launch fid op buf n off cell st) (\<lambda>r. sq (stream_drain os st) (ret r))) s (\<lambda>r t.
    r = cudaSuccess \<and> streams t st = [] \<and> data_live t = Suc (data_live s) \<and> xfer_live (app_lib t) = Suc (xfer_live (app_lib s)) \<and>
    (\<exists>c. calls (app_lib t) = calls (app_lib s) @ c \<and> io_bytes c = win_pairs nd 0 off 0 (unat n) \<and> cells t cell = results c \<and>
      length c = length (window_segs nd 0 (unat n)) \<and>
      (\<forall>x\<in>set c. (\<exists>a n k w. x = (if op = FGDS_OP_READ then C_pread (fd fid) a n k (fst (os_pread os (fd fid) a n k w))
        else C_pwrite (fd fid) a n k (fst (os_pwrite os (fd fid) a n k w)))))))" (is "runs_to _ _ ?Q")
proof -
  let ?xs = "window_segs nd 0 (unat n)"
  let ?d = "\<lparr>data_fd = fd fid, data_op = op, data_xfer = ?xs, data_offset = off, data_done = cell\<rparr>"
  have pos: "0 < unat n" using assms(5) by (simp add: in_window_def)
  obtain w' where w': "launch st w = (cudaSuccess, w')" using l by (metis prod.collapse)
  let ?l = "(app_lib s)\<lparr>world := w', xfer_live := Suc (xfer_live (app_lib s))\<rparr>"
  let ?t = "s\<lparr>app_lib := ?l, data_live := Suc (data_live s), streams := (streams s)(st := []), cells := (cells s)(cell := 0)\<rparr>"
  have "fgds_async os launch fid op buf n off cell st s = Inr (cudaSuccess, s\<lparr>app_lib := ?l, data_live := Suc (data_live s), streams := (streams s)(st := [?d])\<rparr>)"
    using async_eq [of s fid buf n p nd os w launch st, OF assms(1-6) w'] e by simp
  then have eq: "bnd (fgds_async os launch fid op buf n off cell st) (\<lambda>r. sq (stream_drain os st) (ret r)) s =
      sq (callback_loop os ?d ?xs off) (ret cudaSuccess) ?t"
    by (simp add: run_simps stream_drain_def fgds_callback_def split: sum.split prod.split)
  have "runs_to (callback_loop os ?d ?xs off) ?t (\<lambda>_ t. streams t st = [] \<and> data_live t = Suc (data_live s) \<and>
    xfer_live (app_lib t) = Suc (xfer_live (app_lib s)) \<and>
    (\<exists>c. calls (app_lib t) = calls (app_lib s) @ c \<and> io_bytes c = win_pairs nd 0 off 0 (unat n) \<and> cells t cell = results c \<and>
      length c = length (window_segs nd 0 (unat n)) \<and>
      (\<forall>x\<in>set c. (\<exists>a n k w. x = (if op = FGDS_OP_READ then C_pread (fd fid) a n k (fst (os_pread os (fd fid) a n k w))
        else C_pwrite (fd fid) a n k (fst (os_pwrite os (fd fid) a n k w)))))))"
    by (rule runs_to_mono [OF callback_loop_spec], elim exE conjE)
      (use seg_spans_win_pairs [OF pos] did_same(5,7) in \<open>fastforce\<close>)
  then have "runs_to (sq (callback_loop os ?d ?xs off) (ret cudaSuccess)) ?t ?Q"
    unfolding runs_to_sq runs_to_ret by (rule runs_to_mono) blast
  then show ?thesis unfolding runs_to_def eq .
qed

section \<open>Nothing is ever freed\<close>

lemma find_loop_same: "find_loop fuel q a l s = Inr (r, t) \<Longrightarrow> t = s"
  by (induction fuel q a l arbitrary: s rule: find_loop.induct) (auto simp: run split: if_splits option.splits)

lemma xfer_addr_counts:
  "fgds_do_xfer_addr os d g off n s = Inr (x, t) \<Longrightarrow> xfer_live s + (if x = None then 0 else 1) \<le> xfer_live t"
  by (auto simp: fgds_do_xfer_addr_def find_fgds_mmap_node_def run malloc_def Let_def
    dest!: find_loop_same split: if_splits option.splits sum.splits prod.splits)

lemma async_counts:
  assumes "fgds_async os launch fid op buf n off cell st s = Inr (r, t)"
  shows "data_live s \<le> data_live t" and "xfer_live (app_lib s) + (data_live t - data_live s) \<le> xfer_live (app_lib t)"
  using assms
  by (auto simp: fgds_async_def run lift_lib_def Let_def dest!: xfer_addr_counts split: if_splits option.splits sum.splits prod.splits)

lemma callback_counts:
  assumes "fgds_callback os d s = Inr (u, t)"
  shows "data_live t = data_live s" and "xfer_live (app_lib t) = xfer_live (app_lib s)"
proof -
  have "runs_to (fgds_callback os d) s (\<lambda>_ t. data_live t = data_live s \<and> xfer_live (app_lib t) = xfer_live (app_lib s))"
    unfolding fgds_callback_def runs_to_sq runs_to_modify
    by (rule runs_to_mono [OF callback_loop_spec]) (auto dest: did_same(5))
  then show "data_live t = data_live s" and "xfer_live (app_lib t) = xfer_live (app_lib s)" using assms by (simp_all add: runs_to_def)
qed

text \<open>
  Failed transfers are counted as minus one byte each. If every transfer fails, the call and the stream still report success
  and the cell holds minus the number of ranges of the window, not an error.
\<close>

lemma async_failure_miscounted:
  assumes "reg_inv (app_lib s)" and "valid_dev (deviceID fid)" and "covering (app_lib s) (deviceID fid) buf n = Some (p, nd)"
    and "node_wf nd" and "in_window nd 0 n" and "os_malloc os (xfer_bytes 0 n) (world (app_lib s)) = (True, w)"
    and "\<forall>w. fst (launch st w) = cudaSuccess" and "streams s st = []"
    and "\<forall>a m k w. fst (os_pread os (fd fid) a m k w) = -1 \<and> fst (os_pwrite os (fd fid) a m k w) = -1"
  shows "runs_to (bnd (fgds_async os launch fid op buf n off cell st) (\<lambda>r. sq (stream_drain os st) (ret r))) s (\<lambda>r t.
    r = cudaSuccess \<and> cells t cell = - of_nat (length (window_segs nd 0 (unat n))))"
proof (rule runs_to_mono [OF async_then_drain [of s fid buf n p nd os w launch st, OF assms(1-8)]], elim exE conjE, intro conjI)
  fix r :: int and t :: "'a app" and c
  assume c: "cells t cell = results c" "length c = length (window_segs nd 0 (unat n))"
    and e: "\<forall>x\<in>set c. \<exists>a n k w. x = (if op = FGDS_OP_READ then C_pread (fd fid) a n k (fst (os_pread os (fd fid) a n k w))
        else C_pwrite (fd fid) a n k (fst (os_pwrite os (fd fid) a n k w)))"
  have "\<forall>x\<in>set c. \<exists>f a n k. x = C_pread f a n k (-1) \<or> x = C_pwrite f a n k (-1)" using e assms(9) by (auto split: if_splits)
  from results_failed [OF this] show "cells t cell = - of_nat (length (window_segs nd 0 (unat n)))" using c by simp
qed

section \<open>Properties\<close>

text \<open>
  C12. Asynchronous transfers complete and are exact. When \<open>buf\<close> is the start of a registered buffer of at least \<open>n\<close> bytes, the stream
  has no work, memory for the descriptor and the launch of the callback are granted and every \<open>pread\<close> and \<open>pwrite\<close> is full, the call
  returns success; when the stream has run, the callback has made transfers of the right kind on the file only, which move byte \<open>k\<close> of the buffer
  once between its host address and file offset \<open>off + k\<close> for each \<open>k < n\<close>, and the caller's cell holds \<open>n\<close>.
\<close>

theorem async_completes:
  assumes "reg_inv (app_lib s)" and "valid_dev (deviceID fid)" and "covering (app_lib s) (deviceID fid) buf n = Some (p, nd)"
    and "node_wf nd" and "in_window nd 0 n" and "os_malloc os (xfer_bytes 0 n) (world (app_lib s)) = (True, w)"
    and "\<forall>w. fst (launch st w) = cudaSuccess" and "streams s st = []"
    and "\<forall>a m k w. fst (os_pread os (fd fid) a m k w) = m \<and> fst (os_pwrite os (fd fid) a m k w) = m"
    and "buf = gpu_addr nd"
  shows "runs_to (bnd (fgds_async os launch fid op buf n off cell st) (\<lambda>r. sq (stream_drain os st) (ret r))) s (\<lambda>r t.
    r = cudaSuccess \<and> streams t st = [] \<and> cells t cell = n \<and>
    (\<exists>c. calls (app_lib t) = calls (app_lib s) @ c \<and> list_all (io_call (if op = FGDS_OP_READ then Op_Read else Op_Write) fid) c \<and>
      io_bytes c = win_pairs nd 0 off 0 (unat n)))"
proof (rule runs_to_mono [OF async_then_drain [of s fid buf n p nd os w launch st, OF assms(1-8)]], elim exE conjE, intro conjI)
  fix r :: int and t :: "'a app" and c
  assume c: "calls (app_lib t) = calls (app_lib s) @ c" "io_bytes c = win_pairs nd 0 off 0 (unat n)" "cells t cell = results c"
    and e: "\<forall>x\<in>set c. \<exists>a n k w. x = (if op = FGDS_OP_READ then C_pread (fd fid) a n k (fst (os_pread os (fd fid) a n k w))
        else C_pwrite (fd fid) a n k (fst (os_pwrite os (fd fid) a n k w)))"
  have "\<forall>x\<in>set c. \<exists>f a n k. x = C_pread f a n k n \<or> x = C_pwrite f a n k n" using e assms(9) by (auto split: if_splits)
  from results_full [OF this] show "cells t cell = n" using c(2,3) by (simp add: win_pairs_def)
  have "list_all (io_call (if op = FGDS_OP_READ then Op_Read else Op_Write) fid) c"
    using e by (fastforce simp: list_all_iff io_call_def split: if_splits)
  then show "\<exists>c. calls (app_lib t) = calls (app_lib s) @ c \<and>
      list_all (io_call (if op = FGDS_OP_READ then Op_Read else Op_Write) fid) c \<and> io_bytes c = win_pairs nd 0 off 0 (unat n)" using c by blast
qed

definition two_gb_app :: "sim_world app" where
  "two_gb_app = \<lparr>app_lib = two_gb_lib, streams = \<lambda>_. [], cells = \<lambda>_. 0, data_live = 0\<rparr>"

theorem async_completes_witness:
  "runs_to (bnd (fgds_read_async sim_os (\<lambda>_ w. (cudaSuccess, w)) \<lparr>fd = 5, deviceID = 0\<rparr> 0x10000000 0x20000000 0 1 2)
      (\<lambda>r. sq (stream_drain sim_os 2) (ret r))) two_gb_app (\<lambda>r t. r = cudaSuccess \<and> cells t 1 = 0x20000000)"
  unfolding fgds_read_async_def
  by (rule runs_to_mono [OF async_completes [where nd = two_gb_node and p = 0]])
    (simp_all add: two_gb_app_def two_gb_reg two_gb_covering in_window_def two_gb_node_def [symmetric], simp_all add: two_gb_node_def sim_os_def)

text \<open>
  C13. Asynchronous transfers leak. In every state that calls and stream runs can reach, in any interleaving, the number of
  records and descriptors allocated has only grown: each accepted window costs one record and one descriptor for ever, since
  the callback frees neither.
\<close>

theorem async_never_frees:
  assumes "(async_step os launch)\<^sup>*\<^sup>* s t"
  shows "data_live s \<le> data_live t \<and> xfer_live (app_lib s) + (data_live t - data_live s) \<le> xfer_live (app_lib t)"
  using assms
proof (induction rule: rtranclp_induct)
  case (step t u)
  from step.hyps(2) have "data_live t \<le> data_live u \<and> xfer_live (app_lib t) + (data_live u - data_live t) \<le> xfer_live (app_lib u)"
  proof cases
    case call
    from async_counts [OF this] show ?thesis by blast
  next
    case exec
    from callback_counts [OF exec(2)] show ?thesis by simp
  qed
  then show ?case using step.IH by linarith
qed simp

text \<open>An asynchronous call and the run of its stream in a program with one registered buffer.\<close>

theorem async_never_frees_witness:
  "\<exists>t. (async_step sim_os (\<lambda>_ w. (cudaSuccess, w)))\<^sup>*\<^sup>* two_gb_app t \<and> data_live t = 1 \<and> 1 \<le> xfer_live (app_lib t)"
proof -
  let ?launch = "\<lambda>_ w. (cudaSuccess, w)" and ?fid = "\<lparr>fd = 5, deviceID = 0\<rparr>"
  obtain s d where s: "async_step sim_os ?launch two_gb_app s" "streams s 2 = [d]" "data_live s = 1"
  proof (rule that [OF call [OF async_eq [where s = two_gb_app and fid = ?fid and p = 0 and nd = two_gb_node and buf = "0x10000000"
      and n = "0x20000000" and st = 2]]])
    show "in_window two_gb_node 0 0x20000000" by (simp add: in_window_def two_gb_node_def)
  qed (simp_all add: two_gb_app_def two_gb_reg two_gb_covering)
  have "runs_to (fgds_callback sim_os d) (s\<lparr>streams := (streams s)(2 := [])\<rparr>) (\<lambda>_ _. True)"
    unfolding fgds_callback_def runs_to_sq runs_to_modify by (rule runs_to_mono [OF callback_loop_spec]) simp
  then obtain u t where t: "fgds_callback sim_os d (s\<lparr>streams := (streams s)(2 := [])\<rparr>) = Inr (u, t)"
    by (auto simp: runs_to_def split: sum.splits)
  then have steps: "(async_step sim_os ?launch)\<^sup>*\<^sup>* two_gb_app t"
    using s(1) exec [OF s(2)] by (meson rtranclp.simps)
  have "data_live t = 1" using callback_counts [OF t] s(3) by simp
  then show ?thesis using async_never_frees [OF steps] steps by (auto simp: two_gb_app_def)
qed

end
