(* ===== verification/Fgds_Example.thy ===== *)
theory Fgds_Example
  imports Fgds_Transfer
begin

text \<open>
  The example program example/example.cc: \<open>make_out_path\<close>, the two demos and \<open>main\<close>, on top of the library's operations.
  A demo opens its files and the device, allocates and registers a GPU buffer of 4 MB, moves the first 4 MB of the input
  file through it into a new file, and releases everything at one label that all error branches jump to. The output on the
  terminal is left out.
\<close>

section \<open>The environment of the program\<close>

text \<open>
  What the program calls beside the library: \<open>open\<close> of the input and of the output file, \<open>cudaMalloc\<close> (nothing when it fails),
  \<open>cudaFree\<close> and \<open>cudaSetDevice\<close> (true for \<open>cudaSuccess\<close>).
\<close>

record 'w rt =
  rt_open_in :: "string \<Rightarrow> 'w \<Rightarrow> int \<times> 'w"
  rt_open_out :: "string \<Rightarrow> 'w \<Rightarrow> int \<times> 'w"
  rt_malloc :: "u64 \<Rightarrow> 'w \<Rightarrow> u64 option \<times> 'w"
  rt_free :: "u64 \<Rightarrow> 'w \<Rightarrow> 'w"
  rt_set_device :: "int \<Rightarrow> 'w \<Rightarrow> bool \<times> 'w"

definition open_in :: "'w rt \<Rightarrow> string \<Rightarrow> ('w lib, int) prog" where
  "open_in rt path = ext (rt_open_in rt path) (C_open path)"

definition open_out :: "'w rt \<Rightarrow> string \<Rightarrow> ('w lib, int) prog" where
  "open_out rt path = ext (rt_open_out rt path) (C_open path)"

definition cudaMalloc :: "'w rt \<Rightarrow> u64 \<Rightarrow> ('w lib, u64 option) prog" where
  "cudaMalloc rt n = silent (rt_malloc rt n)"

definition cudaFree :: "'w rt \<Rightarrow> u64 \<Rightarrow> ('w lib, unit) prog" where
  "cudaFree rt a = silent (\<lambda>w. ((), rt_free rt a w))"

lemmas rt_defs = open_in_def open_out_def cudaMalloc_def cudaFree_def

section \<open>The program\<close>

abbreviation IO_SIZE :: u64 where "IO_SIZE \<equiv> 4194304"
abbreviation PATH_MAX :: nat where "PATH_MAX \<equiv> 4096"

text \<open>\<open>strncpy\<close> of at most \<open>n - suffix_len - 1\<close> characters, a terminator and \<open>strcat\<close>, on strings without their terminators.\<close>

definition make_out_path :: "string \<Rightarrow> string \<Rightarrow> nat \<Rightarrow> string" where
  "make_out_path path suffix n = take (n - length suffix - 1) path @ suffix"

text \<open>The label \<open>cleanup\<close>; a null pointer is 0.\<close>

definition cleanup :: "'w os \<Rightarrow> 'w rt \<Rightarrow> int \<Rightarrow> int \<Rightarrow> int \<Rightarrow> u64 \<Rightarrow> u64 \<Rightarrow> int \<Rightarrow> ('w lib, int) prog" where
  "cleanup os rt d fd_in fd_out gpu_buf target r =
     sq (if target \<noteq> 0 then sq (fgds_deregmem os d gpu_buf IO_SIZE) (ret ()) else ret ()) (
     sq (if gpu_buf \<noteq> 0 then cudaFree rt gpu_buf else ret ()) (
     sq (fgds_close os d) (
     sq (if 0 \<le> fd_in then sq (sys_close os fd_in) (ret ()) else ret ()) (
     sq (if 0 \<le> fd_out then sq (sys_close os fd_out) (ret ()) else ret ()) (
     ret r)))))"

definition fgds_demo :: "'w os \<Rightarrow> 'w rt \<Rightarrow> int \<Rightarrow> string \<Rightarrow> ('w lib, int) prog" where
  "fgds_demo os rt d in_path =
     bnd (open_in rt in_path) (\<lambda>fd_in. if fd_in < 0 then cleanup os rt d fd_in (-1) 0 0 1 else
     bnd (open_out rt (make_out_path in_path ''.fgds_demo.out'' PATH_MAX)) (\<lambda>fd_out.
       if fd_out < 0 then cleanup os rt d fd_in fd_out 0 0 1 else
     bnd (fgds_open os d) (\<lambda>r. if r \<noteq> 0 then cleanup os rt d fd_in fd_out 0 0 1 else
     bnd (cudaMalloc rt IO_SIZE) (\<lambda>g. case g of None \<Rightarrow> cleanup os rt d fd_in fd_out 0 0 1 | Some gpu_buf \<Rightarrow>
     bnd (fgds_regmem os d gpu_buf IO_SIZE) (\<lambda>(r, stored). let target_addr = (case stored of None \<Rightarrow> 0 | Some a \<Rightarrow> a) in
       if r \<noteq> 0 then cleanup os rt d fd_in fd_out gpu_buf target_addr 1 else
     bnd (sys_pread os fd_in target_addr IO_SIZE 0) (\<lambda>r.
       if r \<noteq> IO_SIZE then cleanup os rt d fd_in fd_out gpu_buf target_addr 1 else
     bnd (sys_pwrite os fd_out target_addr IO_SIZE 0) (\<lambda>r.
       if r \<noteq> IO_SIZE then cleanup os rt d fd_in fd_out gpu_buf target_addr 1 else
     cleanup os rt d fd_in fd_out gpu_buf target_addr 0)))))))"

definition fgds_read_write_demo :: "'w os \<Rightarrow> 'w rt \<Rightarrow> int \<Rightarrow> string \<Rightarrow> ('w lib, int) prog" where
  "fgds_read_write_demo os rt d in_path =
     bnd (open_in rt in_path) (\<lambda>fd_in. if fd_in < 0 then cleanup os rt d fd_in (-1) 0 0 1 else
     bnd (open_out rt (make_out_path in_path ''.fgds_read_write_demo.out'' PATH_MAX)) (\<lambda>fd_out.
       if fd_out < 0 then cleanup os rt d fd_in fd_out 0 0 1 else
     bnd (fgds_open os d) (\<lambda>r. if r \<noteq> 0 then cleanup os rt d fd_in fd_out 0 0 1 else
     bnd (cudaMalloc rt IO_SIZE) (\<lambda>g. case g of None \<Rightarrow> cleanup os rt d fd_in fd_out 0 0 1 | Some gpu_buf \<Rightarrow>
     bnd (fgds_regmem os d gpu_buf IO_SIZE) (\<lambda>(r, stored). let target_addr = (case stored of None \<Rightarrow> 0 | Some a \<Rightarrow> a) in
       if r \<noteq> 0 then cleanup os rt d fd_in fd_out gpu_buf target_addr 1 else
     bnd (fgds_read os \<lparr>fd = fd_in, deviceID = d\<rparr> gpu_buf 0 IO_SIZE 0) (\<lambda>r.
       if r \<noteq> IO_SIZE then cleanup os rt d fd_in fd_out gpu_buf target_addr 1 else
     bnd (fgds_write os \<lparr>fd = fd_out, deviceID = d\<rparr> gpu_buf 0 IO_SIZE 0) (\<lambda>r.
       if r \<noteq> IO_SIZE then cleanup os rt d fd_in fd_out gpu_buf target_addr 1 else
     cleanup os rt d fd_in fd_out gpu_buf target_addr 0)))))))"

text \<open>\<open>atoi\<close>: white space, a sign, and the digits up to the first other character. A number outside \<open>int\<close> is undefined behaviour.\<close>

fun digits_value :: "string \<Rightarrow> int \<Rightarrow> int" where
  "digits_value [] v = v"
| "digits_value (c # cs) v = (if 48 \<le> (of_char c :: int) \<and> (of_char c :: int) \<le> 57 then digits_value cs (10 * v + of_char c - 48) else v)"

definition atoi :: "string \<Rightarrow> int" where
  "atoi str = (case dropWhile (\<lambda>c. c = CHR '' '' \<or> c \<in> {CHR 0x09, CHR 0x0A, CHR 0x0B, CHR 0x0C, CHR 0x0D}) str of
     [] \<Rightarrow> 0
   | c # cs \<Rightarrow> if c = CHR ''-'' then - digits_value cs 0 else if c = CHR ''+'' then digits_value cs 0 else digits_value (c # cs) 0)"

text \<open>The arguments without the program's name.\<close>

definition main_prog :: "'w os \<Rightarrow> 'w rt \<Rightarrow> string list \<Rightarrow> ('w lib, int) prog" where
  "main_prog os rt args = (case args of
     gpu # path # _ \<Rightarrow>
       bnd (silent (rt_set_device rt (atoi gpu))) (\<lambda>ok. if \<not> ok then ret 1 else
       bnd (fgds_demo os rt (atoi gpu) path) (\<lambda>r. if r \<noteq> 0 then ret 1 else
       bnd (fgds_read_write_demo os rt (atoi gpu) path) (\<lambda>r. if r \<noteq> 0 then ret 1 else
       ret 0)))
   | _ \<Rightarrow> ret 1)"

section \<open>The common shape of the demos\<close>

definition demo_steps :: "'w os \<Rightarrow> 'w rt \<Rightarrow> int \<Rightarrow> string \<Rightarrow> string \<Rightarrow> (int \<Rightarrow> int \<Rightarrow> u64 \<Rightarrow> u64 \<Rightarrow> ('w lib, bool) prog) \<Rightarrow> ('w lib, int) prog" where
  "demo_steps os rt d in_path out_path body =
     bnd (open_in rt in_path) (\<lambda>fi. if fi < 0 then cleanup os rt d fi (-1) 0 0 1 else
     bnd (open_out rt out_path) (\<lambda>fo. if fo < 0 then cleanup os rt d fi fo 0 0 1 else
     bnd (fgds_open os d) (\<lambda>r. if r \<noteq> 0 then cleanup os rt d fi fo 0 0 1 else
     bnd (cudaMalloc rt IO_SIZE) (\<lambda>g. case g of None \<Rightarrow> cleanup os rt d fi fo 0 0 1 | Some g \<Rightarrow>
     bnd (fgds_regmem os d g IO_SIZE) (\<lambda>(r, a). let a = (case a of None \<Rightarrow> 0 | Some a \<Rightarrow> a) in
       if r \<noteq> 0 then cleanup os rt d fi fo g a 1 else
     bnd (body fi fo g a) (\<lambda>ok. cleanup os rt d fi fo g a (if ok then 0 else 1)))))))"

definition pass_mapped :: "'w os \<Rightarrow> int \<Rightarrow> int \<Rightarrow> u64 \<Rightarrow> u64 \<Rightarrow> ('w lib, bool) prog" where
  "pass_mapped os fi fo g a = bnd (sys_pread os fi a IO_SIZE 0) (\<lambda>r. if r \<noteq> IO_SIZE then ret False else
     bnd (sys_pwrite os fo a IO_SIZE 0) (\<lambda>r. ret (r = IO_SIZE)))"

definition pass_buffer :: "'w os \<Rightarrow> int \<Rightarrow> int \<Rightarrow> int \<Rightarrow> u64 \<Rightarrow> u64 \<Rightarrow> ('w lib, bool) prog" where
  "pass_buffer os d fi fo g a = bnd (fgds_read os \<lparr>fd = fi, deviceID = d\<rparr> g 0 IO_SIZE 0) (\<lambda>r. if r \<noteq> IO_SIZE then ret False else
     bnd (fgds_write os \<lparr>fd = fo, deviceID = d\<rparr> g 0 IO_SIZE 0) (\<lambda>r. ret (r = IO_SIZE)))"

lemma bnd_laws: "bnd (bnd m f) h = bnd m (\<lambda>x. bnd (f x) h)" "bnd (ret x) f = f x"
  "bnd (if b then m else n) f = (if b then bnd m f else bnd n f)"
  by (auto simp: bnd_def ret_def fun_eq_iff split: sum.splits)

lemma pass_then:
  "bnd (pass_mapped os fi fo g a) k = bnd (sys_pread os fi a IO_SIZE 0) (\<lambda>r. if r \<noteq> IO_SIZE then k False else
     bnd (sys_pwrite os fo a IO_SIZE 0) (\<lambda>r. if r \<noteq> IO_SIZE then k False else k True))"
  "bnd (pass_buffer os d fi fo g a) k = bnd (fgds_read os \<lparr>fd = fi, deviceID = d\<rparr> g 0 IO_SIZE 0) (\<lambda>r. if r \<noteq> IO_SIZE then k False else
     bnd (fgds_write os \<lparr>fd = fo, deviceID = d\<rparr> g 0 IO_SIZE 0) (\<lambda>r. if r \<noteq> IO_SIZE then k False else k True))"
proof -
  have full: "(\<lambda>r. k (r = IO_SIZE)) = (\<lambda>r. if r \<noteq> IO_SIZE then k False else k True)" by auto
  show "bnd (pass_mapped os fi fo g a) k = bnd (sys_pread os fi a IO_SIZE 0) (\<lambda>r. if r \<noteq> IO_SIZE then k False else
      bnd (sys_pwrite os fo a IO_SIZE 0) (\<lambda>r. if r \<noteq> IO_SIZE then k False else k True))"
    and "bnd (pass_buffer os d fi fo g a) k = bnd (fgds_read os \<lparr>fd = fi, deviceID = d\<rparr> g 0 IO_SIZE 0) (\<lambda>r. if r \<noteq> IO_SIZE then k False else
      bnd (fgds_write os \<lparr>fd = fo, deviceID = d\<rparr> g 0 IO_SIZE 0) (\<lambda>r. if r \<noteq> IO_SIZE then k False else k True))"
    unfolding pass_mapped_def pass_buffer_def bnd_laws full by (rule refl)+
qed

lemma demo_shapes:
  "fgds_demo os rt d path = demo_steps os rt d path (make_out_path path ''.fgds_demo.out'' PATH_MAX) (pass_mapped os)"
  "fgds_read_write_demo os rt d path =
    demo_steps os rt d path (make_out_path path ''.fgds_read_write_demo.out'' PATH_MAX) (pass_buffer os d)"
  unfolding fgds_demo_def fgds_read_write_demo_def demo_steps_def pass_then if_True if_False by (rule refl)+

section \<open>What a demo opens, maps and closes\<close>

definition opens_of :: "call list \<Rightarrow> int list" where
  "opens_of cs = concat (map (\<lambda>c. case c of C_open p f \<Rightarrow> if 0 < f then [f] else [] | _ \<Rightarrow> []) cs)"

definition closes_of :: "call list \<Rightarrow> int list" where
  "closes_of cs = concat (map (\<lambda>c. case c of C_close f \<Rightarrow> [f] | _ \<Rightarrow> []) cs)"

text \<open>Every mapping made was removed, every descriptor opened was closed.\<close>

definition balanced :: "call list \<Rightarrow> bool" where
  "balanced c \<longleftrightarrow> maps_of c = unmaps_of c \<and> mset (opens_of c) = mset (closes_of c)"

lemma effects_simps [simp]:
  "opens_of [] = []" "opens_of (c @ c') = opens_of c @ opens_of c'" "opens_of (C_open p f # c) = (if 0 < f then f # opens_of c else opens_of c)"
  "opens_of (C_close f # c) = opens_of c" "opens_of (C_ring_exit d # c) = opens_of c"
  "closes_of [] = []" "closes_of (c @ c') = closes_of c @ closes_of c'" "closes_of (C_open p f # c) = closes_of c"
  "closes_of (C_close f # c) = f # closes_of c" "closes_of (C_ring_exit d # c) = closes_of c"
  "maps_of (C_open p f # c) = maps_of c" "maps_of (C_close f # c) = maps_of c" "maps_of (C_ring_exit d # c) = maps_of c"
  "unmaps_of (C_open p f # c) = unmaps_of c" "unmaps_of (C_close f # c) = unmaps_of c" "unmaps_of (C_ring_exit d # c) = unmaps_of c"
  by (simp_all add: opens_of_def closes_of_def maps_of_def unmaps_of_def)

lemma mem_calls: "list_all mem_call c \<Longrightarrow> opens_of c = [] \<and> closes_of c = [] \<and> io_bytes c = []"
  by (induction c) (auto simp: opens_of_def closes_of_def mem_call_def call_bytes_def split: call.splits)

lemma io_calls: "list_all (io_call op fid) c \<Longrightarrow> opens_of c = [] \<and> closes_of c = [] \<and> maps_of c = [] \<and> unmaps_of c = []"
  by (induction c) (auto simp: opens_of_def closes_of_def maps_of_def unmaps_of_def io_call_def split: call.splits)

section \<open>A session on one device\<close>

text \<open>The device \<open>d\<close> and no other is marked, and its context is open.\<close>

definition dev_session :: "'w lib \<Rightarrow> int \<Rightarrow> bool" where
  "dev_session s d \<longleftrightarrow> reg_inv s \<and> valid_dev d \<and> ctx_open s d \<and> (\<forall>e. valid_dev e \<longrightarrow> marked s e = (e = d))"

text \<open>No device is marked and \<open>d\<close> has no buffer.\<close>

definition idle :: "'w lib \<Rightarrow> int \<Rightarrow> bool" where
  "idle s d \<longleftrightarrow> dev_inv s \<and> (\<forall>e. valid_dev e \<longrightarrow> \<not> marked s e) \<and> dev_ptrs s d = []"

lemma dev_session_dev_inv: "dev_session s d \<Longrightarrow> dev_inv s \<and> valid_dev d \<and> marked s d \<and> reg_ready s d \<and> initialized (g_dev_ctx s (nat d))"
  by (auto simp: dev_session_def dev_inv_def reg_ready_def ctx_open_def)

lemma dev_session_kept: "dev_session s d \<Longrightarrow> kept s t \<Longrightarrow> reg_inv t \<Longrightarrow> lock (g_dev_ctx t (nat d)) = Unlocked \<Longrightarrow> dev_session t d"
  by (auto simp: dev_session_def kept_def dev_part_def ctx_open_def marked_def fun_eq_iff)

lemma dev_session_frame: "dev_session s d \<Longrightarrow> io_frame s e c t \<Longrightarrow> dev_session t d"
  by (simp add: dev_session_def ctx_open_def marked_def io_frame_same)

text \<open>The state in which the body of a demo runs.\<close>

definition held :: "'w lib \<Rightarrow> int \<Rightarrow> u64 \<Rightarrow> u64 \<Rightarrow> bool" where
  "held s d g a \<longleftrightarrow> dev_session s d \<and> (\<exists>p. reg_entries s d = [(p, reg_node g IO_SIZE [a])]) \<and> unat g + unat IO_SIZE < 2 ^ 64 \<and> a \<noteq> 0"

lemma held_frame: "held s d g a \<Longrightarrow> io_frame s e c t \<Longrightarrow> held t d g a"
  using dev_session_frame io_frame_same(8) by (fastforce simp: held_def)

lemma idle_did: "did s c t \<Longrightarrow> idle t d = idle s d"
  by (simp add: idle_def dev_inv_def ctx_open_def marked_def did_same)

lemma open_phase:
  assumes "idle s d" and "valid_dev d"
  shows "runs_to (fgds_open os d) s (\<lambda>r t.
    (\<exists>f. r = 0 \<and> f = fst (os_open os (fgds_dev_path ! nat d) (world s)) \<and> f \<noteq> -1 \<and> dev_session t d \<and> dev_ptrs t d = [] \<and>
      \<not> uring_init (g_dev_ctx t (nat d)) \<and> dev_fd (g_dev_ctx t (nat d)) = f \<and> xfer_live t = xfer_live s \<and>
      calls t = calls s @ [C_open (fgds_dev_path ! nat d) f]) \<or>
    (\<exists>w. r = -1 \<and> os_open os (fgds_dev_path ! nat d) (world s) = (-1, w) \<and>
      t = (open_failed s d (fgds_dev_path ! nat d) w)\<lparr>fgds_initialized := (fgds_initialized s)(nat d := True)\<rparr>))"
proof -
  let ?path = "fgds_dev_path ! nat d"
  have none: "(\<exists>e. valid_dev e \<and> marked s e) = False" "fgds_initialized s (nat d) = False" and inv: "dev_inv s" "\<not> marked s d"
    using assms unfolding idle_def marked_def by blast+
  obtain f w where f: "os_open os ?path (world s) = (f, w)" by fastforce
  let ?t = "(opened s d ?path f w)\<lparr>fgds_initialized := (fgds_initialized s)(nat d := True)\<rparr>"
  have t: "dev_session ?t d" if "f \<noteq> -1"
  proof -
    have "marked ?t e = (e = d)" if "valid_dev e" for e
      using open_simps(4) [OF inv(1) assms(2) inv(2) that] assms(1) that by (auto simp: idle_def)
    then show ?thesis using open_simps(3) [OF inv(1) assms(2) inv(2) assms(2)] assms(2)
      by (simp add: dev_session_def dev_inv_def)
  qed
  have "dev_ptrs ?t d = []" by (simp add: dev_ptrs_def opened_def)
  moreover have "fgds_initialized (opened s d ?path f w) = fgds_initialized s" "fgds_initialized (open_failed s d ?path w) = fgds_initialized s"
    by (simp_all add: opened_def open_failed_def)
  ultimately show ?thesis using f t none assms(2)
    by (cases "f = -1") (simp_all add: fgds_open_def is_fgds_initialized_eq runs_to_open_ctx, simp_all add: opened_def)
qed

section \<open>Releasing\<close>

definition closing :: "int \<Rightarrow> int \<Rightarrow> call list" where
  "closing fi fo = (if 0 \<le> fi then [C_close fi] else []) @ (if 0 \<le> fo then [C_close fo] else [])"

definition release :: "'w os \<Rightarrow> 'w rt \<Rightarrow> int \<Rightarrow> u64 \<Rightarrow> u64 \<Rightarrow> ('w lib, int) prog" where
  "release os rt d g a = sq (if a \<noteq> 0 then sq (fgds_deregmem os d g IO_SIZE) (ret ()) else ret ()) (
     sq (if g \<noteq> 0 then cudaFree rt g else ret ()) (fgds_close os d))"

lemma close_if_open:
  assumes "\<And>t. did v (if 0 \<le> f then [C_close f] else []) t \<Longrightarrow> runs_to m t Q"
  shows "runs_to (sq (if 0 \<le> f then sq (sys_close os f) (ret ()) else ret ()) m) v Q"
proof (cases "0 \<le> f")
  case True
  obtain r w where "os_close os f (world v) = (r, w)" by fastforce
  then show ?thesis using True assms [of "v\<lparr>world := w, calls := calls v @ [C_close f]\<rparr>"] by (simp add: sys_defs did_call)
next
  case False
  then show ?thesis using assms [of v] by (simp add: did_refl)
qed

lemma demo_cleanup:
  assumes "runs_to (release os rt d g a) u (\<lambda>_ v. idle v d \<and> xfer_live v = k \<and> L (calls v))"
  shows "runs_to (cleanup os rt d fi fo g a r) u (\<lambda>x t. x = r \<and> idle t d \<and> xfer_live t = k \<and> (\<exists>l. L l \<and> calls t = l @ closing fi fo))"
proof -
  have fds: "runs_to (sq (if 0 \<le> fi then sq (sys_close os fi) (ret ()) else ret ()) (
      sq (if 0 \<le> fo then sq (sys_close os fo) (ret ()) else ret ()) (ret r))) v
      (\<lambda>x t. x = r \<and> idle t d \<and> xfer_live t = k \<and> (\<exists>l. L l \<and> calls t = l @ closing fi fo))"
    if "idle v d" "xfer_live v = k" "L (calls v)" for v
  proof -
    have "x = r \<and> idle t d \<and> xfer_live t = k \<and> (\<exists>l. L l \<and> calls t = l @ closing fi fo)"
      if t: "did v (closing fi fo) t" and "x = r" for x t
      using \<open>idle v d\<close> \<open>xfer_live v = k\<close> \<open>L (calls v)\<close> idle_did [OF t] did_same(5,7) [OF t] \<open>x = r\<close> by blast
    then show ?thesis unfolding closing_def by (intro close_if_open) (simp add: did_trans)
  qed
  have eq: "cleanup os rt d fi fo g a r = bnd (release os rt d g a) (\<lambda>_.
      sq (if 0 \<le> fi then sq (sys_close os fi) (ret ()) else ret ()) (
      sq (if 0 \<le> fo then sq (sys_close os fo) (ret ()) else ret ()) (ret r)))"
    unfolding cleanup_def release_def sq_def bnd_laws(1) ..
  show ?thesis unfolding eq runs_to_bnd by (rule runs_to_mono [OF assms]) (use fds in blast)
qed

lemma release_idle:
  assumes "idle s d" and "valid_dev d"
  shows "runs_to (release os rt d 0 0) s (\<lambda>_ v. idle v d \<and> xfer_live v = xfer_live s \<and> calls v = calls s)"
  using assms by (simp add: release_def fgds_close_def idle_def marked_def)

text \<open>After a failed \<open>fgds_open\<close> of a context that was never open, closing only clears the mark.\<close>

lemma release_failed:
  assumes "idle s d" and "valid_dev d" and "\<not> initialized (g_dev_ctx s (nat d))"
  shows "runs_to (release os rt d 0 0) ((open_failed s d path w)\<lparr>fgds_initialized := (fgds_initialized s)(nat d := True)\<rparr>)
    (\<lambda>_ v. idle v d \<and> xfer_live v = xfer_live s \<and> calls v = calls s @ [C_open path (-1)])"
proof -
  have f: "open_failed s d path w = (open_failed s d path w)\<lparr>fgds_initialized := (fgds_initialized s)(nat d := False)\<rparr>"
    using assms(1,2) by (simp add: idle_def marked_def open_failed_def fun_upd_idem)
  have "idle (open_failed s d path w) d"
    using assms(1) open_simps(1,2) [of s d] assms(2) unfolding idle_def by (simp add: open_failed_def dev_ptrs_def)
  then have "idle ((open_failed s d path w)\<lparr>fgds_initialized := (fgds_initialized s)(nat d := False)\<rparr>) d" using f by simp
  then show ?thesis using assms(2,3) by (simp add: release_def fgds_close_def fgds_close_ctx_def open_failed_def)
qed

lemma close_dev_session:
  assumes "dev_session s d"
  shows "runs_to (fgds_close os d) s (\<lambda>_ v. idle v d \<and> xfer_live v = xfer_live s \<and> calls v = calls s @ close_calls (g_dev_ctx s (nat d)) d)"
proof -
  have s: "dev_inv s" "valid_dev d" "marked s d" using dev_session_dev_inv [OF assms] by blast+
  show ?thesis
  proof (rule runs_to_mono [OF runs_to_fgds_close [OF s]], elim conjE)
    fix r t
    assume "t = shut s d (world t)"
    moreover have "idle (shut s d w) d" for w
      using shut_simps [OF s(1,2)] s(2) assms unfolding idle_def dev_session_def by fastforce
    moreover have "xfer_live (shut s d w) = xfer_live s" "calls (shut s d w) = calls s @ close_calls (g_dev_ctx s (nat d)) d" for w
      by (simp_all add: shut_def closed_def)
    ultimately show "idle t d \<and> xfer_live t = xfer_live s \<and> calls t = calls s @ close_calls (g_dev_ctx s (nat d)) d" by metis
  qed
qed

lemma release_dev_session:
  assumes "dev_session s d"
  shows "runs_to (release os rt d g 0) s (\<lambda>_ v. idle v d \<and> xfer_live v = xfer_live s \<and>
    calls v = calls s @ close_calls (g_dev_ctx s (nat d)) d)"
proof -
  have "runs_to (fgds_close os d) (s\<lparr>world := w\<rparr>) (\<lambda>_ v. idle v d \<and> xfer_live v = xfer_live s \<and>
      calls v = calls s @ close_calls (g_dev_ctx s (nat d)) d)" for w
  proof -
    have "dev_session (s\<lparr>world := w\<rparr>) d" using assms by (simp add: dev_session_def ctx_open_def marked_def)
    from close_dev_session [OF this, of os] show ?thesis by simp
  qed
  then show ?thesis using close_dev_session [OF assms, of os] by (simp add: release_def rt_defs)
qed

text \<open>A registered buffer of 4 MB has one piece.\<close>

lemma one_piece:
  "seg_count IO_SIZE = 1" "reg_size_ok IO_SIZE" "piece_len (reg_node g IO_SIZE vs) 0 = 4194304"
  by (simp_all add: seg_count_def reg_size_ok_def piece_len_def reg_node_def)

lemma held_node:
  assumes "held s d g a"
  obtains p where "reg_entries s d = [(p, reg_node g IO_SIZE [a])]" and "node_wf (reg_node g IO_SIZE [a])"
    and "\<And>m. unat m \<le> 4194304 \<Longrightarrow> covering s d g m = Some (p, reg_node g IO_SIZE [a])"
proof -
  from assms obtain p where p: "reg_entries s d = [(p, reg_node g IO_SIZE [a])]" and g: "unat g + unat IO_SIZE < 2 ^ 64"
    by (auto simp: held_def)
  have wf: "node_wf (reg_node g IO_SIZE [a])" by (rule reg_node_wf [OF one_piece(2) _ g]) (simp add: one_piece)
  have "covering s d g m = Some (p, reg_node g IO_SIZE [a])" if "unat m \<le> 4194304" for m
  proof -
    have "unat (g + m) = unat g + unat m" by (rule unat_add_no_wrap) (use that g in simp)
    moreover have "unat (g + IO_SIZE) = unat g + unat IO_SIZE" by (rule unat_add_no_wrap [OF g])
    ultimately have "node_covers g m (reg_node g IO_SIZE [a])" using that by (simp add: node_covers_def reg_node_def word_le_nat_alt)
    then show ?thesis by (simp add: covering_def p)
  qed
  with p wf show thesis by (rule that)
qed

lemma release_held:
  assumes "held s d g a"
  shows "runs_to (release os rt d g a) s (\<lambda>_ v. idle v d \<and> xfer_live v = xfer_live s \<and> (\<exists>c. list_all mem_call c \<and>
    maps_of c = [] \<and> unmaps_of c = [(a, IO_SIZE)] \<and> calls v = calls s @ c @ close_calls (g_dev_ctx s (nat d)) d))"
proof -
  let ?nd = "reg_node g IO_SIZE [a]"
  from assms obtain p where ent: "reg_entries s d = [(p, ?nd)]" and wf: "node_wf ?nd"
    and cov: "covering s d g IO_SIZE = Some (p, ?nd)" by (rule held_node) simp
  have ses: "dev_session s d" and a: "a \<noteq> 0" using assms by (auto simp: held_def)
  note s = dev_session_dev_inv [OF ses]
  have "runs_to (fgds_deregmem os d g IO_SIZE) s (reg_removed s d p ?nd)"
    by (rule deregmem_spec [OF _ _ _ cov _ wf]) (use s ses ent in \<open>simp_all add: dev_session_def addrs_distinct_def, simp add: reg_node_def\<close>)
  note dereg = always_runs_to [OF log_deregmem always_runs_to [OF keeps_deregmem this]]
  have tail: "runs_to (release os rt d g 0) t (\<lambda>_ v. idle v d \<and> xfer_live v = xfer_live s \<and> (\<exists>c. list_all mem_call c \<and>
      maps_of c = [] \<and> unmaps_of c = [(a, IO_SIZE)] \<and> calls v = calls s @ c @ close_calls (g_dev_ctx s (nat d)) d))"
    if t: "reg_removed s d p ?nd r t" and k: "kept s t" and l: "logged mem_call s t" for r t
  proof -
    obtain rc where c: "calls t = calls s @ unreg_calls (g_dev_ctx s (nat d)) ?nd rc [0..<unat (mmap_count ?nd)]"
      using t by (auto simp: reg_removed_def)
    let ?c = "unreg_calls (g_dev_ctx s (nat d)) ?nd rc [0..<unat (mmap_count ?nd)]"
    have mc: "list_all mem_call ?c" using l c by (auto simp: logged_def)
    have "unat (mmap_count ?nd) = 1" "vaddrs ?nd = [a]" by (simp_all add: reg_node_def one_piece)
    then have mm: "maps_of ?c = []" "unmaps_of ?c = [(a, IO_SIZE)]" by (simp_all add: unreg_calls_maps one_piece(3))
    have "reg_inv t" "lock (g_dev_ctx t (nat d)) = Unlocked" using t by (auto simp: reg_removed_def reg_ready_def)
    then have "dev_session t d" by (rule dev_session_kept [OF ses k])
    from release_dev_session [OF this, of os rt g] show ?thesis
    proof (rule runs_to_mono, elim conjE)
      fix x v
      assume v: "idle v d" "xfer_live v = xfer_live t" "calls v = calls t @ close_calls (g_dev_ctx t (nat d)) d"
      have "close_calls (g_dev_ctx t (nat d)) d = close_calls (g_dev_ctx s (nat d)) d" "xfer_live t = xfer_live s"
        using k by (auto simp: kept_def dev_part_def close_calls_def fun_eq_iff)
      then have "calls v = calls s @ ?c @ close_calls (g_dev_ctx s (nat d)) d" "xfer_live v = xfer_live s" using v c by simp_all
      then show "idle v d \<and> xfer_live v = xfer_live s \<and> (\<exists>c. list_all mem_call c \<and>
          maps_of c = [] \<and> unmaps_of c = [(a, IO_SIZE)] \<and> calls v = calls s @ c @ close_calls (g_dev_ctx s (nat d)) d)"
        using v(1) mc mm by blast
    qed
  qed
  have eq: "release os rt d g a = bnd (fgds_deregmem os d g IO_SIZE) (\<lambda>_. release os rt d g 0)"
    using a by (simp add: release_def sq_def bnd_laws)
  show ?thesis unfolding eq runs_to_bnd by (rule runs_to_mono [OF dereg], elim conjE) (rule tail)
qed

section \<open>Registering\<close>

lemma regmem_phase:
  assumes "dev_session u d" and "dev_ptrs u d = []" and "\<And>n f w. fst (os_mmap os n f w) \<noteq> Some 0" and "unat g + unat IO_SIZE < 2 ^ 64"
  shows "runs_to (fgds_regmem os d g IO_SIZE) u (\<lambda>x v. dev_session v d \<and> kept u v \<and> (\<exists>c. list_all mem_call c \<and> calls v = calls u @ c \<and>
    ((\<exists>a. x = (0, Some a) \<and> held v d g a \<and> maps_of c = [(a, IO_SIZE)] \<and> unmaps_of c = []) \<or>
     \<not> cooperative os \<and> fst x \<noteq> 0 \<and> snd x = None \<and> maps_of c = unmaps_of c)))"
proof -
  note u = dev_session_dev_inv [OF assms(1)]
  have inv: "reg_inv u" using assms(1) by (simp add: dev_session_def)
  have "runs_to (fgds_regmem os d g IO_SIZE) u (\<lambda>r t. reg_outcome u d g IO_SIZE r t \<and> (cooperative os \<longrightarrow> fst r = 0))"
  proof (cases "cooperative os")
    case True
    show ?thesis by (rule runs_to_mono [OF regmem_coop [OF True inv]]) (use u one_piece in \<open>auto simp: reg_outcome_def\<close>)
  next
    case False
    then show ?thesis using regmem_spec [OF inv _ _ one_piece(2), of d os g] u by simp
  qed
  note run = always_runs_to [OF log_regmem [OF assms(3)] always_runs_to [OF keeps_regmem this]]
  show ?thesis
  proof (rule runs_to_mono [OF run], elim conjE)
    fix x v
    assume o: "reg_outcome u d g IO_SIZE x v" and coop: "cooperative os \<longrightarrow> fst x = 0" and k: "kept u v" and l: "logged mem_call u v"
    obtain c where c: "calls v = calls u @ c" "list_all mem_call c" using l by (auto simp: logged_def)
    have ses: "dev_session v d" if "reg_inv v" "lock (g_dev_ctx v (nat d)) = Unlocked" by (rule dev_session_kept [OF assms(1) k that])
    from o consider (ok) vs where "x = (0, Some (hd vs))" "vs \<noteq> []" "reg_done u d g IO_SIZE vs v"
      | (err) "x = (-1, None) \<or> x = (- EFAULT, None)" "reg_undone u d v"
      by (auto simp: reg_outcome_def)
    then show "dev_session v d \<and> kept u v \<and> (\<exists>c. list_all mem_call c \<and> calls v = calls u @ c \<and>
      ((\<exists>a. x = (0, Some a) \<and> held v d g a \<and> maps_of c = [(a, IO_SIZE)] \<and> unmaps_of c = []) \<or>
       \<not> cooperative os \<and> fst x \<noteq> 0 \<and> snd x = None \<and> maps_of c = unmaps_of c))"
    proof cases
      case ok
      then obtain a where vs: "vs = [a]" by (cases vs) (auto simp: reg_done_def one_piece)
      have v: "dev_session v d" using ok(3) by (intro ses) (auto simp: reg_done_def reg_ready_def)
      have "c = reg_calls ((g_dev_ctx u (nat d))\<lparr>device_id := d\<rparr>) (reg_node g IO_SIZE [a])" using ok(3) c(1) vs by (simp add: reg_done_def)
      moreover have "vaddrs (reg_node g IO_SIZE [a]) = [a]" by (simp add: reg_node_def)
      ultimately have m: "maps_of c = [(a, IO_SIZE)]" "unmaps_of c = []" by (simp_all add: reg_calls_maps one_piece(3))
      have "(a, IO_SIZE) \<in> set (maps_of c)" using m by simp
      then have "a \<noteq> 0" using c(2) by (auto simp: maps_of_def list_all_iff mem_call_def split: call.splits option.splits)
      moreover have "reg_entries u d = []" using assms(2) by (simp add: reg_entries_def entries_at_def)
      ultimately have "held v d g a" using ok(3) v vs assms(4) by (simp add: held_def reg_done_def)
      then show ?thesis using ok(1) vs v k c m by auto
    next
      case err
      have "lock (g_dev_ctx v e) = lock (g_dev_ctx u e)" for e
      proof -
        have "(g_dev_ctx v e)\<lparr>device_id := 0\<rparr> = (g_dev_ctx u e)\<lparr>device_id := 0\<rparr>" using err(2) by (simp add: reg_undone_def)
        from arg_cong [OF this, of lock] show ?thesis by simp
      qed
      then have "dev_session v d" using err(2) assms(1) by (intro ses) (auto simp: reg_undone_def dev_session_def ctx_open_def)
      moreover have "\<not> cooperative os" using err(1) coop by auto
      moreover have "maps_of c = unmaps_of c" using err(2) c(1) by (auto simp: reg_undone_def)
      ultimately show ?thesis using err(1) k c by auto
    qed
  qed
qed

section \<open>A whole demo\<close>

text \<open>
  What the program relies on: \<open>open\<close> returns -1 or a positive descriptor (0 is standard input), \<open>cudaMalloc\<close> returns a range that
  does not wrap around, and \<open>mmap\<close> does not return address 0.
\<close>

definition well_behaved :: "'w os \<Rightarrow> 'w rt \<Rightarrow> bool" where
  "well_behaved os rt \<longleftrightarrow>
     (\<forall>p w. (fst (os_open os p w) = -1 \<or> 0 < fst (os_open os p w)) \<and> (fst (rt_open_in rt p w) = -1 \<or> 0 < fst (rt_open_in rt p w)) \<and>
       (fst (rt_open_out rt p w) = -1 \<or> 0 < fst (rt_open_out rt p w))) \<and>
     (\<forall>w g. fst (rt_malloc rt IO_SIZE w) = Some g \<longrightarrow> unat g + unat IO_SIZE < 2 ^ 64) \<and>
     (\<forall>n f w. fst (os_mmap os n f w) \<noteq> Some 0)"

text \<open>An environment that refuses nothing.\<close>

definition obliging :: "'w os \<Rightarrow> 'w rt \<Rightarrow> int \<Rightarrow> bool" where
  "obliging os rt d \<longleftrightarrow> cooperative os \<and> (\<forall>w. fst (os_open os (fgds_dev_path ! nat d) w) \<noteq> -1) \<and>
     (\<forall>p w. fst (rt_open_in rt p w) \<noteq> -1 \<and> fst (rt_open_out rt p w) \<noteq> -1) \<and> (\<forall>w. fst (rt_malloc rt IO_SIZE w) \<noteq> None)"

text \<open>Calls without effect on mappings and descriptors.\<close>

definition still :: "call list \<Rightarrow> bool" where
  "still c \<longleftrightarrow> opens_of c = [] \<and> closes_of c = [] \<and> maps_of c = [] \<and> unmaps_of c = []"

text \<open>
  The result of a demo: it stopped early because the environment refused something and transferred nothing, or its body
  ran on a mapping \<open>a\<close>, and the calls of the body satisfy \<open>B\<close>.
\<close>

definition ended :: "'w os \<Rightarrow> 'w rt \<Rightarrow> int \<Rightarrow> (u64 \<Rightarrow> bool \<Rightarrow> call list \<Rightarrow> bool) \<Rightarrow> int \<Rightarrow> call list \<Rightarrow> bool" where
  "ended os rt d B r c \<longleftrightarrow> r = 1 \<and> \<not> obliging os rt d \<and> io_bytes c = [] \<or>
     (\<exists>c0 cb c1 a ok. c = c0 @ cb @ c1 \<and> io_bytes c0 = [] \<and> io_bytes c1 = [] \<and> (a, IO_SIZE) \<in> set (maps_of c0) \<and>
       r = (if ok then 0 else 1) \<and> B a ok cb)"

lemma ended_ext:
  assumes "ended os rt d B r c" and "io_bytes c' = []"
  shows "ended os rt d B r (c' @ c)"
proof -
  from assms(1) consider (early) "r = 1" "\<not> obliging os rt d" "io_bytes c = []"
    | (ran) c0 cb c1 a ok where "c = c0 @ cb @ c1" "io_bytes c0 = []" "io_bytes c1 = []" "(a, IO_SIZE) \<in> set (maps_of c0)"
        "r = (if ok then 0 else 1)" "B a ok cb"
    unfolding ended_def by blast
  then show ?thesis
  proof cases
    case early
    then show ?thesis using assms(2) by (simp add: ended_def)
  next
    case ran
    then have "c' @ c = (c' @ c0) @ cb @ c1" "io_bytes (c' @ c0) = []" "(a, IO_SIZE) \<in> set (maps_of (c' @ c0))" using assms(2) by simp_all
    then show ?thesis using ran(3,5,6) unfolding ended_def by blast
  qed
qed

lemma quiet_calls: "io_bytes (closing fi fo) = []" "io_bytes (close_calls b d) = []" "still (closing (-1) (-1))"
  "maps_of (closing fi fo) = []" "unmaps_of (closing fi fo) = []" "opens_of (closing fi fo) = []"
  "maps_of (close_calls b d) = []" "unmaps_of (close_calls b d) = []" "opens_of (close_calls b d) = []"
  "closes_of (close_calls b d) = (if 0 < dev_fd b then [dev_fd b] else [])"
  "0 < fi \<Longrightarrow> 0 < fo \<Longrightarrow> closes_of (closing fi fo) = [fi, fo]"
  by (simp_all add: closing_def close_calls_def still_def call_bytes_def)

text \<open>From the registration on: nothing is opened, what is mapped is unmapped, and the descriptors are closed.\<close>

definition wound_up :: "'w os \<Rightarrow> 'w rt \<Rightarrow> int \<Rightarrow> (u64 \<Rightarrow> bool \<Rightarrow> call list \<Rightarrow> bool) \<Rightarrow> int \<Rightarrow> int \<Rightarrow> 'w lib \<Rightarrow> int \<Rightarrow> 'w lib \<Rightarrow> bool" where
  "wound_up os rt d B fi fo u r t \<longleftrightarrow> idle t d \<and> xfer_live t = xfer_live u \<and> (\<exists>c. calls t = calls u @ c \<and> maps_of c = unmaps_of c \<and>
     opens_of c = [] \<and> mset (closes_of c) = (if 0 < dev_fd (g_dev_ctx u (nat d)) then {#dev_fd (g_dev_ctx u (nat d))#} else {#}) + {#fi, fo#} \<and>
     ended os rt d B r c)"

lemma cleanup_early:
  assumes "dev_session v d" and "\<not> obliging os rt d" and "0 < fi" and "0 < fo"
  shows "runs_to (cleanup os rt d fi fo g 0 1) v (wound_up os rt d B fi fo v)"
  by (rule runs_to_mono [OF demo_cleanup [OF release_dev_session [OF assms(1)]]])
    (use assms(2-4) quiet_calls in \<open>auto simp: wound_up_def ended_def intro!: exI [of _ "close_calls (g_dev_ctx v (nat d)) d @ closing fi fo"]\<close>)

lemma cleanup_late:
  assumes "held v d g a" and "0 < fi" and "0 < fo" and "still cb" and "B a ok cb" and "io_frame u e cb v"
    and c: "calls u = calls s @ c" "io_bytes c = []" "maps_of c = [(a, IO_SIZE)]" "unmaps_of c = []" "opens_of c = []" "closes_of c = []"
    and s: "xfer_live u = xfer_live s" "dev_fd (g_dev_ctx u (nat d)) = dev_fd (g_dev_ctx s (nat d))"
  shows "runs_to (cleanup os rt d fi fo g a (if ok then 0 else 1)) v (wound_up os rt d B fi fo s)"
proof (rule runs_to_mono [OF demo_cleanup [OF release_held [OF assms(1), of os rt]]], elim exE conjE)
  fix r :: int and t :: "'a lib" and l c1
  let ?b = "g_dev_ctx v (nat d)"
  assume r: "r = (if ok then 0 else 1)" and t: "idle t d" "xfer_live t = xfer_live v"
    and c1: "list_all mem_call c1" "maps_of c1 = []" "unmaps_of c1 = [(a, IO_SIZE)]" and l: "l = calls v @ c1 @ close_calls ?b d"
    and ct: "calls t = l @ closing fi fo"
  let ?c = "c @ cb @ (c1 @ close_calls ?b d @ closing fi fo)"
  note q = mem_calls [OF c1(1)] and f = io_frame_same [OF assms(6)]
  have "calls t = calls s @ ?c" using ct l f(1) c(1) by simp
  moreover have "maps_of ?c = unmaps_of ?c" "opens_of ?c = []" using c c1 q assms(4) by (simp_all add: quiet_calls still_def)
  moreover have "closes_of ?c = (if 0 < dev_fd (g_dev_ctx s (nat d)) then [dev_fd (g_dev_ctx s (nat d))] else []) @ [fi, fo]"
    using c(6) q assms(2-4) f(12) s(2) by (simp add: quiet_calls still_def)
  moreover have "ended os rt d B r ?c"
    unfolding ended_def using r c(2,3) q assms(5) quiet_calls(1,2)
    by (intro disjI2 exI [of _ c] exI [of _ cb] exI [of _ "c1 @ close_calls ?b d @ closing fi fo"] exI [of _ a] exI [of _ ok]) simp
  ultimately show "wound_up os rt d B fi fo s r t" using t f(5) s(1) unfolding wound_up_def by (intro conjI exI [of _ ?c]) simp_all
qed

lemma registered_part:
  assumes "dev_session u d" and "dev_ptrs u d = []" and "\<not> uring_init (g_dev_ctx u (nat d))" and "well_behaved os rt"
    and "unat g + unat IO_SIZE < 2 ^ 64" and "0 < fi" and "0 < fo"
    and body: "\<And>u a. held u d g a \<Longrightarrow> \<not> uring_init (g_dev_ctx u (nat d)) \<Longrightarrow>
      runs_to (body g a) u (\<lambda>ok v. \<exists>c. io_frame u d c v \<and> still c \<and> B a ok c)"
  shows "runs_to (bnd (fgds_regmem os d g IO_SIZE) (\<lambda>(r, a). let a = (case a of None \<Rightarrow> 0 | Some a \<Rightarrow> a) in
       if r \<noteq> 0 then cleanup os rt d fi fo g a 1 else
     bnd (body g a) (\<lambda>ok. cleanup os rt d fi fo g a (if ok then 0 else 1)))) u (wound_up os rt d B fi fo u)"
  unfolding runs_to_bnd
proof (rule runs_to_mono [OF regmem_phase [OF assms(1,2) _ assms(5)]], use assms(4) in \<open>simp add: well_behaved_def\<close>, elim exE conjE)
  fix x and v :: "'a lib" and c
  assume v: "dev_session v d" and k: "kept u v" and c: "list_all mem_call c" "calls v = calls u @ c"
    and o: "(\<exists>a. x = (0, Some a) \<and> held v d g a \<and> maps_of c = [(a, IO_SIZE)] \<and> unmaps_of c = []) \<or>
       \<not> cooperative os \<and> fst x \<noteq> 0 \<and> snd x = None \<and> maps_of c = unmaps_of c"
  have same: "\<not> uring_init (g_dev_ctx v (nat d))" "dev_fd (g_dev_ctx v (nat d)) = dev_fd (g_dev_ctx u (nat d))" "xfer_live v = xfer_live u"
    using k assms(3) by (auto simp: kept_def dev_part_def fun_eq_iff)
  note q = mem_calls [OF c(1)]
  from o consider (ok) a where "x = (0, Some a)" "held v d g a" "maps_of c = [(a, IO_SIZE)]" "unmaps_of c = []"
    | (err) "\<not> obliging os rt d" "fst x \<noteq> 0" "snd x = None" "maps_of c = unmaps_of c" by (auto simp: obliging_def)
  then show "runs_to (case x of (r, a) \<Rightarrow> let a = (case a of None \<Rightarrow> 0 | Some a \<Rightarrow> a) in
       if r \<noteq> 0 then cleanup os rt d fi fo g a 1 else
     bnd (body g a) (\<lambda>ok. cleanup os rt d fi fo g a (if ok then 0 else 1))) v (wound_up os rt d B fi fo u)"
  proof cases
    case ok
    have "runs_to (body g a) v (\<lambda>b t. runs_to (cleanup os rt d fi fo g a (if b then 0 else 1)) t (wound_up os rt d B fi fo u))"
    proof (rule runs_to_mono [OF body [OF ok(2) same(1)]], elim exE conjE)
      fix b t cb
      assume t: "io_frame v d cb t" and cb: "still cb" "B a b cb"
      show "runs_to (cleanup os rt d fi fo g a (if b then 0 else 1)) t (wound_up os rt d B fi fo u)"
        by (rule cleanup_late [where u = v and c = c and B = B and ok = b and a = a and cb = cb, OF held_frame [OF ok(2) t] assms(6,7) cb t])
          (use c(2) q ok(3,4) same(2,3) in simp_all)
    qed
    then show ?thesis using ok(1) by simp
  next
    case err
    have "runs_to (cleanup os rt d fi fo g 0 1) v (wound_up os rt d B fi fo u)"
    proof (rule runs_to_mono [OF cleanup_early [where B = B, OF v err(1) assms(6,7)]])
      fix r :: int and t
      assume "wound_up os rt d B fi fo v r t"
      then obtain c' where t: "idle t d" "xfer_live t = xfer_live v" "calls t = calls v @ c'" "maps_of c' = unmaps_of c'" "opens_of c' = []"
          "mset (closes_of c') = (if 0 < dev_fd (g_dev_ctx v (nat d)) then {#dev_fd (g_dev_ctx v (nat d))#} else {#}) + {#fi, fo#}"
          "ended os rt d B r c'" by (auto simp: wound_up_def)
      have "ended os rt d B r (c @ c')" by (rule ended_ext [OF t(7)]) (simp add: q)
      then show "wound_up os rt d B fi fo u r t"
        unfolding wound_up_def using t(1-6) q err(4) same(2,3) c(2) by (intro conjI exI [of _ "c @ c'"]) simp_all
    qed
    then show ?thesis using err(2,3) by (cases x) simp
  qed
qed

text \<open>
  The outcome of a demo that copies from \<open>path\<close> to \<open>out\<close>: the device is closed and without buffers, no transfer descriptor is
  left, and the calls are balanced; \<open>B\<close> speaks of the two file descriptors, the mapping, the success and the calls of the body.
\<close>

definition demo_done :: "'w os \<Rightarrow> 'w rt \<Rightarrow> int \<Rightarrow> string \<Rightarrow> string \<Rightarrow> (int \<Rightarrow> int \<Rightarrow> u64 \<Rightarrow> bool \<Rightarrow> call list \<Rightarrow> bool) \<Rightarrow>
    'w lib \<Rightarrow> int \<Rightarrow> 'w lib \<Rightarrow> bool" where
  "demo_done os rt d path out B s r t \<longleftrightarrow> idle t d \<and> xfer_live t = xfer_live s \<and> (\<exists>c. calls t = calls s @ c \<and> balanced c \<and>
     (r = 1 \<and> \<not> obliging os rt d \<and> io_bytes c = [] \<or>
      (\<exists>fi fo c'. c = C_open path fi # C_open out fo # c' \<and> ended os rt d (B fi fo) r c')))"

lemma wound_up_done:
  assumes "wound_up os rt d (B fi fo) fi fo u r t" and "calls u = calls s @ [C_open path fi, C_open out fo, C_open dev f]"
    and "xfer_live u = xfer_live s" and "dev_fd (g_dev_ctx u (nat d)) = f" and "0 < fi" and "0 < fo" and "0 < f"
  shows "demo_done os rt d path out B s r t"
proof -
  from assms(1) obtain c where t: "idle t d" "xfer_live t = xfer_live u" "calls t = calls u @ c" "maps_of c = unmaps_of c" "opens_of c = []"
      "mset (closes_of c) = (if 0 < dev_fd (g_dev_ctx u (nat d)) then {#dev_fd (g_dev_ctx u (nat d))#} else {#}) + {#fi, fo#}"
      "ended os rt d (B fi fo) r c" by (auto simp: wound_up_def)
  let ?c = "C_open path fi # C_open out fo # C_open dev f # c"
  have "balanced ?c" using t(4-6) assms(4-7) by (simp add: balanced_def)
  moreover have "ended os rt d (B fi fo) r ([C_open dev f] @ c)" by (rule ended_ext [OF t(7)]) (simp add: call_bytes_def)
  ultimately show ?thesis unfolding demo_done_def using t(1-3) assms(2,3)
    by (intro conjI exI [of _ ?c] disjI2 exI [of _ fi] exI [of _ fo] exI [of _ "C_open dev f # c"]) simp_all
qed

lemma stopped_early:
  assumes "idle t d" and "xfer_live t = xfer_live s" and "calls t = calls s @ c" and "balanced c" and "io_bytes c = []" and "\<not> obliging os rt d"
  shows "demo_done os rt d path out B s 1 t"
  using assms unfolding demo_done_def by blast

text \<open>A demo is run on a device that was never opened, or that can be opened.\<close>

definition openable :: "'w os \<Rightarrow> 'w lib \<Rightarrow> int \<Rightarrow> bool" where
  "openable os s d \<longleftrightarrow> initialized (g_dev_ctx s (nat d)) \<longrightarrow> (\<forall>w. fst (os_open os (fgds_dev_path ! nat d) w) \<noteq> -1)"

lemma opened_part:
  assumes "idle u d" and "valid_dev d" and "openable os u d" and "well_behaved os rt" and "0 < fi" and "0 < fo"
    and u: "calls u = calls s @ [C_open path fi, C_open out fo]" "xfer_live u = xfer_live s"
    and body: "\<And>u g a. held u d g a \<Longrightarrow> \<not> uring_init (g_dev_ctx u (nat d)) \<Longrightarrow>
      runs_to (body g a) u (\<lambda>ok v. \<exists>c. io_frame u d c v \<and> still c \<and> B fi fo a ok c)"
  shows "runs_to (bnd (fgds_open os d) (\<lambda>r. if r \<noteq> 0 then cleanup os rt d fi fo 0 0 1 else
     bnd (cudaMalloc rt IO_SIZE) (\<lambda>g. case g of None \<Rightarrow> cleanup os rt d fi fo 0 0 1 | Some g \<Rightarrow>
     bnd (fgds_regmem os d g IO_SIZE) (\<lambda>(r, a). let a = (case a of None \<Rightarrow> 0 | Some a \<Rightarrow> a) in
       if r \<noteq> 0 then cleanup os rt d fi fo g a 1 else
     bnd (body g a) (\<lambda>ok. cleanup os rt d fi fo g a (if ok then 0 else 1)))))) u (demo_done os rt d path out B s)"
  unfolding runs_to_bnd [of "fgds_open os d"]
proof (rule runs_to_mono [OF open_phase [OF assms(1,2)]], erule disjE)
  let ?path = "fgds_dev_path ! nat d"
  fix r :: int and v :: "'a lib"
  let ?rest = "bnd (cudaMalloc rt IO_SIZE) (\<lambda>g. case g of None \<Rightarrow> cleanup os rt d fi fo 0 0 1 | Some g \<Rightarrow>
     bnd (fgds_regmem os d g IO_SIZE) (\<lambda>(r, a). let a = (case a of None \<Rightarrow> 0 | Some a \<Rightarrow> a) in
       if r \<noteq> 0 then cleanup os rt d fi fo g a 1 else
     bnd (body g a) (\<lambda>ok. cleanup os rt d fi fo g a (if ok then 0 else 1))))"
  assume "\<exists>w. r = -1 \<and> os_open os ?path (world u) = (-1, w) \<and>
      v = (open_failed u d ?path w)\<lparr>fgds_initialized := (fgds_initialized u)(nat d := True)\<rparr>"
  then obtain w where r: "r = -1" and f: "os_open os ?path (world u) = (-1, w)"
      and v: "v = (open_failed u d ?path w)\<lparr>fgds_initialized := (fgds_initialized u)(nat d := True)\<rparr>" by blast
  have no: "\<not> obliging os rt d" and ini: "\<not> initialized (g_dev_ctx u (nat d))"
    using f assms(3) unfolding obliging_def openable_def by (metis fst_conv)+
  have "runs_to (cleanup os rt d fi fo 0 0 1) v (demo_done os rt d path out B s)" unfolding v
    by (rule runs_to_mono [OF demo_cleanup [OF release_failed [OF assms(1,2) ini, of os rt ?path w]]])
      (auto intro!: stopped_early [OF _ _ _ _ _ no] simp: u quiet_calls assms(5,6) balanced_def call_bytes_def)
  then show "runs_to (if r \<noteq> 0 then cleanup os rt d fi fo 0 0 1 else ?rest) v (demo_done os rt d path out B s)" using r by simp
next
  let ?path = "fgds_dev_path ! nat d"
  fix r :: int and v :: "'a lib"
  let ?rest = "bnd (cudaMalloc rt IO_SIZE) (\<lambda>g. case g of None \<Rightarrow> cleanup os rt d fi fo 0 0 1 | Some g \<Rightarrow>
     bnd (fgds_regmem os d g IO_SIZE) (\<lambda>(r, a). let a = (case a of None \<Rightarrow> 0 | Some a \<Rightarrow> a) in
       if r \<noteq> 0 then cleanup os rt d fi fo g a 1 else
     bnd (body g a) (\<lambda>ok. cleanup os rt d fi fo g a (if ok then 0 else 1))))"
  assume "\<exists>f. r = 0 \<and> f = fst (os_open os ?path (world u)) \<and> f \<noteq> -1 \<and> dev_session v d \<and> dev_ptrs v d = [] \<and>
      \<not> uring_init (g_dev_ctx v (nat d)) \<and> dev_fd (g_dev_ctx v (nat d)) = f \<and> xfer_live v = xfer_live u \<and>
      calls v = calls u @ [C_open ?path f]"
  then obtain f where r: "r = 0" and f: "f \<noteq> -1" "f = fst (os_open os ?path (world u))" and v: "dev_session v d" "dev_ptrs v d = []"
      "\<not> uring_init (g_dev_ctx v (nat d))" "dev_fd (g_dev_ctx v (nat d)) = f" "xfer_live v = xfer_live u" "calls v = calls u @ [C_open ?path f]"
    by blast
  have f0: "0 < f" using f assms(4) unfolding well_behaved_def by metis
  obtain g w where g: "rt_malloc rt IO_SIZE (world v) = (g, w)" by fastforce
  let ?v = "v\<lparr>world := w\<rparr>"
  have v': "dev_session ?v d" "dev_ptrs ?v d = []" "\<not> uring_init (g_dev_ctx ?v (nat d))" "dev_fd (g_dev_ctx ?v (nat d)) = f"
      "xfer_live ?v = xfer_live s" "calls ?v = calls s @ [C_open path fi, C_open out fo, C_open ?path f]"
    using v u by (simp_all add: dev_session_def ctx_open_def marked_def)
  note finish = wound_up_done [OF _ v'(6,5,4) assms(5,6) f0]
  have "runs_to ?rest v (demo_done os rt d path out B s)"
  proof (cases g)
    case None
    then have no: "\<not> obliging os rt d" using g unfolding obliging_def by (metis fst_conv)
    have "runs_to (cleanup os rt d fi fo 0 0 1) ?v (demo_done os rt d path out B s)"
      by (rule runs_to_mono [OF cleanup_early [where B = "B fi fo", OF v'(1) no assms(5,6)]]) (rule finish)
    then show ?thesis using g None by (simp add: rt_defs)
  next
    case (Some a)
    have "unat a + unat IO_SIZE < 2 ^ 64" using g Some assms(4) unfolding well_behaved_def by (metis fst_conv)
    note part = registered_part [where B = "B fi fo", OF v'(1-3) assms(4) this assms(5,6) body]
    have "runs_to (bnd (fgds_regmem os d a IO_SIZE) (\<lambda>(r, x). let x = (case x of None \<Rightarrow> 0 | Some x \<Rightarrow> x) in
       if r \<noteq> 0 then cleanup os rt d fi fo a x 1 else
       bnd (body a x) (\<lambda>ok. cleanup os rt d fi fo a x (if ok then 0 else 1)))) ?v (demo_done os rt d path out B s)"
      by (rule runs_to_mono [OF part]) (assumption+, rule finish)
    then show ?thesis using g Some by (simp add: rt_defs del: runs_to_bnd add: runs_to_bnd [of "silent h" for h])
  qed
  then show "runs_to (if r \<noteq> 0 then cleanup os rt d fi fo 0 0 1 else ?rest) v (demo_done os rt d path out B s)" using r by simp
qed

lemma demo_spec:
  assumes "idle s d" and "valid_dev d" and "openable os s d" and "well_behaved os rt"
    and body: "\<And>u fi fo g a. held u d g a \<Longrightarrow> \<not> uring_init (g_dev_ctx u (nat d)) \<Longrightarrow>
      runs_to (body fi fo g a) u (\<lambda>ok v. \<exists>c. io_frame u d c v \<and> still c \<and> B fi fo a ok c)"
  shows "runs_to (demo_steps os rt d path out body) s (demo_done os rt d path out B s)"
proof -
  obtain fi w1 where fi: "rt_open_in rt path (world s) = (fi, w1)" by fastforce
  obtain fo w2 where fo: "rt_open_out rt out w1 = (fo, w2)" by fastforce
  have fds: "fi = -1 \<or> 0 < fi" "fo = -1 \<or> 0 < fo" using fi fo assms(4) unfolding well_behaved_def by (metis fst_conv)+
  let ?s1 = "s\<lparr>world := w1, calls := calls s @ [C_open path fi]\<rparr>"
  let ?s2 = "s\<lparr>world := w2, calls := calls s @ [C_open path fi, C_open out fo]\<rparr>"
  have i1: "idle ?s1 d" and i2: "idle ?s2 d" unfolding idle_did [OF did_call] by (rule assms(1))+
  consider (no_in) "fi = -1" | (no_out) "0 < fi" "fo = -1" | (files) "0 < fi" "0 < fo" using fds by blast
  then show ?thesis
  proof cases
    case no_in
    then have no: "\<not> obliging os rt d" using fi unfolding obliging_def by (metis fst_conv)
    have "runs_to (cleanup os rt d (-1) (-1) 0 0 1) ?s1 (demo_done os rt d path out B s)"
      by (rule runs_to_mono [OF demo_cleanup [OF release_idle [OF i1 assms(2), of os rt]]])
        (auto intro!: stopped_early [OF _ _ _ _ _ no] simp: no_in closing_def balanced_def call_bytes_def)
    then show ?thesis using fi no_in by (simp add: demo_steps_def rt_defs)
  next
    case no_out
    then have no: "\<not> obliging os rt d" using fo unfolding obliging_def by (metis fst_conv)
    have "runs_to (cleanup os rt d fi (-1) 0 0 1) ?s2 (demo_done os rt d path out B s)"
      by (rule runs_to_mono [OF demo_cleanup [OF release_idle [OF i2 assms(2), of os rt]]])
        (auto intro!: stopped_early [OF _ _ _ _ _ no] simp: no_out less_imp_le [OF no_out(1)] closing_def balanced_def call_bytes_def)
    then show ?thesis using fi fo no_out by (simp add: demo_steps_def rt_defs)
  next
    case files
    have "openable os ?s2 d" using assms(3) by (simp add: openable_def)
    note part = opened_part [where s = s and B = B, OF i2 assms(2) this assms(4) files _ _ body]
    show ?thesis using fi fo files part by (simp add: demo_steps_def rt_defs del: runs_to_bnd add: runs_to_bnd [of "ext f h" for f h])
  qed
qed

section \<open>The bodies\<close>

text \<open>The bytes of the mapping, each with its offset in the file.\<close>

definition file_bytes :: "u64 \<Rightarrow> (u64 \<times> s64) list" where
  "file_bytes a = map (\<lambda>k. (a + of_nat k, of_nat k)) [0..<4194304]"

lemma held_bytes: "k < 4194304 \<Longrightarrow> host_byte (reg_node g IO_SIZE [a]) k = a + of_nat k"
  by (simp add: host_byte_def reg_node_def)

lemma held_pipe:
  assumes "held u d g a"
  obtains p where "pipe_ok u d g IO_SIZE p (reg_node g IO_SIZE [a]) 0"
proof -
  from assms obtain p where wf: "node_wf (reg_node g IO_SIZE [a])"
    and cov: "\<And>m. unat m \<le> 4194304 \<Longrightarrow> covering u d g m = Some (p, reg_node g IO_SIZE [a])" by (rule held_node) blast
  have "in_window (reg_node g IO_SIZE [a]) 0 IO_SIZE" by (simp add: in_window_def reg_node_def)
  moreover have "reg_inv u" "valid_dev d" using assms by (simp_all add: held_def dev_session_def)
  ultimately have "pipe_ok u d g IO_SIZE p (reg_node g IO_SIZE [a]) 0" using wf cov by (simp add: pipe_ok_def word_le_nat_alt)
  then show thesis by (rule that)
qed

text \<open>
  The transfers of a body on a mapping: first reads of the input file, then writes of the output file, all inside the
  mapping; after a success they moved each byte once in either direction, with its offset.
\<close>

definition passes :: "int \<Rightarrow> bool \<Rightarrow> int \<Rightarrow> int \<Rightarrow> u64 \<Rightarrow> bool \<Rightarrow> call list \<Rightarrow> bool" where
  "passes d exact fi fo a ok c \<longleftrightarrow> (\<exists>cr cw. c = cr @ cw \<and> list_all (io_call Op_Read \<lparr>fd = fi, deviceID = d\<rparr>) cr \<and>
     list_all (io_call Op_Write \<lparr>fd = fo, deviceID = d\<rparr>) cw \<and> fst ` set (io_bytes c) \<subseteq> (\<lambda>k. a + of_nat k) ` {..<4194304} \<and>
     (exact \<longrightarrow> ok \<and> io_bytes cr = file_bytes a \<and> io_bytes cw = file_bytes a))"

lemma passes_still: "passes d exact fi fo a ok c \<Longrightarrow> still c"
  using io_calls by (fastforce simp: passes_def still_def)

lemma passesI:
  assumes "list_all (io_call Op_Read \<lparr>fd = fi, deviceID = d\<rparr>) cr" and "list_all (io_call Op_Write \<lparr>fd = fo, deviceID = d\<rparr>) cw"
    and "fst ` set (io_bytes cr) \<subseteq> (\<lambda>k. a + of_nat k) ` {..<4194304}" and "fst ` set (io_bytes cw) \<subseteq> (\<lambda>k. a + of_nat k) ` {..<4194304}"
    and "exact \<longrightarrow> ok \<and> io_bytes cr = file_bytes a \<and> io_bytes cw = file_bytes a"
  shows "passes d exact fi fo a ok (cr @ cw)"
  using assms unfolding passes_def by (intro exI [of _ cr] exI [of _ cw]) (simp add: image_Un)

lemma file_bytes_span: "span a 0 4194304 = file_bytes a" "fst ` set (file_bytes a) = (\<lambda>k. a + of_nat k) ` {..<4194304}"
  unfolding span_def file_bytes_def by (auto simp: image_image lessThan_atLeast0)

lemma mapped_body:
  "runs_to (pass_mapped os fi fo g a) u (\<lambda>ok v. \<exists>c. io_frame u d c v \<and> still c \<and> passes d ok fi fo a ok c)"
proof -
  let ?Q = "\<lambda>ok v. \<exists>c. io_frame u d c v \<and> still c \<and> passes d ok fi fo a ok c"
  obtain r w where r: "os_pread os fi a IO_SIZE 0 (world u) = (r, w)" by fastforce
  obtain r' w' where r': "os_pwrite os fo a IO_SIZE 0 w = (r', w')" by fastforce
  let ?cr = "[C_pread fi a IO_SIZE 0 r]" and ?cw = "[C_pwrite fo a IO_SIZE 0 r']"
  have bytes: "io_bytes ?cr = file_bytes a" "io_bytes ?cw = file_bytes a" by (simp_all add: call_bytes_def file_bytes_span)
  have stop: "passes d False fi fo a False (?cr @ [])"
    by (rule passesI) (simp_all only: bytes file_bytes_span(2), simp_all add: io_call_def)
  have all: "passes d ok fi fo a ok (?cr @ ?cw)" for ok
    by (rule passesI) (simp_all only: bytes file_bytes_span(2), simp_all add: io_call_def)
  have fin: "?Q ok t" if "did u c t" "passes d ok fi fo a ok c" for ok c t
    using io_frame_did [OF that(1)] that(2) passes_still [OF that(2)] by blast
  have run: "runs_to (pass_mapped os fi fo g a) u Q = (if r \<noteq> IO_SIZE then Q False (u\<lparr>world := w, calls := calls u @ ?cr @ []\<rparr>)
      else Q (r' = IO_SIZE) (u\<lparr>world := w', calls := calls u @ ?cr @ ?cw\<rparr>))" for Q
    using r r' by (simp add: pass_mapped_def sys_defs)
  show ?thesis unfolding run using fin [OF did_call stop] fin [OF did_call all] by presburger
qed

lemma held_inside: "inside (reg_node g IO_SIZE [a]) (unat (0 :: s64)) (unat IO_SIZE) c \<Longrightarrow> fst ` set (io_bytes c) \<subseteq> (\<lambda>k. a + of_nat k) ` {..<4194304}"
  unfolding inside_def using held_bytes [of _ g a] by (fastforce simp: lessThan_atLeast0)

lemma buffer_body:
  assumes "held u d g a" and "\<forall>w. peek_ends 512 os d w"
  shows "runs_to (pass_buffer os d fi fo g a) u (\<lambda>ok v. \<exists>c. io_frame u d c v \<and> still c \<and> passes d False fi fo a ok c)"
  (is "runs_to _ _ ?Q")
proof -
  let ?nd = "reg_node g IO_SIZE [a]"
  have step: "runs_to (fgds_read os \<lparr>fd = f, deviceID = d\<rparr> g 0 IO_SIZE 0) v (confined Op_Read \<lparr>fd = f, deviceID = d\<rparr> v ?nd 0 IO_SIZE)"
    "runs_to (fgds_write os \<lparr>fd = f, deviceID = d\<rparr> g 0 IO_SIZE 0) v (confined Op_Write \<lparr>fd = f, deviceID = d\<rparr> v ?nd 0 IO_SIZE)"
    if h: "held v d g a" for f v
  proof -
    obtain p where p: "pipe_ok v d g IO_SIZE p ?nd 0" using held_pipe [OF h] .
    have "uring_lock (g_dev_ctx v (nat d)) = Unlocked" using h by (simp add: held_def dev_session_def ctx_open_def)
    then show "runs_to (fgds_read os \<lparr>fd = f, deviceID = d\<rparr> g 0 IO_SIZE 0) v (confined Op_Read \<lparr>fd = f, deviceID = d\<rparr> v ?nd 0 IO_SIZE)"
      "runs_to (fgds_write os \<lparr>fd = f, deviceID = d\<rparr> g 0 IO_SIZE 0) v (confined Op_Write \<lparr>fd = f, deviceID = d\<rparr> v ?nd 0 IO_SIZE)"
      by (intro transfer_confined [where p = p]; use p assms(2) in simp)+
  qed
  have fin: "?Q ok t" if "io_frame u d c t" "passes d False fi fo a ok c" for ok c t
    using that passes_still [OF that(2)] by blast
  have conf: "\<exists>c. io_frame v d c t \<and> list_all (io_call op \<lparr>fd = f, deviceID = d\<rparr>) c \<and> fst ` set (io_bytes c) \<subseteq> (\<lambda>k. a + of_nat k) ` {..<4194304}"
    if "confined op \<lparr>fd = f, deviceID = d\<rparr> v ?nd 0 IO_SIZE r t" for op f v r t
    using that held_inside [of g a] unfolding confined_def fgds_fileid.simps by blast
  have "runs_to (fgds_read os \<lparr>fd = fi, deviceID = d\<rparr> g 0 IO_SIZE 0) u (\<lambda>r v. ?Q False v \<and>
      runs_to (fgds_write os \<lparr>fd = fo, deviceID = d\<rparr> g 0 IO_SIZE 0) v (\<lambda>r. ?Q (r = IO_SIZE)))"
  proof (rule runs_to_mono [OF step(1) [OF assms(1)]], drule conf, elim exE conjE)
    fix v cr
    assume cr: "io_frame u d cr v" "list_all (io_call Op_Read \<lparr>fd = fi, deviceID = d\<rparr>) cr"
      "fst ` set (io_bytes cr) \<subseteq> (\<lambda>k. a + of_nat k) ` {..<4194304}"
    have "passes d False fi fo a False (cr @ [])" by (rule passesI [OF cr(2) _ cr(3)]) simp_all
    then have "?Q False v" using fin [of "cr @ []"] cr(1) by simp
    moreover have "runs_to (fgds_write os \<lparr>fd = fo, deviceID = d\<rparr> g 0 IO_SIZE 0) v (\<lambda>r. ?Q (r = IO_SIZE))"
    proof (rule runs_to_mono [OF step(2) [OF held_frame [OF assms(1) cr(1)]]], drule conf, elim exE conjE)
      fix r' t cw
      assume cw: "io_frame v d cw t" "list_all (io_call Op_Write \<lparr>fd = fo, deviceID = d\<rparr>) cw"
        "fst ` set (io_bytes cw) \<subseteq> (\<lambda>k. a + of_nat k) ` {..<4194304}"
      have "passes d False fi fo a (r' = IO_SIZE) (cr @ cw)" by (rule passesI [OF cr(2) cw(2) cr(3) cw(3)]) simp
      then show "?Q (r' = IO_SIZE) t" by (rule fin [OF io_frame_trans [OF cr(1) cw(1)]])
    qed
    ultimately show "?Q False v \<and> runs_to (fgds_write os \<lparr>fd = fo, deviceID = d\<rparr> g 0 IO_SIZE 0) v (\<lambda>r. ?Q (r = IO_SIZE))" by blast
  qed
  then show ?thesis unfolding pass_buffer_def runs_to_bnd by (rule runs_to_mono) (simp only: runs_to_bnd runs_to_ret runs_to_if split: if_split, blast)
qed

lemma win_pairs_file: "win_pairs (reg_node g IO_SIZE [a]) (unat (0 :: s64)) 0 0 (unat IO_SIZE) = file_bytes a"
  unfolding win_pairs_def file_bytes_def by (rule map_cong) (simp_all add: held_bytes)

lemma buffer_exact:
  assumes "held u d g a" and "\<not> uring_init (g_dev_ctx u (nat d))" and "ring_laws os d sqf flight"
  shows "runs_to (pass_buffer os d fi fo g a) u (\<lambda>ok v. \<exists>c. io_frame u d c v \<and> still c \<and> passes d True fi fo a ok c)"
  (is "runs_to _ _ ?Q")
proof -
  let ?nd = "reg_node g IO_SIZE [a]"
  have step: "runs_to (fgds_read os \<lparr>fd = f, deviceID = d\<rparr> g 0 IO_SIZE 0) v (\<lambda>r t. transferred Op_Read \<lparr>fd = f, deviceID = d\<rparr> v ?nd 0 IO_SIZE 0 r t \<and>
      ring_idle t d sqf flight)"
    "runs_to (fgds_write os \<lparr>fd = f, deviceID = d\<rparr> g 0 IO_SIZE 0) v (\<lambda>r t. transferred Op_Write \<lparr>fd = f, deviceID = d\<rparr> v ?nd 0 IO_SIZE 0 r t \<and>
      ring_idle t d sqf flight)"
    if h: "held v d g a" and i: "ring_idle v d sqf flight" for f v
  proof -
    obtain p where p: "pipe_ok v d g IO_SIZE p ?nd 0" using held_pipe [OF h] .
    show "runs_to (fgds_read os \<lparr>fd = f, deviceID = d\<rparr> g 0 IO_SIZE 0) v (\<lambda>r t. transferred Op_Read \<lparr>fd = f, deviceID = d\<rparr> v ?nd 0 IO_SIZE 0 r t \<and>
        ring_idle t d sqf flight)"
      "runs_to (fgds_write os \<lparr>fd = f, deviceID = d\<rparr> g 0 IO_SIZE 0) v (\<lambda>r t. transferred Op_Write \<lparr>fd = f, deviceID = d\<rparr> v ?nd 0 IO_SIZE 0 r t \<and>
        ring_idle t d sqf flight)"
      using large_transfer [where fid = "\<lparr>fd = f, deviceID = d\<rparr>" and p = p and nd = ?nd and n = IO_SIZE] p assms(3) i by simp_all
  qed
  have conf: "r = IO_SIZE \<and> (\<exists>c. io_frame v d c t \<and> list_all (io_call op \<lparr>fd = f, deviceID = d\<rparr>) c \<and> io_bytes c = file_bytes a)"
    if "transferred op \<lparr>fd = f, deviceID = d\<rparr> v ?nd 0 IO_SIZE 0 r t" for op f v r t
    using that unfolding transferred_def fgds_fileid.simps win_pairs_file by blast
  have idle: "ring_idle u d sqf flight"
    using assms(1,2) by (simp add: ring_idle_def held_def dev_session_def ctx_open_def)
  have "runs_to (fgds_read os \<lparr>fd = fi, deviceID = d\<rparr> g 0 IO_SIZE 0) u (\<lambda>r v. r = IO_SIZE \<and>
      runs_to (fgds_write os \<lparr>fd = fo, deviceID = d\<rparr> g 0 IO_SIZE 0) v (\<lambda>r. ?Q (r = IO_SIZE)))"
  proof (rule runs_to_mono [OF step(1) [OF assms(1) idle]], elim conjE, drule conf, elim exE conjE)
    fix r :: s64 and v cr
    assume i: "ring_idle v d sqf flight" and r: "r = IO_SIZE"
      and cr: "io_frame u d cr v" "list_all (io_call Op_Read \<lparr>fd = fi, deviceID = d\<rparr>) cr" "io_bytes cr = file_bytes a"
    have "runs_to (fgds_write os \<lparr>fd = fo, deviceID = d\<rparr> g 0 IO_SIZE 0) v (\<lambda>r. ?Q (r = IO_SIZE))"
    proof (rule runs_to_mono [OF step(2) [OF held_frame [OF assms(1) cr(1)] i]], elim conjE, drule conf, elim exE conjE)
      fix r' :: s64 and t cw
      assume r': "r' = IO_SIZE"
        and cw: "io_frame v d cw t" "list_all (io_call Op_Write \<lparr>fd = fo, deviceID = d\<rparr>) cw" "io_bytes cw = file_bytes a"
      have "passes d True fi fo a (r' = IO_SIZE) (cr @ cw)"
        by (rule passesI [OF cr(2) cw(2)]) (simp_all only: cr(3) cw(3) file_bytes_span(2) r' order.refl simp_thms)
      then show "?Q (r' = IO_SIZE) t" using io_frame_trans [OF cr(1) cw(1)] passes_still by blast
    qed
    then show "r = IO_SIZE \<and> runs_to (fgds_write os \<lparr>fd = fo, deviceID = d\<rparr> g 0 IO_SIZE 0) v (\<lambda>r. ?Q (r = IO_SIZE))" using r by blast
  qed
  then show ?thesis unfolding pass_buffer_def runs_to_bnd by (rule runs_to_mono) (simp only: runs_to_bnd runs_to_ret runs_to_if simp_thms if_False)
qed

section \<open>Properties\<close>

text \<open>
  C1. The demo copies the file. On a device that can be opened, with an environment that refuses nothing and a ring that completes
  every request, \<open>fgds_read_write_demo\<close> returns 0: it maps a range of 4 MB, makes read requests on the input file that move byte
  \<open>k\<close> of the file to byte \<open>k\<close> of the mapping, for the first 4 MB and each once, then write requests on the output file that move
  byte \<open>k\<close> of the mapping to byte \<open>k\<close> of the file. At the end the device is closed and without buffers, everything mapped has been
  unmapped, and every descriptor opened has been closed.
\<close>

theorem demo_copies:
  assumes "idle s d" and "valid_dev d" and "well_behaved os rt" and "obliging os rt d" and "ring_laws os d sqf flight"
  shows "runs_to (fgds_read_write_demo os rt d path) s (\<lambda>r t. r = 0 \<and> idle t d \<and> xfer_live t = xfer_live s \<and>
    (\<exists>fi fo a c0 cr cw c1. calls t = calls s @ C_open path fi # C_open (make_out_path path ''.fgds_read_write_demo.out'' PATH_MAX) fo # c0 @ cr @ cw @ c1 \<and>
      balanced (C_open path fi # C_open (make_out_path path ''.fgds_read_write_demo.out'' PATH_MAX) fo # c0 @ cr @ cw @ c1) \<and>
      (a, IO_SIZE) \<in> set (maps_of c0) \<and> io_bytes c0 = [] \<and> io_bytes c1 = [] \<and>
      list_all (io_call Op_Read \<lparr>fd = fi, deviceID = d\<rparr>) cr \<and> io_bytes cr = file_bytes a \<and>
      list_all (io_call Op_Write \<lparr>fd = fo, deviceID = d\<rparr>) cw \<and> io_bytes cw = file_bytes a))"
proof -
  let ?out = "make_out_path path ''.fgds_read_write_demo.out'' PATH_MAX"
  have "openable os s d" using assms(4) by (simp add: openable_def obliging_def)
  then have "runs_to (fgds_read_write_demo os rt d path) s (demo_done os rt d path ?out (passes d True) s)"
    unfolding demo_shapes by (rule demo_spec [OF assms(1,2) _ assms(3) buffer_exact [OF _ _ assms(5)]])
  then show ?thesis
  proof (rule runs_to_mono)
    fix r t
    assume t: "demo_done os rt d path ?out (passes d True) s r t"
    then obtain c where c: "idle t d" "xfer_live t = xfer_live s" "calls t = calls s @ c" "balanced c"
      and "\<exists>fi fo c'. c = C_open path fi # C_open ?out fo # c' \<and> ended os rt d (passes d True fi fo) r c'"
      using assms(4) unfolding demo_done_def by blast
    then obtain fi fo c0 cb c1 a ok where e: "c = C_open path fi # C_open ?out fo # c0 @ cb @ c1" "io_bytes c0 = []" "io_bytes c1 = []"
        "(a, IO_SIZE) \<in> set (maps_of c0)" "r = (if ok then 0 else 1)" "passes d True fi fo a ok cb"
      using assms(4) unfolding ended_def by blast
    from e(6) obtain cr cw where b: "cb = cr @ cw" "list_all (io_call Op_Read \<lparr>fd = fi, deviceID = d\<rparr>) cr"
        "list_all (io_call Op_Write \<lparr>fd = fo, deviceID = d\<rparr>) cw" "ok" "io_bytes cr = file_bytes a" "io_bytes cw = file_bytes a"
      unfolding passes_def by blast
    have "c = C_open path fi # C_open ?out fo # c0 @ cr @ cw @ c1" "r = 0" using e(1,5) b(1,4) by simp_all
    then show "r = 0 \<and> idle t d \<and> xfer_live t = xfer_live s \<and>
      (\<exists>fi fo a c0 cr cw c1. calls t = calls s @ C_open path fi # C_open ?out fo # c0 @ cr @ cw @ c1 \<and>
        balanced (C_open path fi # C_open ?out fo # c0 @ cr @ cw @ c1) \<and>
        (a, IO_SIZE) \<in> set (maps_of c0) \<and> io_bytes c0 = [] \<and> io_bytes c1 = [] \<and>
        list_all (io_call Op_Read \<lparr>fd = fi, deviceID = d\<rparr>) cr \<and> io_bytes cr = file_bytes a \<and>
        list_all (io_call Op_Write \<lparr>fd = fo, deviceID = d\<rparr>) cw \<and> io_bytes cw = file_bytes a)"
      using c e(2-4) b(2,3,5,6) by blast
  qed
qed

text \<open>Every call succeeds; mappings are placed at one address.\<close>

definition demo_os :: "sim_world os" where
  "demo_os = sim_os\<lparr>os_mmap := (\<lambda>len f w. (Some 0x7f0000000000, w))\<rparr>"

definition demo_rt :: "sim_world rt" where
  "demo_rt = \<lparr>rt_open_in = (\<lambda>p w. (4, w)), rt_open_out = (\<lambda>p w. (5, w)), rt_malloc = (\<lambda>n w. (Some 0x10000000, w)),
     rt_free = (\<lambda>a w. w), rt_set_device = (\<lambda>d w. (True, w))\<rparr>"

lemma demo_env_ok: "idle (lib_init w) 0" "well_behaved demo_os demo_rt" "ring_laws demo_os d sim_sq (mset \<circ> sim_cq)" "cooperative demo_os"
proof -
  have "dev_ptrs (lib_init w) 0 = []" by (simp add: dev_ptrs_def lib_init_def ctx_init_def)
  then show "idle (lib_init w) 0" unfolding idle_def using lib_init_inv [of w] by blast
  show "ring_laws demo_os d sim_sq (mset \<circ> sim_cq)" using sim_ring_laws [of d] unfolding ring_laws_def demo_os_def by simp
  show "cooperative demo_os" using open_lib_ok(5) by (simp add: cooperative_def demo_os_def)
  show "well_behaved demo_os demo_rt" by (simp add: well_behaved_def demo_os_def demo_rt_def sim_os_def)
qed

theorem demo_copies_witness:
  "runs_to (fgds_read_write_demo demo_os demo_rt 0 ''/data/in'') (lib_init sim_world_init) (\<lambda>r t. r = 0 \<and>
    (\<exists>fi fo a c0 cr cw c1. calls t = C_open ''/data/in'' fi # C_open ''/data/in.fgds_read_write_demo.out'' fo # c0 @ cr @ cw @ c1 \<and>
      io_bytes cr = file_bytes a \<and> io_bytes cw = file_bytes a))"
proof -
  have out: "make_out_path ''/data/in'' ''.fgds_read_write_demo.out'' PATH_MAX = ''/data/in.fgds_read_write_demo.out''"
    by (simp add: make_out_path_def)
  have start: "calls (lib_init sim_world_init) = []" by (simp add: lib_init_def)
  have "obliging demo_os demo_rt 0" using demo_env_ok(4) by (simp add: obliging_def demo_os_def demo_rt_def sim_os_def)
  note copies = demo_copies [OF demo_env_ok(1) _ demo_env_ok(2) this demo_env_ok(3), of "''/data/in''" sim_world_init, unfolded out start append_Nil]
  show ?thesis by (rule runs_to_mono [OF copies]) (simp, blast)
qed

text \<open>
  C21. The demos are contained in any environment. Whatever the environment refuses or answers short, on a device that was never opened
  or that can be opened, both demos end without a fault, leave the device closed and without buffers, no transfer descriptor
  allocated, everything mapped unmapped and every descriptor opened closed. If they stop before the transfers, nothing is
  transferred; otherwise they only read the input file and write the output file, inside the mapping.
\<close>

theorem demos_contained:
  assumes "idle s d" and "valid_dev d" and "openable os s d" and "well_behaved os rt" and "\<forall>w. peek_ends 512 os d w"
  shows "runs_to (fgds_demo os rt d path) s
      (demo_done os rt d path (make_out_path path ''.fgds_demo.out'' PATH_MAX) (\<lambda>fi fo a ok. passes d ok fi fo a ok) s) \<and>
    runs_to (fgds_read_write_demo os rt d path) s
      (demo_done os rt d path (make_out_path path ''.fgds_read_write_demo.out'' PATH_MAX) (passes d False) s)"
  unfolding demo_shapes
  by (intro conjI demo_spec [OF assms(1-4) mapped_body] demo_spec [OF assms(1-4) buffer_body [OF _ assms(5)]])

text \<open>A file system that refuses the output file and a device that cannot be opened.\<close>

theorem demos_contained_witness:
  "runs_to (fgds_demo (no_dev_os\<lparr>os_mmap := (\<lambda>len f w. (None, w)), ring_peek_cqe := (\<lambda>_ w. (-11, w))\<rparr>) demo_rt 0 ''in'') (lib_init sim_world_init)
    (\<lambda>r t. idle t 0 \<and> xfer_live t = 0 \<and> balanced (calls t))"
proof -
  let ?os = "no_dev_os\<lparr>os_mmap := (\<lambda>len f w. (None, w)), ring_peek_cqe := (\<lambda>_ w. (-11, w))\<rparr>"
  have "openable ?os (lib_init sim_world_init) 0" by (simp add: openable_def lib_init_def ctx_init_def)
  moreover have "well_behaved ?os demo_rt" by (simp add: well_behaved_def no_dev_os_def demo_rt_def sim_os_def)
  moreover have "\<forall>w. peek_ends 512 ?os 0 w" by (simp add: peek_ends.simps)
  ultimately show ?thesis
    by (intro runs_to_mono [OF conjunct1 [OF demos_contained [OF demo_env_ok(1)]]]) (auto simp: demo_done_def lib_init_def)
qed

text \<open>
  A demo on a device number outside the table faults. \<open>fgds_open\<close> opens device 0 for any number above 7 and returns 0, but
  \<open>fgds_regmem\<close> uses the number as an index: the demo accesses the table of contexts out of bounds.
\<close>

theorem demo_bad_device:
  assumes "FGDS_MAX_DEVICES \<le> d" and "\<forall>e. valid_dev e \<longrightarrow> \<not> marked s e" and "obliging os rt 0" and "well_behaved os rt"
  shows "fgds_demo os rt d path s = Inl Out_Of_Bounds"
proof -
  obtain fi w1 where fi: "rt_open_in rt path (world s) = (fi, w1)" "0 < fi"
    using assms(3,4) unfolding obliging_def well_behaved_def by (metis prod.collapse)
  let ?out = "make_out_path path ''.fgds_demo.out'' PATH_MAX"
  obtain fo w2 where fo: "rt_open_out rt ?out w1 = (fo, w2)" "0 < fo"
    using assms(3,4) unfolding obliging_def well_behaved_def by (metis prod.collapse)
  let ?s = "s\<lparr>world := w2, calls := calls s @ [C_open path fi, C_open ?out fo]\<rparr>"
  have "runs_to (fgds_open os d) ?s (\<lambda>r t. r = 0)"
  proof -
    have none: "(\<exists>e. valid_dev e \<and> marked ?s e) = False" "fgds_initialized ?s (nat 0) = False"
      using assms(2) by (auto simp: marked_def)
    obtain f w where "os_open os (fgds_dev_path ! 0) (world ?s) = (f, w)" "f \<noteq> -1"
      using assms(3) unfolding obliging_def by (metis nat_0 prod.collapse)
    then show ?thesis using assms(1) none by (simp add: fgds_open_def is_fgds_initialized_eq runs_to_open_ctx)
  qed
  then obtain t where t: "fgds_open os d ?s = Inr (0, t)" by (auto simp: runs_to_iff)
  obtain g w3 where g: "rt_malloc rt IO_SIZE (world t) = (Some g, w3)"
    using assms(3) unfolding obliging_def by (metis not_None_eq prod.collapse)
  obtain w4 where "os_malloc os 56 w3 = (True, w4)"
    using assms(3) unfolding obliging_def cooperative_def by (metis (full_types) prod.collapse)
  then have "fgds_regmem os d g IO_SIZE (t\<lparr>world := w3\<rparr>) = Inl Out_Of_Bounds"
    using assms(1) by (simp add: run malloc_def)
  then show ?thesis using fi fo t g by (simp add: fgds_demo_def rt_defs run_simps ext_def silent_def)
qed

theorem demo_bad_device_witness:
  "fgds_demo demo_os demo_rt 9 ''in'' (lib_init sim_world_init) = Inl Out_Of_Bounds"
proof (rule demo_bad_device)
  show "obliging demo_os demo_rt 0" using demo_env_ok(4) by (simp add: obliging_def demo_os_def demo_rt_def sim_os_def)
qed (simp_all add: lib_init_inv demo_env_ok)

text \<open>
  The second demo of \<open>main\<close> can fault. If the device file can be opened for the first demo and no longer for the second, the
  second demo closes the device all the same and locks a mutex that the first demo destroyed.
\<close>

theorem main_reopen_fault:
  "main_prog (once_os\<lparr>os_mmap := (\<lambda>len f w. (Some 0x7f0000000000, w))\<rparr>) demo_rt [''0'', ''in''] (lib_init sim_world_init) = Inl Bad_Mutex"
  by (simp add: main_prog_def atoi_def fgds_demo_def fgds_read_write_demo_def cleanup_def rt_defs run sys_defs lock_defs lib_init_def ctx_init_def
    once_os_def demo_rt_def sim_os_def sim_world_init_def int_of_size_def regmem_len_def dereg_len_def map_param_def)

end
