(* ===== verification/Fgds_Minimal.thy ===== *)
theory Fgds_Minimal
  imports Fgds_Example
begin

text \<open>
  The example program example/minimal_example.cc: the name of the device node of a GPU, the pattern, and \<open>main\<close>, which
  exports a GPU buffer as a dma-buf, registers and maps it, writes it to a file, reads it back and checks the pattern.
  The driver it talks to, the CUDA runtime and the file system are the environment: the program uses ioctls that the
  module of the repository does not have.
\<close>

section \<open>Scanning and printing of hexadecimal numbers\<close>

text \<open>
  \<open>%x\<close> of \<open>sscanf\<close>: white space, a sign, an optional prefix \<open>0x\<close>, and the longest run of digits, which must not be
  empty. The value saturates at 64 bits, as \<open>strtoul\<close> does, and is stored in an \<open>unsigned int\<close>.
\<close>

definition hex_val :: "char \<Rightarrow> nat option" where
  "hex_val c = (let v = of_char c in if 48 \<le> v \<and> v \<le> 57 then Some (v - 48) else
     if 97 \<le> v \<and> v \<le> 102 then Some (v - 87) else if 65 \<le> v \<and> v \<le> 70 then Some (v - 55) else None)"

fun hex_digits :: "string \<Rightarrow> nat \<Rightarrow> nat \<times> string" where
  "hex_digits [] v = (v, [])"
| "hex_digits (c # cs) v = (case hex_val c of None \<Rightarrow> (v, c # cs) | Some h \<Rightarrow> hex_digits cs (16 * v + h))"

definition hex_number :: "bool \<Rightarrow> string \<Rightarrow> (u32 \<times> string) option" where
  "hex_number neg cs = (case cs of [] \<Rightarrow> None | c # _ \<Rightarrow> if hex_val c = None then None else
     case hex_digits cs 0 of (v, rest) \<Rightarrow>
       Some (if 2 ^ 64 \<le> v then - 1 else if neg then - of_nat v else of_nat v, rest))"

definition hex_prefix :: "string \<Rightarrow> string" where
  "hex_prefix cs = (case cs of c # x # rest \<Rightarrow> if c = CHR ''0'' \<and> (x = CHR ''x'' \<or> x = CHR ''X'') then rest else cs | _ \<Rightarrow> cs)"

definition scan_hex :: "string \<Rightarrow> (u32 \<times> string) option" where
  "scan_hex str = (case dropWhile (\<lambda>c. c = CHR '' '' \<or> c \<in> {CHR 0x09, CHR 0x0A, CHR 0x0B, CHR 0x0C, CHR 0x0D}) str of
     [] \<Rightarrow> None
   | c # cs \<Rightarrow> if c = CHR ''-'' then hex_number True (hex_prefix cs) else if c = CHR ''+'' then hex_number False (hex_prefix cs)
       else hex_number False (hex_prefix (c # cs)))"

definition scan_char :: "char \<Rightarrow> string \<Rightarrow> string option" where
  "scan_char c str = (case str of [] \<Rightarrow> None | x # cs \<Rightarrow> if x = c then Some cs else None)"

text \<open>The four conversions of \<open>"%x:%x:%x.%x"\<close>; nothing when fewer than four are made.\<close>

definition scan_bdf :: "string \<Rightarrow> (u32 \<times> u32 \<times> u32 \<times> u32) option" where
  "scan_bdf str =
     Option.bind (scan_hex str) (\<lambda>(dom, s). Option.bind (scan_char CHR '':'' s) (\<lambda>s.
     Option.bind (scan_hex s) (\<lambda>(bus, s). Option.bind (scan_char CHR '':'' s) (\<lambda>s.
     Option.bind (scan_hex s) (\<lambda>(dev, s). Option.bind (scan_char CHR ''.'' s) (\<lambda>s.
     Option.bind (scan_hex s) (\<lambda>(func, s). Some (dom, bus, dev, func))))))))"

text \<open>\<open>%0wx\<close> of \<open>snprintf\<close>.\<close>

definition hex_char :: "nat \<Rightarrow> char" where
  "hex_char n = char_of (if n < 10 then 48 + n else 87 + n)"

fun hex_string :: "nat \<Rightarrow> string" where
  "hex_string n = (if n < 16 then [hex_char n] else hex_string (n div 16) @ [hex_char (n mod 16)])"

declare hex_string.simps [simp del]

definition print_hex :: "nat \<Rightarrow> u32 \<Rightarrow> string" where
  "print_hex w v = replicate (w - length (hex_string (unat v))) CHR ''0'' @ hex_string (unat v)"

section \<open>The node of a device\<close>

text \<open>\<open>/dev/fgds_<bdf>\<close>, cut at the size of the buffer. The result is nothing where the code returns -1.\<close>

definition node_name :: "u32 \<times> u32 \<times> u32 \<times> u32 \<Rightarrow> string" where
  "node_name = (\<lambda>(dom, bus, dev, func).
     ''/dev/fgds_'' @ print_hex 4 dom @ ''_'' @ print_hex 2 bus @ ''_'' @ print_hex 2 dev @ ''_'' @ print_hex 1 func)"

definition fgds_dev_path_bdf :: "nat \<Rightarrow> string \<Rightarrow> string option" where
  "fgds_dev_path_bdf len bdf = (case scan_bdf bdf of None \<Rightarrow> None | Some a \<Rightarrow> Some (take (len - 1) (node_name a)))"

text \<open>The address of a device as \<open>cudaDeviceGetPCIBusId\<close> prints it.\<close>

definition bdf_name :: "u32 \<times> u32 \<times> u32 \<times> u32 \<Rightarrow> string" where
  "bdf_name = (\<lambda>(dom, bus, dev, func). print_hex 4 dom @ '':'' @ print_hex 2 bus @ '':'' @ print_hex 2 dev @ ''.'' @ print_hex 1 func)"

lemma unat_u32_less: "unat (v :: u32) < 4294967296"
  using unsigned_less [of v] by simp

lemma hex_val_char: "n < 16 \<Longrightarrow> hex_val (hex_char n) = Some n"
  by (auto simp: hex_val_def hex_char_def Let_def of_char_of)

lemma hex_val_seps [simp]: "hex_val CHR '':'' = None" "hex_val CHR ''.'' = None" "hex_val CHR ''_'' = None" "hex_val CHR ''0'' = Some 0"
  by (simp_all add: hex_val_def Let_def)

text \<open>A string that ends a number.\<close>

definition stops :: "string \<Rightarrow> bool" where
  "stops cs \<longleftrightarrow> cs = [] \<or> hd cs \<in> {CHR '':'', CHR ''.'', CHR ''_''}"

lemma hex_digits_stops [simp]: "stops cs \<Longrightarrow> hex_digits cs v = (v, cs)"
  by (cases cs) (auto simp: stops_def)

lemma hex_digits_string: "stops cs \<Longrightarrow> hex_digits (hex_string n @ cs) v = (v * 16 ^ length (hex_string n) + n, cs)"
proof (induction n arbitrary: v cs rule: hex_string.induct)
  case (1 n)
  show ?case
  proof (cases "n < 16")
    case True
    then show ?thesis using 1(2) by (simp add: hex_string.simps [of n] hex_val_char)
  next
    case False
    have split: "hex_digits (hex_string m @ c # cs) v = hex_digits (c # cs) (v * 16 ^ length (hex_string m) + m)"
      if "\<And>cs v. stops cs \<Longrightarrow> hex_digits (hex_string m @ cs) v = (v * 16 ^ length (hex_string m) + m, cs)" for m c cs v
    proof -
      have app: "hex_digits (xs @ ys) v = hex_digits ys (fst (hex_digits xs v))" if "snd (hex_digits xs v) = []" for xs ys v
        using that by (induction xs arbitrary: v) (auto split: option.splits)
      have "hex_digits (hex_string m) v = (v * 16 ^ length (hex_string m) + m, [])" using that [of "[]" v] by (simp add: stops_def)
      then show ?thesis by (simp add: app)
    qed
    have "hex_digits (hex_string (n div 16) @ hex_char (n mod 16) # cs) v =
        hex_digits (hex_char (n mod 16) # cs) (v * 16 ^ length (hex_string (n div 16)) + n div 16)"
      using 1(1) [OF False] by (intro split) simp
    then show ?thesis using False 1(2) by (simp add: hex_string.simps [of n] hex_val_char algebra_simps)
  qed
qed

lemma hex_string_Cons: "\<exists>h cs. hex_string n = hex_char h # cs \<and> h < 16"
proof (induction n rule: hex_string.induct)
  case (1 n)
  then show ?case by (cases "n < 16") (auto simp: hex_string.simps [of n])
qed

lemma hex_string_set: "c \<in> set (hex_string n) \<Longrightarrow> \<exists>h<16. c = hex_char h"
proof (induction n rule: hex_string.induct)
  case (1 n)
  have "\<exists>h<16. hex_char (n mod 16) = hex_char h" by (rule exI [of _ "n mod 16"]) simp
  with 1 show ?case by (cases "n < 16") (auto simp: hex_string.simps [of n])
qed

lemma hex_string_length: "n < 16 ^ Suc k \<Longrightarrow> length (hex_string n) \<le> Suc k"
proof (induction k arbitrary: n)
  case (Suc k)
  then have "length (hex_string (n div 16)) \<le> Suc k" by (simp add: less_mult_imp_div_less mult.commute)
  then show ?case by (subst hex_string.simps) simp
qed (simp add: hex_string.simps)

lemma print_hex_digits: "stops cs \<Longrightarrow> hex_digits (print_hex w v @ cs) 0 = (unat v, cs)"
proof -
  have "hex_digits (replicate n CHR ''0'' @ xs) 0 = hex_digits xs 0" for n xs by (induction n) simp_all
  then show "stops cs \<Longrightarrow> ?thesis" by (simp add: print_hex_def hex_digits_string)
qed

lemma print_hex_length: "length (print_hex w v) \<le> max w 8"
proof -
  have "unat v < 16 ^ Suc 7" using unsigned_less [of v] by simp
  then have "length (hex_string (unat v)) \<le> Suc 7" by (rule hex_string_length)
  then show ?thesis by (auto simp: print_hex_def)
qed

lemma print_hex_set: "y \<in> set (print_hex w v) \<Longrightarrow> hex_val y \<noteq> None"
  using hex_string_set [of y "unat v"] by (auto simp: print_hex_def hex_val_char split: if_splits)

lemma print_hex_Cons: "\<exists>c xs. print_hex w v = c # xs"
  using hex_string_Cons [of "unat v"] by (cases "w - length (hex_string (unat v))") (auto simp: print_hex_def)

lemma scan_hex_print:
  assumes "stops cs"
  shows "scan_hex (print_hex w v @ cs) = Some (v, cs)"
proof -
  obtain c xs where c: "print_hex w v = c # xs" using print_hex_Cons by blast
  have digit: "hex_val y \<noteq> None" if "y \<in> set (c # xs)" for y using that print_hex_set [of y w v] c by simp
  have small: "\<not> 2 ^ 64 \<le> unat v" unfolding not_le by (rule less_trans [OF unat_u32_less]) simp
  have num: "hex_number False (c # xs @ cs) = Some (v, cs)"
  proof -
    have "hex_digits (c # xs @ cs) 0 = (unat v, cs)" using print_hex_digits [OF assms, of w v] unfolding c by simp
    moreover have "(of_nat (unat v) :: u32) = v" by simp
    ultimately show ?thesis using digit [of c] small unfolding hex_number_def list.case by (simp only: prod.case if_False set_simps insert_iff) simp
  qed
  have other: "y \<notin> {CHR '' '', CHR 0x09, CHR 0x0A, CHR 0x0B, CHR 0x0C, CHR 0x0D, CHR ''-'', CHR ''+'', CHR ''x'', CHR ''X''}" (is "y \<notin> ?S")
    if y: "y \<in> set (c # xs)" for y
  proof
    assume "y \<in> ?S"
    then have "hex_val y = None" by (auto simp: hex_val_def Let_def)
    then show False using digit [OF y] by contradiction
  qed
  have "hex_prefix (c # xs @ cs) = c # xs @ cs"
  proof (cases xs)
    case Nil
    then show ?thesis using assms by (cases cs) (auto simp: stops_def hex_prefix_def)
  next
    case (Cons z zs)
    then have "z \<noteq> CHR ''x'' \<and> z \<noteq> CHR ''X''" using other [of z] by simp
    then show ?thesis unfolding Cons hex_prefix_def by simp
  qed
  then show ?thesis using num other [of c] unfolding c by (simp add: scan_hex_def)
qed

lemma scan_bdf_name: "scan_bdf (bdf_name a) = Some a"
  by (cases a) (simp add: scan_bdf_def bdf_name_def scan_hex_print scan_char_def stops_def scan_hex_print [where cs = "[]", simplified])

lemma node_name_length: "length (node_name a) \<le> 63"
proof -
  obtain dom bus dev func where "a = (dom, bus, dev, func)" by (cases a)
  moreover have "length (print_hex 4 dom) \<le> 8" "length (print_hex 2 bus) \<le> 8" "length (print_hex 2 dev) \<le> 8" "length (print_hex 1 func) \<le> 8"
    using print_hex_length [of 4 dom] print_hex_length [of 2 bus] print_hex_length [of 2 dev] print_hex_length [of 1 func] by simp_all
  ultimately show ?thesis by (simp add: node_name_def)
qed

lemma print_hex_inj:
  assumes "print_hex w v @ cs = print_hex w v' @ cs'" and "stops cs" "stops cs'"
  shows "v = v' \<and> cs = cs'"
proof -
  have "(unat v, cs) = (unat v', cs')"
    by (rule trans [OF print_hex_digits [OF assms(2), of w v, symmetric]]) (simp only: assms(1) print_hex_digits [OF assms(3)])
  then show ?thesis by (metis prod.inject word_unat_eq_iff)
qed

lemma node_name_inj:
  assumes "node_name (d, b, v, f) = node_name (d', b', v', f')"
  shows "d = d' \<and> b = b' \<and> v = v' \<and> f = f'"
proof -
  have s: "stops (CHR ''_'' # cs)" "stops []" for cs by (simp_all add: stops_def)
  have "print_hex 4 d @ CHR ''_'' # print_hex 2 b @ CHR ''_'' # print_hex 2 v @ CHR ''_'' # print_hex 1 f =
      print_hex 4 d' @ CHR ''_'' # print_hex 2 b' @ CHR ''_'' # print_hex 2 v' @ CHR ''_'' # print_hex 1 f'"
    using assms by (simp add: node_name_def)
  from print_hex_inj [OF this s(1) s(1)] have d: "d = d'"
    and "print_hex 2 b @ CHR ''_'' # print_hex 2 v @ CHR ''_'' # print_hex 1 f = print_hex 2 b' @ CHR ''_'' # print_hex 2 v' @ CHR ''_'' # print_hex 1 f'"
    by simp_all
  from print_hex_inj [OF this(2) s(1) s(1)] have b: "b = b'"
    and "print_hex 2 v @ CHR ''_'' # print_hex 1 f = print_hex 2 v' @ CHR ''_'' # print_hex 1 f'" by simp_all
  from print_hex_inj [OF this(2) s(1) s(1)] have v: "v = v'" and "print_hex 1 f = print_hex 1 f'" by simp_all
  then show ?thesis using d b print_hex_inj [OF _ s(2) s(2), of 1 f f'] by simp
qed

section \<open>The pattern\<close>

abbreviation BUF_SIZE :: nat where "BUF_SIZE \<equiv> 4194304"
abbreviation PATTERN_WORDS :: nat where "PATTERN_WORDS \<equiv> BUF_SIZE div 8"

text \<open>A buffer of the host is the function from the index of a 64-bit word to its value.\<close>

type_synonym words = "nat \<Rightarrow> u64"

fun fill_loop_words :: "nat list \<Rightarrow> words \<Rightarrow> words" where
  "fill_loop_words [] buf = buf"
| "fill_loop_words (i # is) buf = fill_loop_words is (buf(i := of_nat i))"

definition fill_pattern :: "words \<Rightarrow> words" where
  "fill_pattern buf = fill_loop_words [0..<PATTERN_WORDS] buf"

fun check_loop :: "nat list \<Rightarrow> words \<Rightarrow> bool" where
  "check_loop [] buf = True"
| "check_loop (i # is) buf = (if buf i \<noteq> of_nat i then False else check_loop is buf)"

definition check_pattern :: "words \<Rightarrow> bool" where
  "check_pattern buf = check_loop [0..<PATTERN_WORDS] buf"

lemma fill_loop_words_eq: "fill_loop_words is buf = (\<lambda>i. if i \<in> set is then of_nat i else buf i)"
  by (induction "is" arbitrary: buf) (auto simp: fun_eq_iff)

lemma fill_pattern_eq: "i < PATTERN_WORDS \<Longrightarrow> fill_pattern buf i = of_nat i"
  by (simp add: fill_pattern_def fill_loop_words_eq)

lemma check_loop_iff: "check_loop is buf \<longleftrightarrow> (\<forall>i\<in>set is. buf i = of_nat i)"
  by (induction "is") auto

lemma check_pattern_iff: "check_pattern buf \<longleftrightarrow> (\<forall>i<PATTERN_WORDS. buf i = of_nat i)"
  unfolding check_pattern_def check_loop_iff by auto

section \<open>The environment\<close>

text \<open>
  What \<open>main\<close> calls. The result of \<open>cudaMalloc\<close> and of \<open>cuMemGetHandleForAddressRange\<close> is nothing when they leave their
  argument as it was; \<open>cudaMemcpy\<close> to the host gives the host buffer after the call.
\<close>

record reg_buffer =
  rb_dmabuf_fd :: int
  rb_offset :: u64
  rb_size :: nat

record 'w mini =
  mn_set_device :: "int \<Rightarrow> 'w \<Rightarrow> 'w"
  mn_bus_id :: "int \<Rightarrow> 'w \<Rightarrow> string \<times> 'w"
  mn_aligned_alloc :: "nat \<Rightarrow> 'w \<Rightarrow> words option \<times> 'w"
  mn_malloc :: "nat \<Rightarrow> 'w \<Rightarrow> u64 option \<times> 'w"
  mn_to_device :: "u64 \<Rightarrow> words \<Rightarrow> nat \<Rightarrow> 'w \<Rightarrow> 'w"
  mn_synchronize :: "'w \<Rightarrow> 'w"
  mn_init :: "'w \<Rightarrow> 'w"
  mn_export :: "u64 \<Rightarrow> nat \<Rightarrow> 'w \<Rightarrow> int option \<times> 'w"
  mn_open_dev :: "string \<Rightarrow> 'w \<Rightarrow> int \<times> 'w"
  mn_reg :: "int \<Rightarrow> reg_buffer \<Rightarrow> 'w \<Rightarrow> (int \<times> u64) \<times> 'w"
  mn_mmap :: "nat \<Rightarrow> int \<Rightarrow> u64 \<Rightarrow> 'w \<Rightarrow> u64 option \<times> 'w"
  mn_open_file :: "string \<Rightarrow> 'w \<Rightarrow> int \<times> 'w"
  mn_pwrite :: "int \<Rightarrow> u64 \<Rightarrow> nat \<Rightarrow> int \<Rightarrow> 'w \<Rightarrow> int \<times> 'w"
  mn_memset :: "u64 \<Rightarrow> nat \<Rightarrow> 'w \<Rightarrow> 'w"
  mn_pread :: "int \<Rightarrow> u64 \<Rightarrow> nat \<Rightarrow> int \<Rightarrow> 'w \<Rightarrow> int \<times> 'w"
  mn_to_host :: "words \<Rightarrow> u64 \<Rightarrow> nat \<Rightarrow> 'w \<Rightarrow> words \<times> 'w"
  mn_unreg :: "int \<Rightarrow> u64 \<Rightarrow> 'w \<Rightarrow> int \<times> 'w"
  mn_munmap :: "u64 \<Rightarrow> nat \<Rightarrow> 'w \<Rightarrow> 'w"
  mn_close :: "int \<Rightarrow> 'w \<Rightarrow> 'w"
  mn_free :: "u64 \<Rightarrow> 'w \<Rightarrow> 'w"

text \<open>The calls that take or give back something, and the transfers.\<close>

datatype mini_call =
    N_alloc
  | N_malloc u64
  | N_export int
  | N_open string int
  | N_reg reg_buffer u64
  | N_mmap u64 u64
  | N_pwrite int u64 int
  | N_pread int u64 int
  | N_to_host words
  | N_unreg u64
  | N_munmap u64
  | N_close int
  | N_cuda_free u64
  | N_free

record 'w mini_state =
  mn_world :: 'w
  mn_calls :: "mini_call list"

definition step :: "('w \<Rightarrow> 'a \<times> 'w) \<Rightarrow> ('a \<Rightarrow> mini_call list) \<Rightarrow> ('w mini_state, 'a) prog" where
  "step f c = (\<lambda>s. case f (mn_world s) of (r, w) \<Rightarrow> Inr (r, \<lparr>mn_world = w, mn_calls = mn_calls s @ c r\<rparr>))"

definition act :: "('w \<Rightarrow> 'w) \<Rightarrow> mini_call list \<Rightarrow> ('w mini_state, unit) prog" where
  "act f c = step (\<lambda>w. ((), f w)) (\<lambda>_. c)"

lemma runs_to_step [simp]:
  "runs_to (step f c) s Q = (case f (mn_world s) of (r, w) \<Rightarrow> Q r \<lparr>mn_world = w, mn_calls = mn_calls s @ c r\<rparr>)"
  by (auto simp: runs_to_def step_def split: prod.splits)

lemma runs_to_act [simp]: "runs_to (act f c) s Q = Q () \<lparr>mn_world = f (mn_world s), mn_calls = mn_calls s @ c\<rparr>"
  by (simp add: act_def)

section \<open>The program\<close>

text \<open>The label \<open>cleanup\<close>: \<open>token\<close> is \<open>reg.idx\<close> if \<open>registered\<close>, \<open>mapping\<close> is \<open>map_addr\<close> if \<open>mapped\<close>.\<close>

definition minimal_cleanup ::
  "'w mini \<Rightarrow> int \<Rightarrow> int \<Rightarrow> int \<Rightarrow> u64 \<Rightarrow> u64 option \<Rightarrow> u64 option \<Rightarrow> int \<Rightarrow> ('w mini_state, int) prog" where
  "minimal_cleanup env devf dmabuf filef gpu_buf token mapping r =
     sq (case token of None \<Rightarrow> ret () | Some idx \<Rightarrow> sq (step (mn_unreg env devf idx) (\<lambda>_. [N_unreg idx])) (ret ())) (
     sq (case mapping of None \<Rightarrow> ret () | Some a \<Rightarrow> act (mn_munmap env a BUF_SIZE) [N_munmap a]) (
     sq (act (mn_close env devf) [N_close devf]) (
     sq (act (mn_close env dmabuf) [N_close dmabuf]) (
     sq (act (mn_close env filef) [N_close filef]) (
     sq (act (mn_free env gpu_buf) [N_cuda_free gpu_buf]) (
     sq (act (\<lambda>w. w) [N_free]) (
     ret r)))))))"

text \<open>Steps 5 to 8: the data file, the two transfers and the check.\<close>

definition minimal_transfer ::
  "'w mini \<Rightarrow> string \<Rightarrow> words \<Rightarrow> u64 \<Rightarrow> u64 \<Rightarrow> (int \<Rightarrow> int \<Rightarrow> ('w mini_state, int) prog) \<Rightarrow> ('w mini_state, int) prog" where
  "minimal_transfer env file_path file_buf gpu_buf map_addr leave =
     bnd (step (mn_open_file env file_path) (\<lambda>f. [N_open file_path f])) (\<lambda>file_fd. if file_fd < 0 then leave file_fd 1 else
     bnd (step (mn_pwrite env file_fd map_addr BUF_SIZE 0) (\<lambda>r. [N_pwrite file_fd map_addr r])) (\<lambda>r.
       if r \<noteq> int BUF_SIZE then leave file_fd 1 else
     sq (act (mn_memset env gpu_buf BUF_SIZE) []) (
     sq (act (mn_synchronize env) []) (
     bnd (step (mn_pread env file_fd map_addr BUF_SIZE 0) (\<lambda>r. [N_pread file_fd map_addr r])) (\<lambda>r.
       if r \<noteq> int BUF_SIZE then leave file_fd 1 else
     bnd (step (mn_to_host env file_buf gpu_buf BUF_SIZE) (\<lambda>b. [N_to_host b])) (\<lambda>file_buf.
       if \<not> check_pattern file_buf then leave file_fd 1 else leave file_fd 0))))))"

text \<open>Step 4: the device node, the registration and the mapping.\<close>

definition minimal_bind :: "'w mini \<Rightarrow> string \<Rightarrow> string \<Rightarrow> words \<Rightarrow> u64 \<Rightarrow> int \<Rightarrow> ('w mini_state, int) prog" where
  "minimal_bind env dev_path file_path file_buf gpu_buf dmabuf_fd =
     bnd (step (mn_open_dev env dev_path) (\<lambda>f. [N_open dev_path f])) (\<lambda>dev_fd.
       if dev_fd < 0 then minimal_cleanup env dev_fd dmabuf_fd (-1) gpu_buf None None 1 else
     let reg = \<lparr>rb_dmabuf_fd = dmabuf_fd, rb_offset = 0, rb_size = BUF_SIZE\<rparr> in
     bnd (step (mn_reg env dev_fd reg) (\<lambda>(r, idx). if r < 0 then [] else [N_reg reg idx])) (\<lambda>(r, idx).
       if r < 0 then minimal_cleanup env dev_fd dmabuf_fd (-1) gpu_buf None None 1 else
     bnd (step (mn_mmap env BUF_SIZE dev_fd idx) (\<lambda>m. case m of None \<Rightarrow> [] | Some a \<Rightarrow> [N_mmap idx a])) (\<lambda>m. case m of
       None \<Rightarrow> minimal_cleanup env dev_fd dmabuf_fd (-1) gpu_buf (Some idx) None 1
     | Some map_addr \<Rightarrow> minimal_transfer env file_path file_buf gpu_buf map_addr
         (\<lambda>file_fd. minimal_cleanup env dev_fd dmabuf_fd file_fd gpu_buf (Some idx) (Some map_addr)))))"

text \<open>\<open>main\<close>, given the arguments without the program's name: steps 1 to 3 and the rest.\<close>

definition minimal_main :: "'w mini \<Rightarrow> string list \<Rightarrow> ('w mini_state, int) prog" where
  "minimal_main env args = (case args of [gpu, file_path] \<Rightarrow>
     sq (act (mn_set_device env (atoi gpu)) []) (
     bnd (step (mn_bus_id env (atoi gpu)) (\<lambda>_. [])) (\<lambda>pci_bus_id.
     case fgds_dev_path_bdf 64 pci_bus_id of None \<Rightarrow> ret 1 | Some dev_path \<Rightarrow>
     bnd (step (mn_aligned_alloc env BUF_SIZE) (\<lambda>b. case b of None \<Rightarrow> [] | Some _ \<Rightarrow> [N_alloc])) (\<lambda>b.
     case b of None \<Rightarrow> ret 1 | Some b \<Rightarrow>
     let file_buf = fill_pattern b in
     bnd (step (mn_malloc env BUF_SIZE) (\<lambda>g. case g of None \<Rightarrow> [] | Some a \<Rightarrow> [N_malloc a])) (\<lambda>g.
     let gpu_buf = (case g of None \<Rightarrow> 0 | Some a \<Rightarrow> a) in
     sq (act (mn_to_device env gpu_buf file_buf BUF_SIZE) []) (
     sq (act (mn_synchronize env) []) (
     sq (act (mn_init env) []) (
     bnd (step (mn_export env gpu_buf BUF_SIZE) (\<lambda>e. case e of None \<Rightarrow> [] | Some f \<Rightarrow> [N_export f])) (\<lambda>e.
     minimal_bind env dev_path file_path file_buf gpu_buf (case e of None \<Rightarrow> -1 | Some f \<Rightarrow> f)))))))))
   | _ \<Rightarrow> ret 1)"

section \<open>What the program takes and gives back\<close>

text \<open>The descriptors opened and closed, the tokens, the mappings and the memory taken and given back.\<close>

definition fds_opened :: "mini_call list \<Rightarrow> int list" where
  "fds_opened cs = concat (map (\<lambda>c. case c of N_export f \<Rightarrow> if 0 \<le> f then [f] else [] | N_open _ f \<Rightarrow> if 0 \<le> f then [f] else [] | _ \<Rightarrow> []) cs)"

definition fds_closed :: "mini_call list \<Rightarrow> int list" where
  "fds_closed cs = concat (map (\<lambda>c. case c of N_close f \<Rightarrow> if 0 \<le> f then [f] else [] | _ \<Rightarrow> []) cs)"

definition takes :: "mini_call list \<Rightarrow> mini_call list" where
  "takes cs = concat (map (\<lambda>c. case c of N_reg _ idx \<Rightarrow> [N_unreg idx] | N_mmap _ a \<Rightarrow> [N_munmap a] | N_malloc g \<Rightarrow> if g = 0 then [] else [N_cuda_free g] |
     N_alloc \<Rightarrow> [N_free] | _ \<Rightarrow> []) cs)"

definition gives :: "mini_call list \<Rightarrow> mini_call list" where
  "gives cs = concat (map (\<lambda>c. case c of N_unreg idx \<Rightarrow> [c] | N_munmap a \<Rightarrow> [c] | N_cuda_free g \<Rightarrow> if g = 0 then [] else [c] |
     N_free \<Rightarrow> [c] | _ \<Rightarrow> []) cs)"

text \<open>Everything taken was given back once.\<close>

definition wound_down :: "mini_call list \<Rightarrow> bool" where
  "wound_down cs \<longleftrightarrow> mset (fds_opened cs) = mset (fds_closed cs) \<and> mset (takes cs) = mset (gives cs)"

lemma take_simps [simp]:
  "fds_opened (c @ c') = fds_opened c @ fds_opened c'" "fds_closed (c @ c') = fds_closed c @ fds_closed c'"
  "takes (c @ c') = takes c @ takes c'" "gives (c @ c') = gives c @ gives c'"
  by (simp_all add: fds_opened_def fds_closed_def takes_def gives_def)

lemmas take_defs = fds_opened_def fds_closed_def takes_def gives_def

definition cleanup_calls :: "int \<Rightarrow> int \<Rightarrow> int \<Rightarrow> u64 \<Rightarrow> u64 option \<Rightarrow> u64 option \<Rightarrow> mini_call list" where
  "cleanup_calls devf dmabuf filef g token mapping =
     (case token of None \<Rightarrow> [] | Some idx \<Rightarrow> [N_unreg idx]) @ (case mapping of None \<Rightarrow> [] | Some a \<Rightarrow> [N_munmap a]) @
     [N_close devf, N_close dmabuf, N_close filef, N_cuda_free g, N_free]"

definition cleanup_world :: "'w mini \<Rightarrow> int \<Rightarrow> int \<Rightarrow> int \<Rightarrow> u64 \<Rightarrow> u64 option \<Rightarrow> u64 option \<Rightarrow> 'w \<Rightarrow> 'w" where
  "cleanup_world env devf dmabuf filef g token mapping w =
     mn_free env g (mn_close env filef (mn_close env dmabuf (mn_close env devf (
       (case mapping of None \<Rightarrow> (\<lambda>w. w) | Some a \<Rightarrow> mn_munmap env a BUF_SIZE) (
       (case token of None \<Rightarrow> (\<lambda>w. w) | Some idx \<Rightarrow> (\<lambda>w. snd (mn_unreg env devf idx w))) w)))))"

lemma runs_to_cleanup: "runs_to (minimal_cleanup env devf dmabuf filef g token mapping r) s Q =
   Q r \<lparr>mn_world = cleanup_world env devf dmabuf filef g token mapping (mn_world s),
     mn_calls = mn_calls s @ cleanup_calls devf dmabuf filef g token mapping\<rparr>"
  by (simp add: minimal_cleanup_def cleanup_world_def cleanup_calls_def split: option.splits prod.splits)

text \<open>A run ends well when everything is given back and 0 stands for two full transfers and the pattern.\<close>

definition sound_end :: "int \<Rightarrow> mini_call list \<Rightarrow> bool" where
  "sound_end r cs \<longleftrightarrow> wound_down cs \<and> (if r = 0 then \<exists>f a b. N_pwrite f a (int BUF_SIZE) \<in> set cs \<and> N_pread f a (int BUF_SIZE) \<in> set cs \<and>
     N_to_host b \<in> set cs \<and> check_pattern b else r = 1)"

lemma transfer_sound:
  assumes "mset (fds_opened c) = mset (filter (\<lambda>f. 0 \<le> f) [d, e])" and "fds_closed c = []" and "gives c = []"
    and "mset (takes c) = mset (N_free # N_unreg idx # N_munmap a # (if g = 0 then [] else [N_cuda_free g]))"
  shows "runs_to (minimal_transfer env path buf g a (\<lambda>f. minimal_cleanup env d e f g (Some idx) (Some a)))
    \<lparr>mn_world = w, mn_calls = c\<rparr> (\<lambda>r t. sound_end r (mn_calls t))"
  using assms by (auto simp: minimal_transfer_def runs_to_cleanup sound_end_def wound_down_def take_simps cleanup_calls_def take_defs
     split: prod.splits)

lemma bind_sound:
  assumes "fds_opened c = filter (\<lambda>f. 0 \<le> f) [e]" and "fds_closed c = []" and "gives c = []"
    and "takes c = N_free # (if g = 0 then [] else [N_cuda_free g])"
  shows "runs_to (minimal_bind env dev_path path buf g e) \<lparr>mn_world = w, mn_calls = c\<rparr> (\<lambda>r t. sound_end r (mn_calls t))"
proof -
  have early: "sound_end 1 (c @ N_open dev_path d # cs @ cleanup_calls d e (- 1) g token None)"
    if "(cs, token) = ([], None) \<or> (\<exists>reg idx. (cs, token) = ([N_reg reg idx], Some idx))" for d cs token
    using assms that by (auto simp: sound_end_def wound_down_def cleanup_calls_def take_defs)
  have late: "runs_to (minimal_transfer env path buf g a (\<lambda>f. minimal_cleanup env d e f g (Some idx) (Some a)))
      \<lparr>mn_world = v, mn_calls = c @ [N_open dev_path d, N_reg reg idx, N_mmap idx a]\<rparr> (\<lambda>r t. sound_end r (mn_calls t))" for d reg idx a v
    by (rule transfer_sound) (use assms in \<open>simp_all add: take_defs\<close>)
  show ?thesis using early [of "[]" None] early [of "[N_reg _ _]"] late
    by (simp add: minimal_bind_def runs_to_cleanup Let_def split: prod.splits option.splits)
qed

text \<open>
  C39. The program cleans up and its verdict is sound. Whatever the driver, the CUDA runtime and the file system answer,
  \<open>main\<close> ends with 0 or 1; every descriptor it got is closed once, and the registration, the mapping, the GPU buffer and
  the host buffer it got are given back once. If it ends with 0, both transfers moved the whole buffer between one
  mapping and one file, and the buffer copied back from the GPU holds \<open>i\<close> in each word \<open>i\<close>.
\<close>

theorem minimal_sound:
  "runs_to (minimal_main env args) \<lparr>mn_world = w, mn_calls = []\<rparr> (\<lambda>r t.
    mset (fds_opened (mn_calls t)) = mset (fds_closed (mn_calls t)) \<and> mset (takes (mn_calls t)) = mset (gives (mn_calls t)) \<and>
    (if r = 0 then \<exists>f a b. N_pwrite f a (int BUF_SIZE) \<in> set (mn_calls t) \<and> N_pread f a (int BUF_SIZE) \<in> set (mn_calls t) \<and>
      N_to_host b \<in> set (mn_calls t) \<and> (\<forall>i<PATTERN_WORDS. b i = of_nat i) else r = 1))"
proof -
  have bind: "runs_to (minimal_bind env dev_path path buf (case g of None \<Rightarrow> 0 | Some a \<Rightarrow> a) (case e of None \<Rightarrow> - 1 | Some f \<Rightarrow> f))
      \<lparr>mn_world = v, mn_calls = N_alloc # (case g of None \<Rightarrow> [] | Some a \<Rightarrow> [N_malloc a]) @ (case e of None \<Rightarrow> [] | Some f \<Rightarrow> [N_export f])\<rparr>
      (\<lambda>r t. sound_end r (mn_calls t))" for dev_path path buf g e v
    by (rule bind_sound; cases g; cases e; simp add: take_defs)
  have "runs_to (minimal_main env args) \<lparr>mn_world = w, mn_calls = []\<rparr> (\<lambda>r t. sound_end r (mn_calls t))"
  proof (cases "\<exists>gpu path. args = [gpu, path]")
    case True
    have none_taken: "sound_end 1 []" by (simp add: sound_end_def wound_down_def take_defs)
    show ?thesis using True bind by (auto simp: minimal_main_def Let_def none_taken split: prod.splits option.splits)
  next
    case False
    then show ?thesis by (auto simp: minimal_main_def sound_end_def wound_down_def take_defs split: list.splits)
  qed
  then show ?thesis by (rule runs_to_mono) (auto simp: sound_end_def wound_down_def check_pattern_iff)
qed

text \<open>
  C40. The name of the device node is exact. For every PCI address, \<open>fgds_dev_path\<close> reads the name that CUDA prints for it and
  gives the node with the same four numbers; the 64 bytes of the buffer are enough, and two devices never share a node.
\<close>

theorem dev_path_exact:
  "fgds_dev_path_bdf 64 (bdf_name (d, b, v, f)) = Some (node_name (d, b, v, f)) \<and>
   (node_name (d, b, v, f) = node_name (d', b', v', f') \<longleftrightarrow> d = d' \<and> b = b' \<and> v = v' \<and> f = f')"
  using node_name_inj [of d b v f d' b' v' f'] node_name_length [of "(d, b, v, f)"]
  by (auto simp: fgds_dev_path_bdf_def scan_bdf_name)

section \<open>The round trip\<close>

text \<open>
  What can be seen of the environment: the words of a GPU buffer and of the file behind a descriptor (also once it is closed),
  the GPU buffer that a dma-buf descriptor, a token of the driver and a mapping stand for.
\<close>

record 'w view =
  v_gpu :: "'w \<Rightarrow> u64 \<Rightarrow> words"
  v_file :: "'w \<Rightarrow> int \<Rightarrow> words"
  v_export :: "'w \<Rightarrow> int \<Rightarrow> u64 \<Rightarrow> bool"
  v_token :: "'w \<Rightarrow> u64 \<Rightarrow> u64 \<Rightarrow> bool"
  v_map :: "'w \<Rightarrow> u64 \<Rightarrow> u64 \<Rightarrow> bool"

definition links_kept :: "'w view \<Rightarrow> 'w \<Rightarrow> 'w \<Rightarrow> bool" where
  "links_kept v w w' \<longleftrightarrow> (\<forall>d g. v_export v w d g \<longrightarrow> v_export v w' d g) \<and> (\<forall>d g. v_token v w d g \<longrightarrow> v_token v w' d g) \<and>
     (\<forall>d g. v_map v w d g \<longrightarrow> v_map v w' d g)"

definition same_view :: "'w view \<Rightarrow> 'w \<Rightarrow> 'w \<Rightarrow> bool" where
  "same_view v w w' \<longleftrightarrow> v_gpu v w' = v_gpu v w \<and> v_file v w' = v_file v w \<and> links_kept v w w'"

text \<open>The calls that prepare succeed and change nothing that can be seen.\<close>

definition prepares :: "'w mini \<Rightarrow> 'w view \<Rightarrow> bool" where
  "prepares env v \<longleftrightarrow> (\<forall>i w. \<exists>a w'. mn_bus_id env i w = (bdf_name a, w')) \<and> (\<forall>w. \<exists>b w'. mn_aligned_alloc env BUF_SIZE w = (Some b, w')) \<and>
     (\<forall>w. \<exists>g w'. mn_malloc env BUF_SIZE w = (Some g, w')) \<and> (\<forall>w. same_view v w (mn_synchronize env w)) \<and> (\<forall>w. same_view v w (mn_init env w)) \<and>
     (\<forall>p w. \<exists>f w'. mn_open_dev env p w = (f, w') \<and> 0 \<le> f \<and> same_view v w w')"

text \<open>
  The interface of the driver: an exported buffer can be registered, a registered one mapped, and the mapping is the memory
  of the GPU buffer for \<open>pwrite\<close> and \<open>pread\<close>. The calls of the cleanup keep the file.
\<close>

definition binds :: "'w mini \<Rightarrow> 'w view \<Rightarrow> bool" where
  "binds env v \<longleftrightarrow>
     (\<forall>g w. \<exists>d w'. mn_export env g BUF_SIZE w = (Some d, w') \<and> same_view v w w' \<and> v_export v w' d g) \<and>
     (\<forall>f d g w. v_export v w d g \<longrightarrow> (\<exists>r idx w'. mn_reg env f \<lparr>rb_dmabuf_fd = d, rb_offset = 0, rb_size = BUF_SIZE\<rparr> w = ((r, idx), w') \<and>
        0 \<le> r \<and> same_view v w w' \<and> v_token v w' idx g)) \<and>
     (\<forall>f idx g w. v_token v w idx g \<longrightarrow> (\<exists>a w'. mn_mmap env BUF_SIZE f idx w = (Some a, w') \<and> same_view v w w' \<and> v_map v w' a g))"

definition moves :: "'w mini \<Rightarrow> 'w view \<Rightarrow> bool" where
  "moves env v \<longleftrightarrow>
     (\<forall>g b w. \<forall>i<PATTERN_WORDS. v_gpu v (mn_to_device env g b BUF_SIZE w) g i = b i) \<and>
     (\<forall>p w. \<exists>f w'. mn_open_file env p w = (f, w') \<and> 0 \<le> f \<and> v_gpu v w' = v_gpu v w \<and> links_kept v w w') \<and>
     (\<forall>f a g w. v_map v w a g \<longrightarrow> (\<exists>w'. mn_pwrite env f a BUF_SIZE 0 w = (int BUF_SIZE, w') \<and>
        (\<forall>i<PATTERN_WORDS. v_file v w' f i = v_gpu v w g i) \<and> links_kept v w w')) \<and>
     (\<forall>g w. v_file v (mn_memset env g BUF_SIZE w) = v_file v w \<and> links_kept v w (mn_memset env g BUF_SIZE w)) \<and>
     (\<forall>f a g w. v_map v w a g \<longrightarrow> (\<exists>w'. mn_pread env f a BUF_SIZE 0 w = (int BUF_SIZE, w') \<and>
        (\<forall>i<PATTERN_WORDS. v_gpu v w' g i = v_file v w f i) \<and> v_file v w' = v_file v w)) \<and>
     (\<forall>b g w. \<exists>b' w'. mn_to_host env b g BUF_SIZE w = (b', w') \<and> (\<forall>i<PATTERN_WORDS. b' i = v_gpu v w g i) \<and> v_file v w' = v_file v w)"

definition keeps_file :: "'w mini \<Rightarrow> 'w view \<Rightarrow> bool" where
  "keeps_file env v \<longleftrightarrow> (\<forall>d idx w. v_file v (snd (mn_unreg env d idx w)) = v_file v w) \<and> (\<forall>a n w. v_file v (mn_munmap env a n w) = v_file v w) \<and>
     (\<forall>d w. v_file v (mn_close env d w) = v_file v w) \<and> (\<forall>g w. v_file v (mn_free env g w) = v_file v w)"

lemma preparesD:
  assumes "prepares env v"
  shows "\<forall>i w. \<exists>a w'. mn_bus_id env i w = (bdf_name a, w')"
    and "\<forall>w. \<exists>b w'. mn_aligned_alloc env BUF_SIZE w = (Some b, w')"
    and "\<forall>w. \<exists>g w'. mn_malloc env BUF_SIZE w = (Some g, w')"
    and "\<forall>w. same_view v w (mn_synchronize env w)"
    and "\<forall>w. same_view v w (mn_init env w)"
    and "\<forall>p w. \<exists>f w'. mn_open_dev env p w = (f, w') \<and> 0 \<le> f \<and> same_view v w w'"
  using assms unfolding prepares_def by - (elim conjE, assumption)+

lemma bindsD:
  assumes "binds env v"
  shows "\<forall>g w. \<exists>d w'. mn_export env g BUF_SIZE w = (Some d, w') \<and> same_view v w w' \<and> v_export v w' d g"
    and "\<forall>f d g w. v_export v w d g \<longrightarrow> (\<exists>r idx w'. mn_reg env f \<lparr>rb_dmabuf_fd = d, rb_offset = 0, rb_size = BUF_SIZE\<rparr> w = ((r, idx), w') \<and> 0 \<le> r \<and> same_view v w w' \<and> v_token v w' idx g)"
    and "\<forall>f idx g w. v_token v w idx g \<longrightarrow> (\<exists>a w'. mn_mmap env BUF_SIZE f idx w = (Some a, w') \<and> same_view v w w' \<and> v_map v w' a g)"
  using assms unfolding binds_def by - (elim conjE, assumption)+

lemma movesD:
  assumes "moves env v"
  shows "\<forall>g b w. \<forall>i<PATTERN_WORDS. v_gpu v (mn_to_device env g b BUF_SIZE w) g i = b i"
    and "\<forall>p w. \<exists>f w'. mn_open_file env p w = (f, w') \<and> 0 \<le> f \<and> v_gpu v w' = v_gpu v w \<and> links_kept v w w'"
    and "\<forall>f a g w. v_map v w a g \<longrightarrow> (\<exists>w'. mn_pwrite env f a BUF_SIZE 0 w = (int BUF_SIZE, w') \<and> (\<forall>i<PATTERN_WORDS. v_file v w' f i = v_gpu v w g i) \<and> links_kept v w w')"
    and "\<forall>g w. v_file v (mn_memset env g BUF_SIZE w) = v_file v w \<and> links_kept v w (mn_memset env g BUF_SIZE w)"
    and "\<forall>f a g w. v_map v w a g \<longrightarrow> (\<exists>w'. mn_pread env f a BUF_SIZE 0 w = (int BUF_SIZE, w') \<and> (\<forall>i<PATTERN_WORDS. v_gpu v w' g i = v_file v w f i) \<and> v_file v w' = v_file v w)"
    and "\<forall>b g w. \<exists>b' w'. mn_to_host env b g BUF_SIZE w = (b', w') \<and> (\<forall>i<PATTERN_WORDS. b' i = v_gpu v w g i) \<and> v_file v w' = v_file v w"
  using assms unfolding moves_def by - (elim conjE, assumption)+

lemma cleanup_keeps_file: "keeps_file env v \<Longrightarrow> v_file v (cleanup_world env d e f g token mapping w) = v_file v w"
  by (auto simp: keeps_file_def cleanup_world_def split: option.splits)

definition pattern :: "words \<Rightarrow> bool" where
  "pattern b \<longleftrightarrow> (\<forall>i<PATTERN_WORDS. b i = of_nat i)"

lemma transfer_round_trip:
  assumes M: "moves env v" and S: "\<forall>w. same_view v w (mn_synchronize env w)" and "v_map v w a g" and "pattern (v_gpu v w g)"
    and Q: "\<And>f w' c'. N_open path f \<in> set c' \<Longrightarrow> pattern (v_file v w' f) \<Longrightarrow> runs_to (K f 0) \<lparr>mn_world = w', mn_calls = c'\<rparr> Q"
  shows "runs_to (minimal_transfer env path buf g a K) \<lparr>mn_world = w, mn_calls = c\<rparr> Q"
proof -
  obtain f w1 where w1: "mn_open_file env path w = (f, w1)" "0 \<le> f" "v_gpu v w1 = v_gpu v w" "links_kept v w w1"
    using movesD(2) [OF M] by blast
  then have m: "v_map v w1 a g" using assms(3) by (simp add: links_kept_def)
  then obtain w2 where w2: "mn_pwrite env f a BUF_SIZE 0 w1 = (int BUF_SIZE, w2)" "\<forall>i<PATTERN_WORDS. v_file v w2 f i = v_gpu v w1 g i" "links_kept v w1 w2"
    using movesD(3) [OF M] by blast
  define w3 where "w3 = mn_synchronize env (mn_memset env g BUF_SIZE w2)"
  have "v_file v (mn_memset env g BUF_SIZE w2) = v_file v w2 \<and> links_kept v w2 (mn_memset env g BUF_SIZE w2)" using movesD(4) [OF M] by blast
  moreover have "same_view v (mn_memset env g BUF_SIZE w2) w3" unfolding w3_def using S by blast
  ultimately have w3: "v_file v w3 = v_file v w2" "v_map v w3 a g" using m w2(3) by (simp_all add: same_view_def links_kept_def)
  then obtain w4 where w4: "mn_pread env f a BUF_SIZE 0 w3 = (int BUF_SIZE, w4)" "\<forall>i<PATTERN_WORDS. v_gpu v w4 g i = v_file v w3 f i" "v_file v w4 = v_file v w3"
    using movesD(5) [OF M] by blast
  obtain b w5 where w5: "mn_to_host env buf g BUF_SIZE w4 = (b, w5)" "\<forall>i<PATTERN_WORDS. b i = v_gpu v w4 g i" "v_file v w5 = v_file v w4"
    using movesD(6) [OF M] by blast
  have "pattern (v_file v w5 f)" "check_pattern b"
    using assms(4) w1(3) w2(2) w3(1) w4(2,3) w5(2,3) by (simp_all add: pattern_def check_pattern_iff)
  then show ?thesis using w1(1,2) w2(1) w4(1) w5(1) Q
    by (simp add: minimal_transfer_def w3_def [symmetric])
qed

lemma bind_round_trip:
  assumes P: "prepares env v" and B: "binds env v" and M: "moves env v" and K: "keeps_file env v"
    and e: "v_export v w e g" and "pattern (v_gpu v w g)"
  shows "runs_to (minimal_bind env dev_path path buf g e) \<lparr>mn_world = w, mn_calls = c\<rparr>
    (\<lambda>r t. r = 0 \<and> (\<exists>f. N_open path f \<in> set (mn_calls t) \<and> pattern (v_file v (mn_world t) f)))"
proof -
  obtain d w1 where w1: "mn_open_dev env dev_path w = (d, w1)" "0 \<le> d" "same_view v w w1" using preparesD(6) [OF P] by blast
  then have "v_export v w1 e g" using e by (simp add: same_view_def links_kept_def)
  then obtain r idx w2 where w2: "mn_reg env d \<lparr>rb_dmabuf_fd = e, rb_offset = 0, rb_size = BUF_SIZE\<rparr> w1 = ((r, idx), w2)" "0 \<le> r"
      "same_view v w1 w2" "v_token v w2 idx g" using bindsD(2) [OF B] by blast
  then obtain a w3 where w3: "mn_mmap env BUF_SIZE d idx w2 = (Some a, w3)" "same_view v w2 w3" "v_map v w3 a g" using bindsD(3) [OF B] by blast
  have "pattern (v_gpu v w3 g)" using w1(3) w2(3) w3(2) assms(6) by (simp add: same_view_def)
  moreover have "\<forall>w. same_view v w (mn_synchronize env w)" using P by (simp add: prepares_def)
  ultimately show ?thesis using w1 w2 w3 unfolding minimal_bind_def
    by (auto simp: Let_def runs_to_cleanup cleanup_keeps_file [OF K] intro!: transfer_round_trip [OF M])
qed

text \<open>
  C38. The round trip succeeds. On a machine whose driver does what the program's description says of it (an exported
  buffer can be registered, the token mapped, and the mapping is the memory of the GPU buffer), \<open>main\<close> returns 0, and
  afterwards word \<open>i\<close> of the data file is \<open>i\<close>, for each of the 524288 words of the buffer.
\<close>

theorem minimal_round_trip:
  assumes "prepares env v" and "binds env v" and "moves env v" and "keeps_file env v"
  shows "runs_to (minimal_main env [gpu, path]) \<lparr>mn_world = w, mn_calls = []\<rparr>
    (\<lambda>r t. r = 0 \<and> (\<exists>f. N_open path f \<in> set (mn_calls t) \<and> (\<forall>i<PATTERN_WORDS. v_file v (mn_world t) f i = of_nat i)))"
proof -
  note P = preparesD [OF assms(1)]
  obtain a w1 where w1: "mn_bus_id env (atoi gpu) (mn_set_device env (atoi gpu) w) = (bdf_name a, w1)" using P(1) by blast
  obtain b w2 where w2: "mn_aligned_alloc env BUF_SIZE w1 = (Some b, w2)" using P(2) by blast
  obtain g w3 where w3: "mn_malloc env BUF_SIZE w2 = (Some g, w3)" using P(3) by blast
  define w4 where "w4 = mn_init env (mn_synchronize env (mn_to_device env g (fill_pattern b) BUF_SIZE w3))"
  have "same_view v (mn_to_device env g (fill_pattern b) BUF_SIZE w3) (mn_synchronize env (mn_to_device env g (fill_pattern b) BUF_SIZE w3))"
    "same_view v (mn_synchronize env (mn_to_device env g (fill_pattern b) BUF_SIZE w3)) w4" unfolding w4_def using P(4,5) by blast+
  moreover have "\<forall>i<PATTERN_WORDS. v_gpu v (mn_to_device env g (fill_pattern b) BUF_SIZE w3) g i = fill_pattern b i"
    using movesD(1) [OF assms(3)] by blast
  ultimately have w4: "pattern (v_gpu v w4 g)" by (simp add: same_view_def pattern_def fill_pattern_eq)
  obtain e w5 where w5: "mn_export env g BUF_SIZE w4 = (Some e, w5)" "same_view v w4 w5" "v_export v w5 e g"
    using bindsD(1) [OF assms(2)] by blast
  have "pattern (v_gpu v w5 g)" using w4 w5(2) by (simp add: same_view_def)
  from bind_round_trip [OF assms w5(3) this] show ?thesis using w1 w2 w3 w5(1)
    by (simp add: minimal_main_def fgds_dev_path_bdf_def scan_bdf_name Let_def w4_def [symmetric] pattern_def)
qed

section \<open>A machine for the example\<close>

text \<open>A world with one GPU buffer and one file.\<close>

type_synonym tiny = "words \<times> words"

definition tiny_env :: "tiny mini" where
  "tiny_env = \<lparr>mn_set_device = \<lambda>_ w. w, mn_bus_id = \<lambda>_ w. (''0000:1e:00.0'', w), mn_aligned_alloc = \<lambda>_ w. (Some (\<lambda>_. 0), w),
     mn_malloc = \<lambda>_ w. (Some 0x7f1000000000, w), mn_to_device = \<lambda>g b n (gpu, file). (b, file), mn_synchronize = \<lambda>w. w, mn_init = \<lambda>w. w,
     mn_export = \<lambda>g n w. (Some 7, w), mn_open_dev = \<lambda>p w. (3, w),
     mn_reg = \<lambda>f r w. if rb_dmabuf_fd r = 7 then ((0, 42), w) else ((-1, 0), w),
     mn_mmap = \<lambda>n f idx w. if idx = 42 then (Some 0x7f0000000000, w) else (None, w), mn_open_file = \<lambda>p (gpu, file). (4, (gpu, \<lambda>_. 0)),
     mn_pwrite = \<lambda>f a n off (gpu, file). if a = 0x7f0000000000 then (int n, (gpu, gpu)) else (-1, (gpu, file)),
     mn_memset = \<lambda>g n (gpu, file). (\<lambda>_. 0, file),
     mn_pread = \<lambda>f a n off (gpu, file). if a = 0x7f0000000000 then (int n, (file, file)) else (-1, (gpu, file)),
     mn_to_host = \<lambda>b g n (gpu, file). (gpu, (gpu, file)), mn_unreg = \<lambda>d idx w. (0, w), mn_munmap = \<lambda>a n w. w, mn_close = \<lambda>d w. w,
     mn_free = \<lambda>g w. w\<rparr>"

definition tiny_view :: "tiny view" where
  "tiny_view = \<lparr>v_gpu = \<lambda>w g. fst w, v_file = \<lambda>w f. snd w, v_export = \<lambda>w d g. d = 7, v_token = \<lambda>w idx g. idx = 42,
     v_map = \<lambda>w a g. a = 0x7f0000000000\<rparr>"

lemma tiny_laws: "prepares tiny_env tiny_view" "binds tiny_env tiny_view" "moves tiny_env tiny_view" "keeps_file tiny_env tiny_view"
proof -
  have hex: "hex_string 0 = ''0''" "hex_string 30 = ''1e''" by code_simp+
  have "print_hex 4 0 = ''0000''" "print_hex 2 0x1e = ''1e''" "print_hex 2 0 = ''00''" "print_hex 1 0 = ''0''"
    by (simp_all add: print_hex_def hex) (simp_all add: eval_nat_numeral)
  then have name: "\<exists>a. ''0000:1e:00.0'' = bdf_name a" by (intro exI [of _ "(0, 0x1e, 0, 0)"]) (simp add: bdf_name_def)
  show "prepares tiny_env tiny_view" using name by (simp add: prepares_def tiny_env_def tiny_view_def same_view_def links_kept_def)
qed (auto simp: binds_def moves_def keeps_file_def tiny_env_def tiny_view_def same_view_def links_kept_def)

theorem minimal_round_trip_witness:
  "runs_to (minimal_main tiny_env [''0'', ''/data/x'']) \<lparr>mn_world = (\<lambda>_. 0, \<lambda>_. 0), mn_calls = []\<rparr>
    (\<lambda>r t. r = 0 \<and> snd (mn_world t) 524287 = 524287)"
  by (rule runs_to_mono [OF minimal_round_trip [OF tiny_laws]]) (auto simp: tiny_view_def dest!: spec [of _ 524287])

theorem minimal_sound_witness:
  "runs_to (minimal_main tiny_env [''0'', ''/data/x'']) \<lparr>mn_world = (\<lambda>_. 0, \<lambda>_. 0), mn_calls = []\<rparr>
    (\<lambda>r t. mset (fds_opened (mn_calls t)) = mset (fds_closed (mn_calls t)) \<and> (r = 0 \<or> r = 1))"
  by (rule runs_to_mono [OF minimal_sound]) (auto split: if_splits)

end
