(* ===== verification/Fgds_Refine.thy ===== *)
theory Fgds_Refine
  imports Fgds_Registry
begin

text \<open>
  The registry of a device as an abstract data type. An abstract registry is a list of the buffers registered, most
  recent first; registering adds one in front, deregistering takes exactly that one out, and a search returns the first
  that covers the range. The pointer operations of libfgds/fgds.cc refine it: on any sequence of commands that the
  abstract registry allows they return the same results and end in a state that represents the same list. The
  simulation is proved from the laws of \<open>node_registry\<close> and holds for the code through its interpretation.
\<close>

datatype reg_cmd = Find u64 u64 | Insert nat fgds_mmap_node | Delete nat fgds_mmap_node

datatype reg_res = Found "nat option" | Status int

section \<open>The abstract registry\<close>

type_synonym registry = "(nat \<times> fgds_mmap_node) list"

fun abs_step :: "reg_cmd \<Rightarrow> registry \<Rightarrow> reg_res \<times> registry" where
  "abs_step (Find a l) A = (Found (map_option fst (List.find (node_covers a l \<circ> snd) A)), A)"
| "abs_step (Insert p n) A = (Status 0, (p, n) # A)"
| "abs_step (Delete p n) A = (Status 0, filter (\<lambda>e. fst e \<noteq> p) A)"

fun abs_run :: "reg_cmd list \<Rightarrow> registry \<Rightarrow> reg_res list \<times> registry" where
  "abs_run [] A = ([], A)"
| "abs_run (c # cs) A = (let (r, B) = abs_step c A; (rs, C) = abs_run cs B in (r # rs, C))"

text \<open>
  What a client must respect: a buffer is registered once and at an address that no registered buffer starts at, and
  only a registered buffer is deregistered.
\<close>

fun allowed :: "reg_cmd \<Rightarrow> registry \<Rightarrow> bool" where
  "allowed (Find a l) A = True"
| "allowed (Insert p n) A = (p \<notin> fst ` set A \<and> gpu_addr n \<notin> (gpu_addr \<circ> snd) ` set A)"
| "allowed (Delete p n) A = ((p, n) \<in> set A)"

fun allowed_run :: "reg_cmd list \<Rightarrow> registry \<Rightarrow> bool" where
  "allowed_run [] A = True"
| "allowed_run (c # cs) A = (allowed c A \<and> allowed_run cs (snd (abs_step c A)))"

section \<open>The simulation\<close>

text \<open>Running commands on three given operations.\<close>

fun reg_exec :: "(int \<Rightarrow> u64 \<Rightarrow> u64 \<Rightarrow> ('s, nat option) prog) \<Rightarrow> (int \<Rightarrow> nat option \<Rightarrow> ('s, int) prog) \<Rightarrow>
    (int \<Rightarrow> nat \<Rightarrow> ('s, int) prog) \<Rightarrow> int \<Rightarrow> reg_cmd \<Rightarrow> ('s, reg_res) prog" where
  "reg_exec f i x d (Find a l) = bnd (f d a l) (\<lambda>r. ret (Found r))"
| "reg_exec f i x d (Insert p n) = bnd (i d (Some p)) (\<lambda>r. ret (Status r))"
| "reg_exec f i x d (Delete p n) = bnd (x d p) (\<lambda>r. ret (Status r))"

fun reg_run :: "(int \<Rightarrow> u64 \<Rightarrow> u64 \<Rightarrow> ('s, nat option) prog) \<Rightarrow> (int \<Rightarrow> nat option \<Rightarrow> ('s, int) prog) \<Rightarrow>
    (int \<Rightarrow> nat \<Rightarrow> ('s, int) prog) \<Rightarrow> int \<Rightarrow> reg_cmd list \<Rightarrow> ('s, reg_res list) prog" where
  "reg_run f i x d [] = ret []"
| "reg_run f i x d (c # cs) = bnd (reg_exec f i x d c) (\<lambda>r. bnd (reg_run f i x d cs) (\<lambda>rs. ret (r # rs)))"

context node_registry
begin

text \<open>
  The state represents \<open>A\<close> as the registry of \<open>d\<close>; every node that the commands will register is allocated and in no
  other device's registry.
\<close>

definition sim :: "int \<Rightarrow> (nat \<times> fgds_mmap_node) set \<Rightarrow> 's \<Rightarrow> registry \<Rightarrow> bool" where
  "sim d N s A \<longleftrightarrow> inv s \<and> ready s d \<and> entries s d = A \<and> distinct (map (gpu_addr \<circ> snd) A) \<and>
     (\<forall>p n. (p, n) \<in> N \<longrightarrow> holds s p n \<and> (\<forall>e. dev e \<longrightarrow> e \<noteq> d \<longrightarrow> p \<notin> fst ` set (entries s e)))"

lemma sim_step:
  assumes "sim d N s A" and "allowed c A" and "\<forall>p n. c = Insert p n \<longrightarrow> (p, n) \<in> N"
  shows "runs_to (reg_exec find_op insert_op delete_op d c) s (\<lambda>r t. r = fst (abs_step c A) \<and> sim d N t (snd (abs_step c A)))"
proof (cases c)
  case (Find a l)
  have "find_op d a l s = Inr (map_option fst (List.find (node_covers a l \<circ> snd) A), s)"
    using assms(1) find_law [of s d a l] ready_dev by (auto simp: sim_def)
  then show ?thesis using assms(1) Find by (simp add: runs_to_def run_simps)
next
  case (Insert p n)
  have N: "(p, n) \<in> N" using assms(3) Insert by blast
  have s: "inv s" "ready s d" "holds s p n" using assms(1) N by (auto simp: sim_def)
  have "p \<notin> fst ` set (entries s d)" "\<forall>e. dev e \<longrightarrow> e \<noteq> d \<longrightarrow> p \<notin> fst ` set (entries s e)"
    using assms(1,2) N Insert unfolding sim_def by (simp, blast)
  then have "\<forall>e. dev e \<longrightarrow> p \<notin> fst ` set (entries s e)" by blast
  from insert_law [OF s this] show ?thesis unfolding Insert reg_exec.simps runs_to_bnd runs_to_ret
    by (rule runs_to_mono) (use assms(1,2) Insert in \<open>fastforce simp: sim_def\<close>)
next
  case (Delete p n)
  have "inv s" "ready s d" "(p, n) \<in> set (entries s d)" "distinct (map (gpu_addr \<circ> snd) (entries s d))"
    using assms(1,2) Delete by (auto simp: sim_def)
  note ex = runs_to_conj [OF delete_exact [OF this] delete_law [OF this(1-3)]]
  have "distinct (map (gpu_addr \<circ> snd) (filter (\<lambda>e. fst e \<noteq> p) A))" using assms(1) by (simp add: sim_def distinct_map_filter)
  with ex show ?thesis unfolding Delete reg_exec.simps runs_to_bnd runs_to_ret
    by (elim runs_to_mono) (use assms(1) in \<open>fastforce simp: sim_def\<close>)
qed

lemma simulation:
  assumes "sim d N s A" and "allowed_run cs A" and "\<forall>p n. Insert p n \<in> set cs \<longrightarrow> (p, n) \<in> N"
  shows "runs_to (reg_run find_op insert_op delete_op d cs) s (\<lambda>rs t. rs = fst (abs_run cs A) \<and> sim d N t (snd (abs_run cs A)))"
  using assms
proof (induction cs arbitrary: s A)
  case (Cons c cs)
  have "runs_to (reg_exec find_op insert_op delete_op d c) s (\<lambda>r t. r = fst (abs_step c A) \<and> sim d N t (snd (abs_step c A)))"
    using Cons.prems by (intro sim_step) auto
  then show ?case unfolding reg_run.simps runs_to_bnd runs_to_ret
  proof (rule runs_to_mono, elim conjE)
    fix r t
    assume r: "r = fst (abs_step c A)" and "sim d N t (snd (abs_step c A))"
    then have "runs_to (reg_run find_op insert_op delete_op d cs) t (\<lambda>rs u. rs = fst (abs_run cs (snd (abs_step c A))) \<and>
        sim d N u (snd (abs_run cs (snd (abs_step c A)))))"
      using Cons.prems by (intro Cons.IH) auto
    then show "runs_to (reg_run find_op insert_op delete_op d cs) t (\<lambda>rs u. r # rs = fst (abs_run (c # cs) A) \<and>
        sim d N u (snd (abs_run (c # cs) A)))"
      by (rule runs_to_mono) (simp add: r Let_def case_prod_unfold)
  qed
qed simp

end

section \<open>Property\<close>

text \<open>
  C11. The pointer operations implement the abstract registry. For every sequence of searches, registrations and
  deregistrations on a device that the abstract registry allows, the operations of the library return exactly the results
  of the abstract registry, never fault, and end in a well-formed state that represents the same list of buffers.
\<close>

theorem registry_refines:
  assumes "reg_inv s" and "reg_ready s d" and "distinct (map (gpu_addr \<circ> snd) (reg_entries s d))"
    and "allowed_run cs (reg_entries s d)"
    and "\<forall>p n. Insert p n \<in> set cs \<longrightarrow> holds_node s p n \<and> (\<forall>e. valid_dev e \<longrightarrow> e \<noteq> d \<longrightarrow> p \<notin> fst ` set (reg_entries s e))"
  shows "runs_to (reg_run find_fgds_mmap_node insert_fgds_mmap_node delete_fgds_mmap_node d cs) s (\<lambda>rs t.
    (rs, reg_entries t d) = abs_run cs (reg_entries s d) \<and> reg_inv t)"
proof -
  let ?N = "{(p, n). Insert p n \<in> set cs}"
  have "reg.sim d ?N s (reg_entries s d)" using assms(1-3,5) unfolding reg.sim_def by auto
  then have "runs_to (reg_run find_fgds_mmap_node insert_fgds_mmap_node delete_fgds_mmap_node d cs) s (\<lambda>rs t.
      rs = fst (abs_run cs (reg_entries s d)) \<and> reg.sim d ?N t (snd (abs_run cs (reg_entries s d))))"
    by (rule reg.simulation) (use assms(4) in auto)
  then show ?thesis by (rule runs_to_mono) (auto simp: reg.sim_def prod_eq_iff)
qed

text \<open>A search, a deregistration and a search in a registry with one buffer of 2 GB.\<close>

theorem registry_refines_witness:
  "runs_to (reg_run find_fgds_mmap_node insert_fgds_mmap_node delete_fgds_mmap_node 0
      [Find 0x10000000 0x1000, Delete 0 two_gb_node, Find 0x10000000 0x1000]) two_gb_lib
    (\<lambda>rs t. rs = [Found (Some 0), Status 0, Found None] \<and> reg_entries t 0 = [])"
proof -
  have "abs_run [Find 0x10000000 0x1000, Delete 0 two_gb_node, Find 0x10000000 0x1000] (reg_entries two_gb_lib 0) =
      ([Found (Some 0), Status 0, Found None], [])"
    by (simp add: two_gb_reg(2) node_covers_def two_gb_node_def)
  moreover have "reg_ready two_gb_lib 0" by (simp add: reg_ready_def two_gb_lib_def lib_init_def ctx_init_def)
  ultimately show ?thesis
    by (intro runs_to_mono [OF registry_refines [OF two_gb_reg(1)]]) (simp_all add: two_gb_reg(2))
qed

end
