(* ===== verification/Kmod_Pdevinfo.thy ===== *)
theory Kmod_Pdevinfo
  imports Fgds_Prelude
begin

unbundle bit_operations_syntax

text \<open>
  The packed PCI device descriptor of the kernel module (module/nvfs-pci.h): domain, bus and devfn of
  a device in one 64 bit word, with flags and link attributes in bits 16 to 31.

  The structs of the Linux PCI core are records with the fields the code reads. The numbers of the
  device classes, link speeds and link widths are those of linux/pci_ids.h and linux/pci.h.
\<close>

section \<open>PCI devices\<close>

record pci_bus =
  domain_nr :: u32
  bus_number :: u8

record pci_dev =
  pbus :: "pci_bus option"
  devfn :: u32
  pclass :: u32
  vendor :: u16

abbreviation PCI_VENDOR_ID_NVIDIA :: u16 where "PCI_VENDOR_ID_NVIDIA \<equiv> 0x10de"
abbreviation PCI_CLASS_DISPLAY_VGA :: u32 where "PCI_CLASS_DISPLAY_VGA \<equiv> 0x0300"
abbreviation PCI_CLASS_DISPLAY_3D :: u32 where "PCI_CLASS_DISPLAY_3D \<equiv> 0x0302"
abbreviation PCI_CLASS_NETWORK_ETHERNET :: u32 where "PCI_CLASS_NETWORK_ETHERNET \<equiv> 0x0200"
abbreviation PCI_CLASS_NETWORK_INFINIBAND :: u32 where "PCI_CLASS_NETWORK_INFINIBAND \<equiv> 0x207"
abbreviation PCI_CLASS_STORAGE_EXPRESS :: u32 where "PCI_CLASS_STORAGE_EXPRESS \<equiv> 0x010802"
abbreviation PCI_CLASS_BRIDGE_PCI :: u32 where "PCI_CLASS_BRIDGE_PCI \<equiv> 0x0604"

definition PCI_DEVID :: "u32 \<Rightarrow> u32 \<Rightarrow> u32" where
  "PCI_DEVID b f = push_bit 8 (ucast (ucast b :: u16)) OR f"

definition PCI_DEV_GPU :: "u32 \<Rightarrow> u16 \<Rightarrow> bool" where
  "PCI_DEV_GPU c v \<longleftrightarrow> v = PCI_VENDOR_ID_NVIDIA \<and> (c = PCI_CLASS_DISPLAY_VGA \<or> c = PCI_CLASS_DISPLAY_3D)"

definition PCI_DEV_IB :: "u32 \<Rightarrow> bool" where
  "PCI_DEV_IB c \<longleftrightarrow> c = PCI_CLASS_NETWORK_ETHERNET \<or> c = PCI_CLASS_NETWORK_INFINIBAND"

definition PCI_DEV_NVME :: "u32 \<Rightarrow> bool" where
  "PCI_DEV_NVME c \<longleftrightarrow> c = PCI_CLASS_STORAGE_EXPRESS"

section \<open>Packing\<close>

abbreviation NVFS_PDEVINFO_ACS_CHECK_BIT :: nat where "NVFS_PDEVINFO_ACS_CHECK_BIT \<equiv> 16"
abbreviation NVFS_PDEVINFO_NVME_CHECK_BIT :: nat where "NVFS_PDEVINFO_NVME_CHECK_BIT \<equiv> 17"
abbreviation NVFS_PDEVINFO_NET_CHECK_BIT :: nat where "NVFS_PDEVINFO_NET_CHECK_BIT \<equiv> 18"
abbreviation NVFS_PDEVINFO_LNKSPEED_BIT :: nat where "NVFS_PDEVINFO_LNKSPEED_BIT \<equiv> 24"
abbreviation NVFS_PDEVINFO_LNKWIDTH_BIT :: nat where "NVFS_PDEVINFO_LNKWIDTH_BIT \<equiv> 28"
abbreviation NVFS_PDEVINFO_INFO_MASK :: u64 where "NVFS_PDEVINFO_INFO_MASK \<equiv> NOT 0xFFFF0000"

definition nvfs_pdevinfo :: "pci_dev \<Rightarrow> u64" where
  "nvfs_pdevinfo pdev = (case pbus pdev of
     Some b \<Rightarrow> push_bit 32 (0 OR ucast (domain_nr b)) OR ucast (PCI_DEVID (ucast (bus_number b)) (devfn pdev))
   | None \<Rightarrow> 0 OR ucast (PCI_DEVID 0 (devfn pdev)))"

text \<open>The arguments are \<open>int\<close>; or-ing an \<open>int\<close> into the 64 bit word extends its sign.\<close>

definition nvfs_bdf2pdevinfo :: "u32 \<Rightarrow> u32 \<Rightarrow> u32 \<Rightarrow> u32 \<Rightarrow> u64" where
  "nvfs_bdf2pdevinfo domn bus dev func =
     (push_bit 32 (0 OR ucast domn) OR scast (push_bit 8 bus)) OR scast (push_bit 3 dev OR func)"

definition nvfs_pdevinfo_set_acs :: "u64 \<Rightarrow> u64" where
  "nvfs_pdevinfo_set_acs p = p OR push_bit NVFS_PDEVINFO_ACS_CHECK_BIT 1"

definition nvfs_pdevinfo_get_acs :: "u64 \<Rightarrow> bool" where
  "nvfs_pdevinfo_get_acs p \<longleftrightarrow> p AND push_bit NVFS_PDEVINFO_ACS_CHECK_BIT 1 \<noteq> 0"

definition nvfs_pdevinfo_set_class :: "u64 \<Rightarrow> u32 \<Rightarrow> u64" where
  "nvfs_pdevinfo_set_class p dev_class =
     (if PCI_DEV_IB (drop_bit 8 dev_class) then p OR push_bit NVFS_PDEVINFO_NET_CHECK_BIT 1
      else if PCI_DEV_NVME dev_class then p OR push_bit NVFS_PDEVINFO_NVME_CHECK_BIT 1
      else p)"

definition nvfs_pdevinfo_get_class_name :: "u64 \<Rightarrow> string" where
  "nvfs_pdevinfo_get_class_name p =
     (if p AND push_bit NVFS_PDEVINFO_NET_CHECK_BIT 1 \<noteq> 0 then ''network''
      else if p AND push_bit NVFS_PDEVINFO_NVME_CHECK_BIT 1 \<noteq> 0 then ''nvme''
      else ''x'')"

text \<open>
  The tables of link speeds and widths. The entry for 32 GT/s is compiled in when the kernel has
  it; without it the initialiser has 15 entries and the last one of the array is 0.
\<close>

definition nvfs_pcie_link_speed_table :: "bool \<Rightarrow> u8 list" where
  "nvfs_pcie_link_speed_table have_32gt =
     [0xff, 0x14, 0x15, 0x16, 0x17] @ (if have_32gt then [0x18] else []) @ replicate 10 0xff @
     (if have_32gt then [] else [0])"

definition nvfs_pcie_link_width_table :: "u8 list" where
  "nvfs_pcie_link_width_table = [0, 1, 2, 4, 8, 12, 16, 32] @ replicate 8 0xff"

text \<open>The search of the setters: the index of the first entry that matches, in \<open>[i..<16]\<close>.\<close>

fun link_index :: "u8 list \<Rightarrow> u32 \<Rightarrow> nat \<Rightarrow> nat option" where
  "link_index [] v i = None"
| "link_index (x # xs) v i = (if v = ucast x then Some i else link_index xs v (Suc i))"

definition nvfs_pdevinfo_set_link_speed :: "bool \<Rightarrow> u64 \<Rightarrow> u32 \<Rightarrow> u64" where
  "nvfs_pdevinfo_set_link_speed have_32gt p link_speed =
     (case link_index (nvfs_pcie_link_speed_table have_32gt) link_speed 0 of
        None \<Rightarrow> p
      | Some i \<Rightarrow> p OR push_bit (NVFS_PDEVINFO_LNKSPEED_BIT - 1) (of_nat i))"

definition nvfs_pdevinfo_get_link_speed :: "u64 \<Rightarrow> u32" where
  "nvfs_pdevinfo_get_link_speed p = drop_bit (NVFS_PDEVINFO_LNKSPEED_BIT - 1) (ucast p) AND 0x0f"

definition nvfs_pdevinfo_set_link_width :: "u64 \<Rightarrow> u32 \<Rightarrow> u64" where
  "nvfs_pdevinfo_set_link_width p link_width =
     (case link_index nvfs_pcie_link_width_table link_width 0 of
        None \<Rightarrow> p
      | Some i \<Rightarrow> p OR push_bit (NVFS_PDEVINFO_LNKWIDTH_BIT - 1) (of_nat i))"

definition nvfs_pdevinfo_get_link_width :: "u64 \<Rightarrow> u32" where
  "nvfs_pdevinfo_get_link_width p =
     ucast (nvfs_pcie_link_width_table ! unat (drop_bit (NVFS_PDEVINFO_LNKWIDTH_BIT - 1) (ucast p :: u32) AND 0x0f))"

text \<open>
  The device of a descriptor. \<open>get_slot\<close> is the kernel's \<open>pci_get_domain_bus_and_slot\<close>, \<open>node_of\<close> its
  \<open>pcibus_to_node\<close>.
\<close>

definition pdevinfo_addr :: "u64 \<Rightarrow> u32 \<times> u32 \<times> u32" where
  "pdevinfo_addr p = (let q = p AND NVFS_PDEVINFO_INFO_MASK in
     (ucast (drop_bit 32 q), drop_bit 8 (ucast q), ucast (ucast q :: u8) AND 0xFF))"

definition nvfs_get_pdev_from_pdevinfo :: "(u32 \<Rightarrow> u32 \<Rightarrow> u32 \<Rightarrow> 'd option) \<Rightarrow> u64 \<Rightarrow> 'd option" where
  "nvfs_get_pdev_from_pdevinfo get_slot p = (case pdevinfo_addr p of (domain, bus, fn) \<Rightarrow> get_slot domain bus fn)"

definition nvfs_get_numa_node_from_pdevinfo ::
    "(u32 \<Rightarrow> u32 \<Rightarrow> u32 \<Rightarrow> 'd option) \<Rightarrow> ('d \<Rightarrow> int) \<Rightarrow> u64 \<Rightarrow> int" where
  "nvfs_get_numa_node_from_pdevinfo get_slot node_of p = (case nvfs_get_pdev_from_pdevinfo get_slot p of
     Some pdev \<Rightarrow> node_of pdev
   | None \<Rightarrow> -1)"

section \<open>Bits of a descriptor\<close>

lemma mask_numerals:
  "(0xFFFF0000 :: u64) = push_bit 16 (mask 16)" "(0x0f :: u32) = mask 4" "(0xFF :: u32) = mask 8"
  by (simp_all add: mask_eq_exp_minus_1)

lemma bit_devfn: "f < 256 \<Longrightarrow> bit f k \<Longrightarrow> k < 8" for f :: u32
proof -
  assume "f < 256"
  then have "f = take_bit 8 f"
    by (simp add: word_unat_eq_iff unsigned_take_bit_eq take_bit_eq_mod word_less_nat_alt unat_mod)
  then show "bit f k \<Longrightarrow> k < 8" by (metis bit_take_bit_iff)
qed

lemma bit_pdevinfo:
  assumes "pbus pdev = Some b" and "devfn pdev < 256"
  shows "bit (nvfs_pdevinfo pdev) i \<longleftrightarrow>
    (if i < 8 then bit (devfn pdev) i else if i < 16 then bit (bus_number b) (i - 8) else 32 \<le> i \<and> bit (domain_nr b) (i - 32))"
proof -
  have fn: "\<not> bit (devfn pdev) k" if "8 \<le> k" for k
    using that bit_devfn [OF assms(2)] by fastforce
  have "bit (nvfs_pdevinfo pdev) i \<longleftrightarrow>
      (32 \<le> i \<and> i < 64 \<and> bit (domain_nr b) (i - 32)) \<or>
      (i < 32 \<and> ((8 \<le> i \<and> i < 16 \<and> bit (bus_number b) (i - 8)) \<or> bit (devfn pdev) i))"
    using assms(1) bit_imp_le_length [of "domain_nr b" "i - 32"] bit_imp_le_length [of "bus_number b" "i - 8"]
      bit_imp_le_length [of "devfn pdev" i]
    by (auto simp: nvfs_pdevinfo_def PCI_DEVID_def bit_simps)
  then show ?thesis using fn [of i] bit_imp_le_length [of "domain_nr b" "i - 32"] by auto
qed

text \<open>What the setters add to a descriptor \<open>p\<close>: the ACS bit, a class bit and two nibbles.\<close>

definition class_bits :: "u32 \<Rightarrow> u64" where
  "class_bits c = nvfs_pdevinfo_set_class 0 c"

definition annotated :: "u64 \<Rightarrow> u32 \<Rightarrow> nat \<Rightarrow> nat \<Rightarrow> u64" where
  "annotated p c i j = ((p OR push_bit 16 1) OR class_bits c) OR push_bit 23 (of_nat i) OR push_bit 27 (of_nat j)"

lemma bit_flags:
  "bit (65536 :: int) n \<longleftrightarrow> n = 16" "bit (131072 :: int) n \<longleftrightarrow> n = 17" "bit (262144 :: int) n \<longleftrightarrow> n = 18"
  "bit (65536 :: nat) n \<longleftrightarrow> n = 16" "bit (131072 :: nat) n \<longleftrightarrow> n = 17" "bit (262144 :: nat) n \<longleftrightarrow> n = 18"
  using bit_exp_iff [of 16 n, where 'a = int] bit_exp_iff [of 17 n, where 'a = int] bit_exp_iff [of 18 n, where 'a = int]
    bit_exp_iff [of 16 n, where 'a = nat] bit_exp_iff [of 17 n, where 'a = nat] bit_exp_iff [of 18 n, where 'a = nat] by auto

lemma bit_class_bits: "bit (class_bits c) n \<longleftrightarrow>
    (n = 18 \<and> PCI_DEV_IB (drop_bit 8 c)) \<or> (n = 17 \<and> \<not> PCI_DEV_IB (drop_bit 8 c) \<and> PCI_DEV_NVME c)"
  by (auto simp: class_bits_def nvfs_pdevinfo_set_class_def bit_simps bit_flags)

lemma bit_nibble: "i < 16 \<Longrightarrow> bit i n \<Longrightarrow> n < 4" for i :: nat
proof -
  assume "i < 16"
  then have "take_bit 4 i = i" by (simp add: take_bit_eq_mod)
  then show "bit i n \<Longrightarrow> n < 4" by (metis bit_take_bit_iff)
qed

lemma bit_small_u64: "i < 16 \<Longrightarrow> bit (of_nat i :: u64) n \<longleftrightarrow> n < 4 \<and> bit i n"
  using bit_nibble [of i n] by (auto simp: bit_simps)

lemma bit_small_u32: "i < 16 \<Longrightarrow> bit (of_nat i :: u32) n \<longleftrightarrow> n < 4 \<and> bit i n"
  using bit_nibble [of i n] by (auto simp: bit_simps)

lemma bit_annotated:
  assumes "i < 16" and "j < 16"
  shows "bit (annotated p c i j) n \<longleftrightarrow> bit p n \<or> n = 16 \<or> bit (class_bits c) n \<or>
    (23 \<le> n \<and> n < 27 \<and> bit i (n - 23)) \<or> (27 \<le> n \<and> n < 31 \<and> bit j (n - 27))"
  by (auto simp: annotated_def bit_simps bit_flags dest: bit_nibble [OF assms(1)] bit_nibble [OF assms(2)])

lemma annotated_fields:
  assumes "i < 16" and "j < 16" and "\<And>n. 16 \<le> n \<Longrightarrow> n < 32 \<Longrightarrow> \<not> bit p n"
  shows "nvfs_pdevinfo_get_acs (annotated p c i j)"
    and "annotated p c i j AND NVFS_PDEVINFO_INFO_MASK = p"
    and "nvfs_pdevinfo_get_link_speed (annotated p c i j) = of_nat i"
    and "drop_bit 27 (ucast (annotated p c i j) :: u32) AND 0x0f = of_nat j"
    and "nvfs_pdevinfo_get_class_name (annotated p c i j) =
      (if PCI_DEV_IB (drop_bit 8 c) then ''network'' else if PCI_DEV_NVME c then ''nvme'' else ''x'')"
proof -
  note q = bit_annotated [OF assms(1,2), of p c]
  have one: "w AND push_bit k 1 \<noteq> 0 \<longleftrightarrow> bit w k" for w :: u64 and k
    by (simp add: bit_iff_and_push_bit_not_eq_0)
  show "nvfs_pdevinfo_get_acs (annotated p c i j)" unfolding nvfs_pdevinfo_get_acs_def one by (simp add: q)
  show "nvfs_pdevinfo_get_class_name (annotated p c i j) =
      (if PCI_DEV_IB (drop_bit 8 c) then ''network'' else if PCI_DEV_NVME c then ''nvme'' else ''x'')"
    unfolding nvfs_pdevinfo_get_class_name_def one using assms(3) by (simp add: q bit_class_bits)
  show "annotated p c i j AND NVFS_PDEVINFO_INFO_MASK = p"
    using assms(3) by (intro bit_word_eqI) (auto simp: q mask_numerals bit_simps bit_class_bits)
  show "nvfs_pdevinfo_get_link_speed (annotated p c i j) = of_nat i"
    using assms(3) by (intro bit_word_eqI)
      (auto simp: nvfs_pdevinfo_get_link_speed_def q mask_numerals bit_simps bit_class_bits bit_small_u32 [OF assms(1)] dest: bit_nibble [OF assms(1)])
  show "drop_bit 27 (ucast (annotated p c i j) :: u32) AND 0x0f = of_nat j"
    using assms(3) by (intro bit_word_eqI)
      (auto simp: q mask_numerals bit_simps bit_class_bits bit_small_u32 [OF assms(2)] dest: bit_nibble [OF assms(2)])
qed

lemma link_index_Some:
  assumes "v \<in> set xs"
  shows "\<exists>i. link_index xs (ucast v) k = Some (k + i) \<and> i < length xs \<and> xs ! i = v"
  using assms
proof (induction xs arbitrary: k)
  case (Cons x xs)
  have inj: "(ucast v :: u32) = ucast x \<longleftrightarrow> v = x"
    using unsigned_less [of v, where 'a = nat] unsigned_less [of x, where 'a = nat]
    by (simp add: word_unat_eq_iff unsigned_ucast_eq take_bit_eq_mod)
  show ?case
  proof (cases "v = x")
    case True
    then show ?thesis by (auto intro!: exI [of _ 0])
  next
    case False
    then have "v \<in> set xs" using Cons.prems by simp
    from Cons.IH [OF this, of "Suc k"]
    obtain i where "link_index xs (ucast v) (Suc k) = Some (Suc k + i)" "i < length xs" "xs ! i = v" by blast
    then show ?thesis using False inj by (auto intro!: exI [of _ "Suc i"])
  qed
qed simp

lemma set_attributes:
  assumes "s \<in> set (nvfs_pcie_link_speed_table h)" and "w \<in> set nvfs_pcie_link_width_table"
  shows "\<exists>i j. i < 16 \<and> j < 16 \<and> nvfs_pcie_link_speed_table h ! i = s \<and> nvfs_pcie_link_width_table ! j = w \<and>
    nvfs_pdevinfo_set_link_width (nvfs_pdevinfo_set_link_speed h (nvfs_pdevinfo_set_class (nvfs_pdevinfo_set_acs p) c)
      (ucast s)) (ucast w) = annotated p c i j"
proof -
  obtain i where i: "link_index (nvfs_pcie_link_speed_table h) (ucast s) 0 = Some i" "i < length (nvfs_pcie_link_speed_table h)"
      "nvfs_pcie_link_speed_table h ! i = s" using link_index_Some [OF assms(1), of 0] by auto
  obtain j where j: "link_index nvfs_pcie_link_width_table (ucast w) 0 = Some j" "j < length nvfs_pcie_link_width_table"
      "nvfs_pcie_link_width_table ! j = w" using link_index_Some [OF assms(2), of 0] by auto
  have len: "length (nvfs_pcie_link_speed_table h) = 16" "length nvfs_pcie_link_width_table = 16"
    by (simp_all add: nvfs_pcie_link_speed_table_def nvfs_pcie_link_width_table_def)
  have "nvfs_pdevinfo_set_class q c = q OR class_bits c" for q
    by (simp add: class_bits_def nvfs_pdevinfo_set_class_def)
  then show ?thesis using i j len
    by (intro exI [of _ i] exI [of _ j])
      (simp add: annotated_def nvfs_pdevinfo_set_link_width_def nvfs_pdevinfo_set_link_speed_def nvfs_pdevinfo_set_acs_def ac_simps)
qed

lemma pdevinfo_addr_masked: "p AND NVFS_PDEVINFO_INFO_MASK = q AND NVFS_PDEVINFO_INFO_MASK \<Longrightarrow> pdevinfo_addr p = pdevinfo_addr q"
  by (simp add: pdevinfo_addr_def)

lemma pdevinfo_info_clear:
  assumes "pbus pdev = Some b" and "devfn pdev < 256"
  shows "16 \<le> n \<Longrightarrow> n < 32 \<Longrightarrow> \<not> bit (nvfs_pdevinfo pdev) n"
    and "nvfs_pdevinfo pdev AND NVFS_PDEVINFO_INFO_MASK = nvfs_pdevinfo pdev"
proof -
  show clear: "\<not> bit (nvfs_pdevinfo pdev) n" if "16 \<le> n" "n < 32" for n using that by (simp add: bit_pdevinfo [OF assms])
  show "nvfs_pdevinfo pdev AND NVFS_PDEVINFO_INFO_MASK = nvfs_pdevinfo pdev"
    by (intro bit_word_eqI) (auto simp: mask_numerals bit_simps dest: clear)
qed

lemma pdevinfo_addr_eq:
  assumes "pbus pdev = Some b" and "devfn pdev < 256"
  shows "pdevinfo_addr (nvfs_pdevinfo pdev) = (domain_nr b, ucast (bus_number b), devfn pdev)"
proof -
  note q = bit_pdevinfo [OF assms]
  have "ucast (drop_bit 32 (nvfs_pdevinfo pdev)) = domain_nr b"
    by (intro bit_word_eqI) (auto simp: q bit_simps)
  moreover have "drop_bit 8 (ucast (nvfs_pdevinfo pdev)) = (ucast (bus_number b) :: u32)"
    by (intro bit_word_eqI) (auto simp: q bit_simps dest: bit_imp_le_length)
  moreover have "ucast (ucast (nvfs_pdevinfo pdev) :: u8) AND 0xFF = devfn pdev"
    by (intro bit_word_eqI) (auto simp: q bit_simps mask_numerals dest: bit_devfn [OF assms(2)])
  ultimately show ?thesis unfolding pdevinfo_addr_def Let_def pdevinfo_info_clear(2) [OF assms] by simp
qed

section \<open>Properties\<close>

text \<open>
  C27. Packing a PCI address is a round trip. For a device on a bus, the address that
  \<open>nvfs_get_pdev_from_pdevinfo\<close> looks up for the descriptor \<open>nvfs_pdevinfo\<close> makes is the domain, bus
  and devfn of the device, and packing these with \<open>nvfs_bdf2pdevinfo\<close> gives the same descriptor.
\<close>

theorem pdevinfo_roundtrip:
  assumes "pbus pdev = Some b" and "devfn pdev < 256"
  shows "nvfs_get_pdev_from_pdevinfo get_slot (nvfs_pdevinfo pdev) =
      get_slot (domain_nr b) (ucast (bus_number b)) (devfn pdev) \<and>
    nvfs_bdf2pdevinfo (domain_nr b) (ucast (bus_number b)) (drop_bit 3 (devfn pdev)) (devfn pdev AND 7) = nvfs_pdevinfo pdev"
proof
  show "nvfs_get_pdev_from_pdevinfo get_slot (nvfs_pdevinfo pdev) = get_slot (domain_nr b) (ucast (bus_number b)) (devfn pdev)"
    by (simp add: nvfs_get_pdev_from_pdevinfo_def pdevinfo_addr_eq [OF assms])
  have seven: "(7 :: u32) = mask 3" by (simp add: mask_eq_exp_minus_1)
  have "push_bit 3 (drop_bit 3 (devfn pdev)) OR (devfn pdev AND 7) = devfn pdev"
    by (intro bit_word_eqI) (auto simp: seven bit_simps)
  then have "nvfs_bdf2pdevinfo (domain_nr b) (ucast (bus_number b)) (drop_bit 3 (devfn pdev)) (devfn pdev AND 7) =
      push_bit 32 (ucast (domain_nr b)) OR scast (push_bit 8 (ucast (bus_number b) :: u32)) OR scast (devfn pdev)"
    by (simp add: nvfs_bdf2pdevinfo_def ac_simps)
  also have "\<dots> = nvfs_pdevinfo pdev"
    by (intro bit_word_eqI) (auto simp: bit_pdevinfo [OF assms] bit_simps dest: bit_devfn [OF assms(2)] bit_imp_le_length)
  finally show "nvfs_bdf2pdevinfo (domain_nr b) (ucast (bus_number b)) (drop_bit 3 (devfn pdev)) (devfn pdev AND 7) = nvfs_pdevinfo pdev" .
qed

theorem pdevinfo_roundtrip_witness:
  "nvfs_get_pdev_from_pdevinfo (\<lambda>d b f. Some (d, b, f))
     (nvfs_pdevinfo \<lparr>pbus = Some \<lparr>domain_nr = 0x10000, bus_number = 0x3b\<rparr>, devfn = 0x41, pclass = 0x030200, vendor = 0x10de\<rparr>) =
     Some (0x10000, 0x3b, 0x41)"
  using pdevinfo_roundtrip [of "\<lparr>pbus = Some \<lparr>domain_nr = 0x10000, bus_number = 0x3b\<rparr>, devfn = 0x41, pclass = 0x030200, vendor = 0x10de\<rparr>"
    "\<lparr>domain_nr = 0x10000, bus_number = 0x3b\<rparr>" "\<lambda>d b f. Some (d, b, f)"] by simp

text \<open>
  C28. The attributes of a descriptor do not disturb each other. After the ACS flag, the class, the
  link speed and the link width have been set, each getter returns what was set (the link speed
  as its index in the table), and the descriptor still names the same device.
\<close>

theorem pdevinfo_attributes:
  assumes "pbus pdev = Some b" and "devfn pdev < 256"
    and "s \<in> set (nvfs_pcie_link_speed_table h)" and "w \<in> set nvfs_pcie_link_width_table"
    and "q = nvfs_pdevinfo_set_link_width (nvfs_pdevinfo_set_link_speed h
      (nvfs_pdevinfo_set_class (nvfs_pdevinfo_set_acs (nvfs_pdevinfo pdev)) c) (ucast s)) (ucast w)"
  shows "nvfs_pdevinfo_get_acs q \<and>
    nvfs_pdevinfo_get_class_name q =
      (if PCI_DEV_IB (drop_bit 8 c) then ''network'' else if PCI_DEV_NVME c then ''nvme'' else ''x'') \<and>
    nvfs_pcie_link_speed_table h ! unat (nvfs_pdevinfo_get_link_speed q) = s \<and>
    nvfs_pdevinfo_get_link_width q = ucast w \<and>
    nvfs_get_pdev_from_pdevinfo get_slot q = get_slot (domain_nr b) (ucast (bus_number b)) (devfn pdev)"
proof -
  let ?p = "nvfs_pdevinfo pdev"
  obtain i j where ij: "i < 16" "j < 16" "nvfs_pcie_link_speed_table h ! i = s" "nvfs_pcie_link_width_table ! j = w"
    and q: "q = annotated ?p c i j"
    using set_attributes [OF assms(3,4), of ?p c] assms(5) by auto
  note f = annotated_fields [OF ij(1,2) pdevinfo_info_clear(1) [OF assms(1,2)], of c, folded q]
  have small: "unat (of_nat i :: u32) = i" "unat (of_nat j :: u32) = j" using ij(1,2) by (simp_all add: unat_of_nat_u32)
  have "pdevinfo_addr q = pdevinfo_addr ?p"
    by (rule pdevinfo_addr_masked) (simp only: f(2) pdevinfo_info_clear(2) [OF assms(1,2)])
  then have addr: "nvfs_get_pdev_from_pdevinfo get_slot q = get_slot (domain_nr b) (ucast (bus_number b)) (devfn pdev)"
    by (simp add: nvfs_get_pdev_from_pdevinfo_def pdevinfo_addr_eq [OF assms(1,2)])
  have "nvfs_pdevinfo_get_link_width q = ucast w"
    using f(4) small(2) ij(4) by (simp add: nvfs_pdevinfo_get_link_width_def)
  then show ?thesis using f(1,3,5) small(1) ij(3) addr by simp
qed

theorem pdevinfo_attributes_witness:
  "let q = nvfs_pdevinfo_set_link_width (nvfs_pdevinfo_set_link_speed True (nvfs_pdevinfo_set_class (nvfs_pdevinfo_set_acs
     (nvfs_pdevinfo \<lparr>pbus = Some \<lparr>domain_nr = 0, bus_number = 0x3b\<rparr>, devfn = 0x41, pclass = 0x010802, vendor = 0x144d\<rparr>))
     0x010802) (ucast (0x17 :: u8))) (ucast (4 :: u8)) in
   nvfs_pdevinfo_get_acs q \<and> nvfs_pdevinfo_get_class_name q = ''nvme'' \<and> nvfs_pdevinfo_get_link_width q = 4"
proof -
  let ?b = "\<lparr>domain_nr = 0, bus_number = 0x3b\<rparr>"
  let ?d = "\<lparr>pbus = Some ?b, devfn = 0x41, pclass = 0x010802, vendor = 0x144d\<rparr>"
  have "pbus ?d = Some ?b" "devfn ?d < 256" "(0x17 :: u8) \<in> set (nvfs_pcie_link_speed_table True)"
    "(4 :: u8) \<in> set nvfs_pcie_link_width_table"
    by (simp_all add: nvfs_pcie_link_speed_table_def nvfs_pcie_link_width_table_def)
  from pdevinfo_attributes [OF this refl, of "0x010802" "\<lambda>d b f. Some (d, b, f)"] show ?thesis
    by (simp add: Let_def PCI_DEV_IB_def PCI_DEV_NVME_def)
qed

end
