(* ===== verification/Kmod_Pci.thy ===== *)
theory Kmod_Pci
  imports Kmod_Pdevinfo "HOL-Library.Multiset"
begin

text \<open>
  The PCI tables of the kernel module (module/nvfs-pci.c): the hash index over device descriptors,
  the enumeration of the GPUs into a table sorted by PCI address, the ACS search, and the matrix of
  ranks and usage counts between GPUs and peer devices.

  Outside the sources are the PCI core and \<open>jhash_2words\<close>. \<open>class_devs c\<close> is the sequence of devices that
  successive calls of \<open>pci_get_class(c, pdev)\<close> return before \<open>NULL\<close>; the hash is a parameter \<open>jh\<close>. The
  array \<open>gpu_bdf_map\<close> is only cleared, never read, and is left out.
\<close>

section \<open>State\<close>

abbreviation MAX_GPU_DEVS :: nat where "MAX_GPU_DEVS \<equiv> 64"
abbreviation MAX_PEER_DEVS :: nat where "MAX_PEER_DEVS \<equiv> 64"
abbreviation BASE_PCI_DISTANCE_CROSSRP :: u32 where "BASE_PCI_DISTANCE_CROSSRP \<equiv> 127"
abbreviation UINT_MAX :: nat where "UINT_MAX \<equiv> 4294967295"

record nvfs_rank_data =
  rank :: u32
  cross :: u16
  pci_dist :: u16
  bw_index :: u16
  count :: u64

record pci_tables =
  gpu_info_table :: "u64 list"
  peer_info_table :: "u64 list"
  gpu_rank_matrix :: "nvfs_rank_data list list"
  DEV_NUM :: nat

definition pci_init :: pci_tables where
  "pci_init = \<lparr>gpu_info_table = replicate MAX_GPU_DEVS 0, peer_info_table = replicate MAX_PEER_DEVS 0,
     gpu_rank_matrix = replicate MAX_GPU_DEVS (replicate MAX_PEER_DEVS
       \<lparr>rank = 0, cross = 0, pci_dist = 0, bw_index = 0, count = 0\<rparr>), DEV_NUM = 0\<rparr>"

section \<open>The hash index\<close>

definition hashfn :: "(u32 \<Rightarrow> u32 \<Rightarrow> u32 \<Rightarrow> u32) \<Rightarrow> u64 \<Rightarrow> u64" where
  "hashfn jh value = ucast (jh (ucast value) (ucast (drop_bit 32 value)) 0)"

text \<open>Linear probing with \<open>k\<close> rounds left, for the first entry that satisfies \<open>P\<close>.\<close>

fun probe_loop :: "nat \<Rightarrow> (u64 \<Rightarrow> bool) \<Rightarrow> u64 list \<Rightarrow> nat \<Rightarrow> nat \<Rightarrow> nat" where
  "probe_loop 0 P index_table max_elements idx = UINT_MAX"
| "probe_loop (Suc k) P index_table max_elements idx =
     (if P (index_table ! idx) then idx else probe_loop k P index_table max_elements ((idx + 1) mod max_elements))"

definition create_index_entry :: "(u32 \<Rightarrow> u32 \<Rightarrow> u32 \<Rightarrow> u32) \<Rightarrow> u64 \<Rightarrow> u64 list \<Rightarrow> nat \<Rightarrow> nat" where
  "create_index_entry jh p index_table max_elements =
     probe_loop max_elements (\<lambda>x. x = 0) index_table max_elements (unat (hashfn jh p) mod max_elements)"

definition lookup_index_entry :: "(u32 \<Rightarrow> u32 \<Rightarrow> u32 \<Rightarrow> u32) \<Rightarrow> u64 \<Rightarrow> u64 list \<Rightarrow> nat \<Rightarrow> nat" where
  "lookup_index_entry jh p index_table max_elements =
     probe_loop max_elements (\<lambda>x. x AND NVFS_PDEVINFO_INFO_MASK = p) index_table max_elements
       (unat (hashfn jh p) mod max_elements)"

definition nvfs_create_gpu_hash_entry :: "(u32 \<Rightarrow> u32 \<Rightarrow> u32 \<Rightarrow> u32) \<Rightarrow> pci_tables \<Rightarrow> u64 \<Rightarrow> nat" where
  "nvfs_create_gpu_hash_entry jh s p = (if p = 0 then UINT_MAX else create_index_entry jh p (gpu_info_table s) MAX_GPU_DEVS)"

definition nvfs_create_peer_hash_entry :: "(u32 \<Rightarrow> u32 \<Rightarrow> u32 \<Rightarrow> u32) \<Rightarrow> pci_tables \<Rightarrow> u64 \<Rightarrow> nat" where
  "nvfs_create_peer_hash_entry jh s p = (if p = 0 then UINT_MAX else create_index_entry jh p (peer_info_table s) MAX_PEER_DEVS)"

definition nvfs_get_gpu_hash_index :: "(u32 \<Rightarrow> u32 \<Rightarrow> u32 \<Rightarrow> u32) \<Rightarrow> pci_tables \<Rightarrow> u64 \<Rightarrow> nat" where
  "nvfs_get_gpu_hash_index jh s p = lookup_index_entry jh p (gpu_info_table s) MAX_GPU_DEVS"

definition nvfs_get_peer_hash_index :: "(u32 \<Rightarrow> u32 \<Rightarrow> u32 \<Rightarrow> u32) \<Rightarrow> pci_tables \<Rightarrow> u64 \<Rightarrow> nat" where
  "nvfs_get_peer_hash_index jh s p = lookup_index_entry jh p (peer_info_table s) MAX_PEER_DEVS"

definition nvfs_lookup_gpu_hash_index_entry :: "pci_tables \<Rightarrow> nat \<Rightarrow> u64" where
  "nvfs_lookup_gpu_hash_index_entry s i = (if i < MAX_GPU_DEVS then gpu_info_table s ! i else 0)"

definition nvfs_lookup_peer_hash_index_entry :: "pci_tables \<Rightarrow> nat \<Rightarrow> u64" where
  "nvfs_lookup_peer_hash_index_entry s i = (if i < MAX_PEER_DEVS then peer_info_table s ! i else 0)"

section \<open>ACS\<close>

text \<open>
  \<open>find_ext_cap d\<close> is the position of the ACS capability of a device (0 if it has none), \<open>read_word d pos\<close>
  a word of its configuration space. \<open>PCI_ACS_CAP\<close> is 4 and \<open>PCI_ACS_CTRL\<close> 6.
\<close>

definition nvfs_pcie_acs_enabled :: "('d \<Rightarrow> nat) \<Rightarrow> ('d \<Rightarrow> nat \<Rightarrow> u16) \<Rightarrow> 'd \<Rightarrow> bool" where
  "nvfs_pcie_acs_enabled find_ext_cap read_word d = (let pos = find_ext_cap d in
     if pos = 0 then False else read_word d (pos + 4) \<noteq> 0 \<and> read_word d (pos + 6) AND 0x7f \<noteq> 0)"

text \<open>\<open>bridges\<close> are the PCI bridges that \<open>pci_get_class\<close> still returns after the device the search starts from.\<close>

fun nvfs_get_next_acs_device :: "('d \<Rightarrow> nat) \<Rightarrow> ('d \<Rightarrow> nat \<Rightarrow> u16) \<Rightarrow> 'd list \<Rightarrow> 'd option" where
  "nvfs_get_next_acs_device find_ext_cap read_word [] = None"
| "nvfs_get_next_acs_device find_ext_cap read_word (d # bridges) =
     (if nvfs_pcie_acs_enabled find_ext_cap read_word d then Some d
      else nvfs_get_next_acs_device find_ext_cap read_word bridges)"

section \<open>The table of GPUs\<close>

record gpu_info =
  pdevinfo :: u64
  domain :: u16
  bus :: u8
  slot :: u8
  func :: u8

definition gpu_info_of :: "u64 \<Rightarrow> gpu_info" where
  "gpu_info_of x = \<lparr>pdevinfo = x, domain = ucast (drop_bit 24 x AND 0xffff), bus = ucast (drop_bit 16 x AND 0xff),
     slot = ucast (drop_bit 8 x AND 0xff), func = ucast (x AND 0xff)\<rparr>"

definition info_gt :: "gpu_info \<Rightarrow> gpu_info \<Rightarrow> bool" where
  "info_gt a b \<longleftrightarrow> domain a > domain b \<or>
     (domain a = domain b \<and> bus a > bus b) \<or>
     (domain a = domain b \<and> bus a = bus b \<and> slot a > slot b) \<or>
     (domain a = domain b \<and> bus a = bus b \<and> slot a = slot b \<and> func a > func b)"

text \<open>The loop over the devices of a class, with \<open>temp_info\<close> and \<open>DEV_NUM\<close>; false when it gave up on a wrong class
  (the reference that \<open>pci_get_class\<close> holds on the device is not tracked).\<close>

fun probe_devs :: "u32 \<Rightarrow> pci_dev list \<Rightarrow> u64 option list \<Rightarrow> nat \<Rightarrow> fault + (u64 option list \<times> nat \<times> bool)" where
  "probe_devs cls [] temp_info n = Inr (temp_info, n, True)"
| "probe_devs cls (pdev # devs) temp_info n =
     (if pbus pdev = None then probe_devs cls devs temp_info n
      else if pclass pdev \<noteq> cls then Inr (temp_info, n, False)
      else if PCI_DEV_GPU (drop_bit 8 cls) (vendor pdev) then
        (if n < MAX_GPU_DEVS then probe_devs cls devs (temp_info[n := Some (nvfs_pdevinfo pdev)]) (Suc n)
         else Inl Out_Of_Bounds)
      else probe_devs cls devs temp_info n)"

text \<open>The exchange sort: \<open>n\<close> is \<open>DEV_NUM\<close>.\<close>

function sort_inner :: "nat \<Rightarrow> nat \<Rightarrow> nat \<Rightarrow> gpu_info list \<Rightarrow> gpu_info list" where
  "sort_inner n i j infos = (if j < n then
     sort_inner n i (Suc j) (if info_gt (infos ! i) (infos ! j) then infos[i := infos ! j, j := infos ! i] else infos)
     else infos)"
  by auto
termination by (relation "measure (\<lambda>(n, i, j, infos). n - j)") auto

function sort_outer :: "nat \<Rightarrow> nat \<Rightarrow> gpu_info list \<Rightarrow> gpu_info list" where
  "sort_outer n i infos = (if Suc i < n then sort_outer n (Suc i) (sort_inner n i (Suc i) infos) else infos)"
  by auto
termination by (relation "measure (\<lambda>(n, i, infos). n - i)") auto

declare sort_inner.simps [simp del] sort_outer.simps [simp del]

definition nvfs_find_all_device_paths :: "(u32 \<Rightarrow> pci_dev list) \<Rightarrow> u32 \<Rightarrow> pci_tables \<Rightarrow> fault + pci_tables" where
  "nvfs_find_all_device_paths class_devs cls s =
     (case probe_devs cls (class_devs cls) (replicate MAX_GPU_DEVS None) (DEV_NUM s) of
        Inl e \<Rightarrow> Inl e
      | Inr (temp_info, n, fin) \<Rightarrow>
          if \<not> fin then Inr (s\<lparr>DEV_NUM := n\<rparr>)
          else (case those (take n temp_info) of
            None \<Rightarrow> Inl Uninitialised
          | Some xs \<Rightarrow> Inr (s\<lparr>DEV_NUM := n,
              gpu_info_table := map pdevinfo (sort_outer n 0 (map gpu_info_of xs)) @ drop n (gpu_info_table s)\<rparr>)))"

definition nvfs_fill_gpu2peer_distance_table_once :: "(u32 \<Rightarrow> pci_dev list) \<Rightarrow> pci_tables \<Rightarrow> fault + pci_tables" where
  "nvfs_fill_gpu2peer_distance_table_once class_devs s =
     nvfs_find_all_device_paths class_devs (push_bit 8 PCI_CLASS_DISPLAY_3D) (s\<lparr>gpu_info_table := replicate MAX_GPU_DEVS 0\<rparr>)"

section \<open>Ranks and usage counts\<close>

text \<open>Reading and writing an entry of the matrix; an index behind the end of a dimension is a fault.\<close>

definition get_rank :: "pci_tables \<Rightarrow> nat \<Rightarrow> nat \<Rightarrow> fault + nvfs_rank_data" where
  "get_rank s i j = (if i < length (gpu_rank_matrix s) \<and> j < length (gpu_rank_matrix s ! i)
     then Inr (gpu_rank_matrix s ! i ! j) else Inl Out_Of_Bounds)"

definition set_rank :: "pci_tables \<Rightarrow> nat \<Rightarrow> nat \<Rightarrow> nvfs_rank_data \<Rightarrow> fault + pci_tables" where
  "set_rank s i j r = (if i < length (gpu_rank_matrix s) \<and> j < length (gpu_rank_matrix s ! i)
     then Inr (s\<lparr>gpu_rank_matrix := (gpu_rank_matrix s)[i := (gpu_rank_matrix s ! i)[j := r]]\<rparr>) else Inl Out_Of_Bounds)"

definition set_count :: "pci_tables \<Rightarrow> nat \<Rightarrow> nat \<Rightarrow> (u64 \<Rightarrow> u64) \<Rightarrow> fault + pci_tables" where
  "set_count s i j f = (case get_rank s i j of Inl e \<Rightarrow> Inl e | Inr r \<Rightarrow> set_rank s i j (r\<lparr>count := f (count r)\<rparr>))"

definition nvfs_get_gpu2peer_distance :: "(u32 \<Rightarrow> u32 \<Rightarrow> u32 \<Rightarrow> u32) \<Rightarrow> pci_tables \<Rightarrow> pci_dev option \<Rightarrow> nat \<Rightarrow> fault + u32" where
  "nvfs_get_gpu2peer_distance jh s dev gpu_index = (case dev of
     None \<Rightarrow> Inr (of_nat UINT_MAX)
   | Some pdev \<Rightarrow>
       if pbus pdev = None then Inr (of_nat UINT_MAX)
       else if MAX_GPU_DEVS \<le> gpu_index then Inr (of_nat UINT_MAX)
       else let peer_index = nvfs_get_peer_hash_index jh s (nvfs_pdevinfo pdev) in
         if MAX_PEER_DEVS \<le> peer_index then Inr (of_nat UINT_MAX)
         else map_sum id rank (get_rank s gpu_index peer_index))"

definition nvfs_update_peer_usage :: "(u32 \<Rightarrow> u32 \<Rightarrow> u32 \<Rightarrow> u32) \<Rightarrow> nat \<Rightarrow> u64 \<Rightarrow> pci_tables \<Rightarrow> fault + pci_tables" where
  "nvfs_update_peer_usage jh gpu_index peer_pdevinfo s = (let peer_index = nvfs_get_peer_hash_index jh s peer_pdevinfo in
     if MAX_GPU_DEVS \<le> gpu_index \<or> MAX_PEER_DEVS \<le> peer_index then Inr s
     else set_count s gpu_index peer_index (\<lambda>c. c + 1))"

text \<open>The loop of an aggregate over the peers \<open>js\<close> of a GPU.\<close>

fun sum_loop :: "(nvfs_rank_data \<Rightarrow> bool) \<Rightarrow> pci_tables \<Rightarrow> nat \<Rightarrow> nat list \<Rightarrow> u64 \<Rightarrow> fault + u64" where
  "sum_loop P s i [] acc = Inr acc"
| "sum_loop P s i (j # js) acc = (case get_rank s i j of Inl e \<Rightarrow> Inl e
     | Inr r \<Rightarrow> sum_loop P s i js (if P r then acc + count r else acc))"

definition nvfs_aggregate_peer_usage_by_distance :: "pci_tables \<Rightarrow> nat \<Rightarrow> u32 \<Rightarrow> fault + u64" where
  "nvfs_aggregate_peer_usage_by_distance s gpu_index dist =
     (if MAX_GPU_DEVS \<le> gpu_index then Inr 0
      else if BASE_PCI_DISTANCE_CROSSRP \<le> dist then sum_loop (\<lambda>r. dist \<le> ucast (pci_dist r)) s gpu_index [0..<MAX_PEER_DEVS] 0
      else sum_loop (\<lambda>r. ucast (pci_dist r) = dist) s gpu_index [0..<MAX_PEER_DEVS] 0)"

fun cross_loop :: "pci_tables \<Rightarrow> nat \<Rightarrow> nat list \<Rightarrow> u64 \<Rightarrow> u64 \<Rightarrow> fault + (u64 \<times> u64)" where
  "cross_loop s i [] net cnt = Inr (net, cnt)"
| "cross_loop s i (j # js) net cnt = (case get_rank s i j of Inl e \<Rightarrow> Inl e
     | Inr r \<Rightarrow> cross_loop s i js (net + count r) (if cross r \<noteq> 0 then cnt + count r else cnt))"

definition nvfs_aggregate_cross_peer_usage :: "pci_tables \<Rightarrow> nat \<Rightarrow> fault + u32" where
  "nvfs_aggregate_cross_peer_usage s gpu_index =
     (case (if MAX_GPU_DEVS \<le> gpu_index then Inr (0, 0) else cross_loop s gpu_index [0..<MAX_PEER_DEVS] 0 0) of
        Inl e \<Rightarrow> Inl e
      | Inr (net, cnt) \<Rightarrow> Inr (if net \<noteq> 0 then ucast ((100 * cnt) div net) else 0))"

fun reset_row :: "pci_tables \<Rightarrow> nat \<Rightarrow> nat list \<Rightarrow> fault + pci_tables" where
  "reset_row s i [] = Inr s"
| "reset_row s i (j # js) = (case set_count s i j (\<lambda>_. 0) of Inl e \<Rightarrow> Inl e | Inr t \<Rightarrow> reset_row t i js)"

fun reset_rows :: "pci_tables \<Rightarrow> nat list \<Rightarrow> fault + pci_tables" where
  "reset_rows s [] = Inr s"
| "reset_rows s (i # is) = (case reset_row s i [0..<MAX_PEER_DEVS] of Inl e \<Rightarrow> Inl e | Inr t \<Rightarrow> reset_rows t is)"

definition nvfs_reset_peer_affinity_stats :: "pci_tables \<Rightarrow> fault + pci_tables" where
  "nvfs_reset_peer_affinity_stats s = reset_rows s [0..<MAX_GPU_DEVS]"

text \<open>
  The rows of the distance map, in the order they are printed: the two descriptors, the rank, the
  distance, the link width, the link speed, the NUMA node, the count and the class name.
\<close>

definition show_rank :: "(u64 \<Rightarrow> int) \<Rightarrow> u64 \<Rightarrow> u64 \<Rightarrow> nvfs_rank_data \<Rightarrow>
    u64 \<times> u64 \<times> u32 \<times> u16 \<times> u32 \<times> u32 \<times> int \<times> u64 \<times> string" where
  "show_rank numa p q r = (p, q, rank r, pci_dist r, nvfs_pdevinfo_get_link_width q, nvfs_pdevinfo_get_link_speed q, numa q,
     count r, nvfs_pdevinfo_get_class_name q)"

fun show_loop :: "(u64 \<Rightarrow> int) \<Rightarrow> pci_tables \<Rightarrow> (nat \<times> nat) list \<Rightarrow>
    fault + (u64 \<times> u64 \<times> u32 \<times> u16 \<times> u32 \<times> u32 \<times> int \<times> u64 \<times> string) list" where
  "show_loop numa s [] = Inr []"
| "show_loop numa s ((i, j) # ijs) =
     (if nvfs_lookup_gpu_hash_index_entry s i = 0 \<or> nvfs_lookup_peer_hash_index_entry s j = 0 then show_loop numa s ijs
      else case get_rank s i j of Inl e \<Rightarrow> Inl e
        | Inr r \<Rightarrow> map_sum id ((#) (show_rank numa (nvfs_lookup_gpu_hash_index_entry s i) (nvfs_lookup_peer_hash_index_entry s j) r))
            (show_loop numa s ijs))"

definition nvfs_peer_distance_show :: "(u64 \<Rightarrow> int) \<Rightarrow> pci_tables \<Rightarrow>
    fault + (u64 \<times> u64 \<times> u32 \<times> u16 \<times> u32 \<times> u32 \<times> int \<times> u64 \<times> string) list" where
  "nvfs_peer_distance_show numa s = show_loop numa s (List.product [0..<MAX_GPU_DEVS] [0..<MAX_PEER_DEVS])"

section \<open>Probing\<close>

lemma probe_loop_find:
  assumes "s < m"
  shows "probe_loop k P t m s = (case List.find (\<lambda>i. P (t ! i)) (map (\<lambda>d. (s + d) mod m) [0..<k]) of
    Some i \<Rightarrow> i | None \<Rightarrow> UINT_MAX)"
  using assms
proof (induction k arbitrary: s)
  case (Suc k)
  have m: "0 < m" using Suc.prems by simp
  have "map (\<lambda>d. (s + d) mod m) [0..<Suc k] = s # map (\<lambda>d. (Suc s + d) mod m) [0..<k]"
    using Suc.prems by (simp add: upt_conv_Cons map_Suc_upt [symmetric] del: upt_Suc)
  also have "map (\<lambda>d. (Suc s + d) mod m) [0..<k] = map (\<lambda>d. (Suc s mod m + d) mod m) [0..<k]"
    by (simp add: mod_add_left_eq)
  finally show ?case using Suc.IH [of "Suc s mod m"] m by simp
qed simp

lemma probe_set:
  assumes "s < m"
  shows "set (map (\<lambda>d. (s + d) mod m) [0..<m]) = {0..<m}"
proof -
  have m: "0 < m" using assms by simp
  have "k \<in> (\<lambda>d. (s + d) mod m) ` {0..<m}" if "k < m" for k
  proof (cases "s \<le> k")
    case True
    then show ?thesis using that by (intro image_eqI [of _ _ "k - s"]) auto
  next
    case False
    then show ?thesis using that assms by (intro image_eqI [of _ _ "k + m - s"]) auto
  qed
  then show ?thesis using m by auto
qed

lemma probe_hit:
  assumes "s < m" and "length t = m" and "\<exists>x\<in>set t. P x"
  shows "probe_loop m P t m s < m" and "P (t ! probe_loop m P t m s)"
proof -
  let ?is = "map (\<lambda>d. (s + d) mod m) [0..<m]"
  obtain i where "i < m" "P (t ! i)" using assms(2,3) by (auto simp: in_set_conv_nth)
  then have "\<exists>i\<in>set ?is. P (t ! i)" unfolding probe_set [OF assms(1)] by auto
  then have "List.find (\<lambda>i. P (t ! i)) ?is \<noteq> None" unfolding find_None_iff by blast
  then obtain j where j: "List.find (\<lambda>i. P (t ! i)) ?is = Some j" by blast
  then have "j \<in> set ?is" "P (t ! j)" by (auto simp: find_Some_iff)
  moreover have "j < m" using \<open>j \<in> set ?is\<close> unfolding probe_set [OF assms(1)] by simp
  ultimately show "probe_loop m P t m s < m" "P (t ! probe_loop m P t m s)"
    by (simp_all add: probe_loop_find [OF assms(1)] j)
qed

lemma probe_miss:
  assumes "s < m" and "length t = m" and "\<forall>x\<in>set t. \<not> P x"
  shows "probe_loop m P t m s = UINT_MAX"
proof -
  let ?is = "map (\<lambda>d. (s + d) mod m) [0..<m]"
  have "\<forall>i\<in>set ?is. \<not> P (t ! i)" unfolding probe_set [OF assms(1)] using assms(2,3) by auto
  then have "List.find (\<lambda>i. P (t ! i)) ?is = None" by (auto simp: find_None_iff)
  then show ?thesis by (simp add: probe_loop_find [OF assms(1)])
qed

text \<open>
  What a client of an index relies on: an index for a new device is an empty slot, a search finds an
  entry for the device if the table has one, and both report a failure otherwise. The laws are those
  of a table with 64 entries.
\<close>

locale device_index =
  fixes slots :: "'t \<Rightarrow> u64 list"
    and store :: "'t \<Rightarrow> nat \<Rightarrow> u64 \<Rightarrow> 't"
    and create :: "'t \<Rightarrow> u64 \<Rightarrow> nat"
    and lookup :: "'t \<Rightarrow> u64 \<Rightarrow> nat"
  assumes slots_store: "slots (store t i q) = (slots t)[i := q]"
    and create_empty: "length (slots t) = 64 \<Longrightarrow> p \<noteq> 0 \<Longrightarrow> 0 \<in> set (slots t) \<Longrightarrow> create t p < 64 \<and> slots t ! create t p = 0"
    and create_full: "length (slots t) = 64 \<Longrightarrow> 0 \<notin> set (slots t) \<Longrightarrow> create t p = UINT_MAX"
    and lookup_hit: "length (slots t) = 64 \<Longrightarrow> x \<in> set (slots t) \<Longrightarrow> x AND NVFS_PDEVINFO_INFO_MASK = p \<Longrightarrow>
      lookup t p < 64 \<and> slots t ! lookup t p AND NVFS_PDEVINFO_INFO_MASK = p"
    and lookup_miss: "length (slots t) = 64 \<Longrightarrow> \<forall>x\<in>set (slots t). x AND NVFS_PDEVINFO_INFO_MASK \<noteq> p \<Longrightarrow> lookup t p = UINT_MAX"
begin

text \<open>A descriptor stored at the index created for its device is found there, and only there.\<close>

lemma lookup_stored:
  assumes "length (slots t) = 64" and "p \<noteq> 0" and "0 \<in> set (slots t)" and "lookup t p = UINT_MAX"
    and "q AND NVFS_PDEVINFO_INFO_MASK = p"
  shows "lookup (store t (create t p) q) p = create t p"
proof -
  let ?i = "create t p" and ?t = "store t (create t p) q"
  have i: "?i < 64" using create_empty [OF assms(1-3)] by simp
  have new: "slots ?t ! j = (if j = ?i then q else slots t ! j)" if "j < 64" for j
    using that assms(1) i by (simp add: slots_store nth_list_update)
  have old: "x AND NVFS_PDEVINFO_INFO_MASK \<noteq> p" if "x \<in> set (slots t)" for x
    using lookup_hit [OF assms(1) that] assms(4) by fastforce
  have "q \<in> set (slots ?t)" using i assms(1) by (simp add: slots_store set_update_memI)
  then have hit: "lookup ?t p < 64" "slots ?t ! lookup ?t p AND NVFS_PDEVINFO_INFO_MASK = p"
    using lookup_hit [of ?t q p] assms(1,5) by (simp_all add: slots_store)
  then show ?thesis using new [OF hit(1)] old [of "slots t ! lookup ?t p"] assms(1) by (auto split: if_splits)
qed

lemma lookup_stored_other:
  assumes "length (slots t) = 64" and "p \<noteq> 0" and "0 \<in> set (slots t)" and "p' \<noteq> p" and "p' \<noteq> 0" and "q AND NVFS_PDEVINFO_INFO_MASK = p"
    and "lookup t p' = UINT_MAX"
  shows "lookup (store t (create t p) q) p' = UINT_MAX"
proof (rule lookup_miss)
  show "length (slots (store t (create t p) q)) = 64" using assms(1) by (simp add: slots_store)
  have "x AND NVFS_PDEVINFO_INFO_MASK \<noteq> p'" if "x \<in> set (slots t)" for x
    using lookup_hit [OF assms(1) that] assms(7) by fastforce
  then show "\<forall>x\<in>set (slots (store t (create t p) q)). x AND NVFS_PDEVINFO_INFO_MASK \<noteq> p'"
    using assms(4,6) set_update_subset_insert [of "slots t" "create t p" q] by (fastforce simp: slots_store)
qed

end

lemmas index_defs = create_index_entry_def lookup_index_entry_def nvfs_create_gpu_hash_entry_def
  nvfs_create_peer_hash_entry_def nvfs_get_gpu_hash_index_def nvfs_get_peer_hash_index_def

interpretation gpus: device_index gpu_info_table "\<lambda>s i q. s\<lparr>gpu_info_table := (gpu_info_table s)[i := q]\<rparr>"
  "nvfs_create_gpu_hash_entry jh" "nvfs_get_gpu_hash_index jh" for jh
  by unfold_locales (auto simp: index_defs intro: probe_hit probe_miss)

interpretation peers: device_index peer_info_table "\<lambda>s i q. s\<lparr>peer_info_table := (peer_info_table s)[i := q]\<rparr>"
  "nvfs_create_peer_hash_entry jh" "nvfs_get_peer_hash_index jh" for jh
  by unfold_locales (auto simp: index_defs intro: probe_hit probe_miss)

section \<open>The exchange sort\<close>

definition info_key :: "gpu_info \<Rightarrow> nat" where
  "info_key a = unat (domain a) * 16777216 + unat (bus a) * 65536 + unat (slot a) * 256 + unat (func a)"

lemma lex_step: "y < k \<Longrightarrow> y' < k \<Longrightarrow> x * k + y < x' * k + y' \<longleftrightarrow> x < x' \<or> (x = x' \<and> y < y')" for x y k :: nat
proof -
  assume y: "y < k" "y' < k"
  have "x * k + y < x' * k + y'" if "x < x'"
  proof -
    have "Suc x * k \<le> x' * k" using that by (intro mult_le_mono1) simp
    then show ?thesis using y by simp
  qed
  moreover have "x' * k + y' < x * k + y" if "x' < x"
  proof -
    have "Suc x' * k \<le> x * k" using that by (intro mult_le_mono1) simp
    then show ?thesis using y by simp
  qed
  ultimately show ?thesis by (cases x x' rule: linorder_cases) auto
qed

lemma info_gt_key: "info_gt a b \<longleftrightarrow> info_key b < info_key a"
proof -
  have u8: "unat (x :: u8) < 256" for x using unsigned_less [of x, where 'a = nat] by simp
  let ?k = "\<lambda>a. ((unat (domain a) * 256 + unat (bus a)) * 256 + unat (slot a)) * 256 + unat (func a)"
  have key: "info_key a = ?k a" for a by (simp add: info_key_def algebra_simps)
  have "info_key b < info_key a \<longleftrightarrow> unat (domain b) < unat (domain a) \<or> (unat (domain b) = unat (domain a) \<and>
    (unat (bus b) < unat (bus a) \<or> (unat (bus b) = unat (bus a) \<and>
    (unat (slot b) < unat (slot a) \<or> (unat (slot b) = unat (slot a) \<and> unat (func b) < unat (func a))))))"
  proof -
    have eq: "x * 256 + y = x' * 256 + y' \<longleftrightarrow> x = x' \<and> y = y'" if "y < 256" "y' < 256" for x y x' y' :: nat
      using that lex_step [of y 256 y' x x'] lex_step [of y' 256 y x' x] by (metis nat_neq_iff)
    show ?thesis unfolding key lex_step [OF u8 u8] eq [OF u8 u8] by blast
  qed
  then show ?thesis by (auto simp: info_gt_def word_less_nat_alt word_unat_eq_iff)
qed

lemma swap_facts:
  assumes "i < j" and "j < length xs"
  shows "mset (drop i (xs[i := xs ! j, j := xs ! i])) = mset (drop i xs)"
proof -
  have j: "j - i < length (drop i xs)" "0 < length (drop i xs)" using assms by auto
  have eq: "drop i (xs[i := xs ! j, j := xs ! i]) = (drop i xs)[0 := drop i xs ! (j - i), j - i := drop i xs ! 0]"
    using assms by (simp add: drop_update_swap)
  show ?thesis unfolding eq by (rule mset_swap [OF j(1,2)])
qed

lemma sort_inner_spec:
  assumes "i < j" and "j \<le> n" and "length xs = n" and "\<And>k. i < k \<Longrightarrow> k < j \<Longrightarrow> info_key (xs ! i) \<le> info_key (xs ! k)"
  shows "length (sort_inner n i j xs) = n \<and> take i (sort_inner n i j xs) = take i xs \<and>
    mset (drop i (sort_inner n i j xs)) = mset (drop i xs) \<and>
    (\<forall>k. i < k \<longrightarrow> k < n \<longrightarrow> info_key (sort_inner n i j xs ! i) \<le> info_key (sort_inner n i j xs ! k))"
  using assms
proof (induction n i j xs rule: sort_inner.induct)
  case (1 n i j xs)
  show ?case
  proof (cases "j < n")
    case False
    then have "sort_inner n i j xs = xs" by (subst sort_inner.simps) simp
    then show ?thesis using "1.prems" False by simp
  next
    case True
    let ?ys = "if info_gt (xs ! i) (xs ! j) then xs[i := xs ! j, j := xs ! i] else xs"
    have keep: "length ?ys = n" "take i ?ys = take i xs" "mset (drop i ?ys) = mset (drop i xs)"
      using "1.prems" True swap_facts [of i j xs] by simp_all
    have "info_key (?ys ! i) \<le> info_key (?ys ! k)" if "i < k" "k < Suc j" for k
      using "1.prems"(1,3) "1.prems"(4) [of k] that True
      by (cases "k = j") (auto simp: info_gt_key nth_list_update)
    note rest = "1.IH" [OF True _ _ keep(1) this]
    have "sort_inner n i j xs = sort_inner n i (Suc j) ?ys" using True by (subst sort_inner.simps) simp
    then show ?thesis using rest "1.prems"(1) True keep(2,3) by simp
  qed
qed

lemma sort_outer_spec:
  assumes "length xs = n" and "\<And>a b. a < i \<Longrightarrow> a < b \<Longrightarrow> b < n \<Longrightarrow> info_key (xs ! a) \<le> info_key (xs ! b)"
  shows "length (sort_outer n i xs) = n \<and> mset (sort_outer n i xs) = mset xs \<and>
    (\<forall>a b. a < b \<longrightarrow> b < n \<longrightarrow> info_key (sort_outer n i xs ! a) \<le> info_key (sort_outer n i xs ! b))"
  using assms
proof (induction n i xs rule: sort_outer.induct)
  case (1 n i xs)
  show ?case
  proof (cases "Suc i < n")
    case False
    then have "sort_outer n i xs = xs" by (subst sort_outer.simps) simp
    then show ?thesis using "1.prems" False by auto
  next
    case True
    let ?ys = "sort_inner n i (Suc i) xs"
    have in_spec: "length ?ys = n" "take i ?ys = take i xs" "mset (drop i ?ys) = mset (drop i xs)"
      "\<And>k. i < k \<Longrightarrow> k < n \<Longrightarrow> info_key (?ys ! i) \<le> info_key (?ys ! k)"
      using sort_inner_spec [of i "Suc i" n xs] "1.prems"(1) True by auto
    have "mset ?ys = mset xs"
      using in_spec(2,3) by (metis append_take_drop_id mset_append)
    moreover have "info_key (?ys ! a) \<le> info_key (?ys ! b)" if "a < Suc i" "a < b" "b < n" for a b
    proof (cases "a = i")
      case True
      then show ?thesis using in_spec(4) that by simp
    next
      case False
      then have a: "a < i" using that by simp
      have ya: "?ys ! a = xs ! a" using in_spec(2) a by (metis nth_take)
      show ?thesis
      proof (cases "b < i")
        case True
        then have "?ys ! b = xs ! b" using in_spec(2) by (metis nth_take)
        then show ?thesis using ya "1.prems"(2) [OF a] that by simp
      next
        case False
        have "drop i ?ys ! (b - i) = ?ys ! b" using False that(3) in_spec(1) by simp
        moreover have "b - i < length (drop i ?ys)" using False that(3) in_spec(1) by simp
        ultimately have "?ys ! b \<in> set (drop i ?ys)" by (metis nth_mem)
        then have "?ys ! b \<in> set (drop i xs)" using in_spec(3) by (metis mset_eq_setD)
        then obtain c where "c < length (drop i xs)" "drop i xs ! c = ?ys ! b" unfolding in_set_conv_nth by blast
        then have "i \<le> i + c" "i + c < n" "?ys ! b = xs ! (i + c)" using "1.prems"(1) by simp_all
        then show ?thesis using ya "1.prems"(2) [OF a, of "i + c"] a by simp
      qed
    qed
    moreover have "sort_outer n i xs = sort_outer n (Suc i) ?ys" using True by (subst sort_outer.simps) simp
    ultimately show ?thesis using "1.IH" [OF True in_spec(1)] by simp
  qed
qed

text \<open>For descriptors without flags in a domain below 256, the order is that of the descriptors.\<close>

lemma info_key_gpu_info: "unat x < 1099511627776 \<Longrightarrow> info_key (gpu_info_of x) = unat x"
proof -
  assume x: "unat x < 1099511627776"
  have ff: "(255 :: u64) = mask 8" "(65535 :: u64) = mask 16" by (simp_all add: mask_eq_exp_minus_1)
  have byte: "unat (ucast (drop_bit k x AND 0xff) :: u8) = unat x div 2 ^ k mod 256" for k
    by (simp add: ff unsigned_ucast_eq flip: take_bit_eq_mask)
      (simp add: unsigned_take_bit_eq take_bit_eq_mod [where 'a = nat] unsigned_drop_bit_eq drop_bit_eq_div [where 'a = nat])
  have word: "unat (ucast (drop_bit 24 x AND 0xffff) :: u16) = unat x div 16777216 mod 65536"
    by (simp add: ff unsigned_ucast_eq flip: take_bit_eq_mask)
      (simp add: unsigned_take_bit_eq take_bit_eq_mod [where 'a = nat] unsigned_drop_bit_eq drop_bit_eq_div [where 'a = nat])
  have "unat (ucast (x AND 0xff) :: u8) = unat x mod 256" using byte [of 0] by simp
  moreover have "n div 16777216 mod 65536 * 16777216 + n div 65536 mod 256 * 65536 + n div 256 mod 256 * 256 + n mod 256 = n"
    if "n < 1099511627776" for n :: nat
  proof -
    define a b c where "a = n div 256" and "b = a div 256" and "c = b div 256"
    have "n = a * 256 + n mod 256" "a = b * 256 + a mod 256" "b = c * 256 + b mod 256" by (simp_all add: a_def b_def c_def)
    moreover have "c < 65536" using that by (simp add: a_def b_def c_def div_mult2_eq [symmetric] less_mult_imp_div_less)
    moreover have "n div 65536 = b" "n div 16777216 = c" by (simp_all add: a_def b_def c_def div_mult2_eq [symmetric])
    ultimately show ?thesis by (simp add: a_def [symmetric])
  qed
  ultimately show ?thesis using x byte [of 8] byte [of 16] word by (simp add: info_key_def gpu_info_of_def)
qed

section \<open>The table of GPUs\<close>

text \<open>The descriptors of the NVIDIA devices on a bus, in the order of the enumeration.\<close>

definition gpus_of :: "pci_dev list \<Rightarrow> u64 list" where
  "gpus_of devs = map nvfs_pdevinfo (filter (\<lambda>d. pbus d \<noteq> None \<and> vendor d = PCI_VENDOR_ID_NVIDIA) devs)"

lemma those_map_Some: "those (map Some xs) = Some xs"
  by (induction xs) auto

lemma probe_devs_spec:
  assumes "\<forall>d\<in>set devs. pbus d \<noteq> None \<longrightarrow> pclass d = 0x30200" and "length xs \<le> 64"
  shows "probe_devs 0x30200 devs (map Some xs @ replicate (64 - length xs) None) (length xs) =
    (if length xs + length (gpus_of devs) \<le> 64
     then Inr (map Some (xs @ gpus_of devs) @ replicate (64 - (length xs + length (gpus_of devs))) None,
       length xs + length (gpus_of devs), True)
     else Inl Out_Of_Bounds)"
  using assms
proof (induction devs arbitrary: xs)
  case Nil
  then show ?case by (simp add: gpus_of_def)
next
  case (Cons d devs)
  have gpu: "PCI_DEV_GPU (drop_bit 8 0x30200) (vendor d) \<longleftrightarrow> vendor d = PCI_VENDOR_ID_NVIDIA" by (simp add: PCI_DEV_GPU_def)
  show ?case
  proof (cases "pbus d \<noteq> None \<and> vendor d = PCI_VENDOR_ID_NVIDIA")
    case False
    then have "gpus_of (d # devs) = gpus_of devs" by (auto simp: gpus_of_def)
    then show ?thesis using Cons False gpu by (auto simp del: not_None_eq)
  next
    case True
    then have gs: "gpus_of (d # devs) = nvfs_pdevinfo d # gpus_of devs" by (simp add: gpus_of_def)
    show ?thesis
    proof (cases "length xs < 64")
      case False
      then show ?thesis using True gs gpu Cons.prems by (auto simp del: not_None_eq)
    next
      case less: True
      have "64 - length xs = Suc (63 - length xs)" using less by simp
      then have "(map Some xs @ replicate (64 - length xs) None)[length xs := Some (nvfs_pdevinfo d)] =
          map Some (xs @ [nvfs_pdevinfo d]) @ replicate (64 - length (xs @ [nvfs_pdevinfo d])) None"
        by (simp add: list_update_append)
      then show ?thesis using True gs gpu Cons.prems Cons.IH [of "xs @ [nvfs_pdevinfo d]"] less by (simp del: not_None_eq)
    qed
  qed
qed

lemma pdevinfo_small:
  assumes "pbus pdev = Some b" and "devfn pdev < 256" and "domain_nr b < 256"
  shows "unat (nvfs_pdevinfo pdev) < 1099511627776"
proof -
  have "nvfs_pdevinfo pdev = take_bit 40 (nvfs_pdevinfo pdev)"
    using bit_devfn [OF assms(3)] by (intro bit_word_eqI) (force simp: bit_simps bit_pdevinfo [OF assms(1,2)])
  then have "unat (nvfs_pdevinfo pdev) = take_bit 40 (unat (nvfs_pdevinfo pdev))" by (metis unsigned_take_bit_eq)
  also have "\<dots> < 2 ^ 40" by (rule take_bit_nat_less_exp)
  finally show ?thesis by simp
qed

lemma sorted_gpus:
  assumes "\<forall>x\<in>set xs. unat x < 1099511627776"
  shows "map pdevinfo (sort_outer (length xs) 0 (map gpu_info_of xs)) = sort xs"
proof (rule properties_for_sort [symmetric])
  let ?ys = "sort_outer (length xs) 0 (map gpu_info_of xs)"
  have spec: "length ?ys = length xs" "mset ?ys = mset (map gpu_info_of xs)"
      "\<And>a b. a < b \<Longrightarrow> b < length xs \<Longrightarrow> info_key (?ys ! a) \<le> info_key (?ys ! b)"
    using sort_outer_spec [of "map gpu_info_of xs" "length xs" 0] by auto
  show "mset (map pdevinfo ?ys) = mset xs"
    using spec(2) by (simp add: image_mset.compositionality comp_def gpu_info_of_def)
  have el: "info_key y = unat (pdevinfo y)" if "y \<in> set ?ys" for y
  proof -
    have "y \<in> set (map gpu_info_of xs)" using that spec(2) by (metis mset_eq_setD)
    then show ?thesis using assms by (auto simp: info_key_gpu_info) (simp add: gpu_info_of_def)
  qed
  show "sorted (map pdevinfo ?ys)" unfolding sorted_iff_nth_mono_less
    using spec(1,3) el by (simp add: word_le_nat_alt)
qed

section \<open>Usage counts\<close>

definition pci_wf :: "pci_tables \<Rightarrow> bool" where
  "pci_wf s \<longleftrightarrow> length (gpu_info_table s) = MAX_GPU_DEVS \<and> length (peer_info_table s) = MAX_PEER_DEVS \<and>
     length (gpu_rank_matrix s) = MAX_GPU_DEVS \<and> (\<forall>row\<in>set (gpu_rank_matrix s). length row = MAX_PEER_DEVS) \<and>
     DEV_NUM s \<le> MAX_GPU_DEVS"

lemma pci_wf_row: "pci_wf s \<Longrightarrow> i < 64 \<Longrightarrow> length (gpu_rank_matrix s ! i) = 64"
  by (simp add: pci_wf_def)

lemma probe_devs_shape:
  assumes "probe_devs cls devs temp_info n = Inr (temp_info', n', fin)" and "n \<le> 64"
  shows "length temp_info' = length temp_info \<and> n' \<le> 64"
  using assms by (induction cls devs temp_info n rule: probe_devs.induct) (auto split: if_splits)

lemma length_those: "those xs = Some ys \<Longrightarrow> length ys = length xs"
  by (induction xs arbitrary: ys) (auto split: option.splits)

lemma find_all_shape:
  assumes "pci_wf s" and "nvfs_find_all_device_paths class_devs cls s = Inr t"
  shows "pci_wf t"
proof -
  obtain temp_info n fin where p: "probe_devs cls (class_devs cls) (replicate MAX_GPU_DEVS None) (DEV_NUM s) = Inr (temp_info, n, fin)"
    using assms(2) by (auto simp: nvfs_find_all_device_paths_def split: sum.splits)
  have n: "length temp_info = 64" "n \<le> 64" using probe_devs_shape [OF p] assms(1) by (simp_all add: pci_wf_def)
  have "length (sort_outer n 0 (map gpu_info_of xs)) = n" if "those (take n temp_info) = Some xs" for xs
    using sort_outer_spec [of "map gpu_info_of xs" n 0] length_those [OF that] n by simp
  then show ?thesis using assms n p by (auto simp: nvfs_find_all_device_paths_def pci_wf_def split: if_splits option.splits)
qed

text \<open>In well-formed tables the entries with both indices in range can be read and written.\<close>

lemma get_rank_wf: "pci_wf s \<Longrightarrow> i < 64 \<Longrightarrow> j < 64 \<Longrightarrow> get_rank s i j = Inr (gpu_rank_matrix s ! i ! j)"
  using pci_wf_row [of s i] by (simp add: get_rank_def pci_wf_def)

lemma set_count_eq:
  assumes "pci_wf s" and "i < 64" and "j < 64"
  shows "set_count s i j f = Inr (s\<lparr>gpu_rank_matrix := (gpu_rank_matrix s)[i := (gpu_rank_matrix s ! i)
    [j := (gpu_rank_matrix s ! i ! j)\<lparr>count := f (count (gpu_rank_matrix s ! i ! j))\<rparr>]]\<rparr>)"
  using assms pci_wf_row [of s i] by (simp add: set_count_def get_rank_wf set_rank_def pci_wf_def)

lemma set_count_wf:
  assumes "pci_wf s" and "i < 64" and "j < 64"
  obtains M where "set_count s i j f = Inr (s\<lparr>gpu_rank_matrix := M\<rparr>)" and "pci_wf (s\<lparr>gpu_rank_matrix := M\<rparr>)"
    and "\<And>a b. a < 64 \<Longrightarrow> b < 64 \<Longrightarrow> M ! a ! b = (if a = i \<and> b = j
      then (gpu_rank_matrix s ! i ! j)\<lparr>count := f (count (gpu_rank_matrix s ! i ! j))\<rparr> else gpu_rank_matrix s ! a ! b)"
proof
  let ?r = "(gpu_rank_matrix s ! i ! j)\<lparr>count := f (count (gpu_rank_matrix s ! i ! j))\<rparr>"
  let ?M = "(gpu_rank_matrix s)[i := (gpu_rank_matrix s ! i)[j := ?r]]"
  have len: "length (gpu_rank_matrix s) = 64" "length (gpu_rank_matrix s ! i) = 64"
    using assms pci_wf_row by (simp_all add: pci_wf_def)
  show "set_count s i j f = Inr (s\<lparr>gpu_rank_matrix := ?M\<rparr>)"
    by (rule set_count_eq [OF assms])
  show "pci_wf (s\<lparr>gpu_rank_matrix := ?M\<rparr>)"
    using assms(1) len by (auto simp: pci_wf_def dest: set_update_subset_insert [THEN subsetD])
  show "?M ! a ! b = (if a = i \<and> b = j then ?r else gpu_rank_matrix s ! a ! b)" if "a < 64" "b < 64" for a b
    using that len by (cases "a = i"; cases "b = j") (simp_all add: nth_list_update)
qed

lemma all_indices: "set [0..<64] \<subseteq> {..<64 :: nat}"
  by auto

text \<open>The sum of the counts of a row, and the loops that compute it.\<close>

fun row_sum :: "(nvfs_rank_data \<Rightarrow> bool) \<Rightarrow> nvfs_rank_data list \<Rightarrow> u64 \<Rightarrow> u64" where
  "row_sum P [] acc = acc"
| "row_sum P (r # rs) acc = row_sum P rs (if P r then acc + count r else acc)"

lemma sum_loop_wf:
  assumes "pci_wf s" and "i < 64"
  shows "sum_loop P s i [0..<64] acc = Inr (row_sum P (gpu_rank_matrix s ! i) acc)"
proof -
  have "sum_loop P s i js acc = Inr (row_sum P (map ((!) (gpu_rank_matrix s ! i)) js) acc)" if "set js \<subseteq> {..<64}" for js
    using that by (induction js arbitrary: acc) (simp_all add: get_rank_wf [OF assms])
  from this [OF all_indices] show ?thesis using map_nth [of "gpu_rank_matrix s ! i"] pci_wf_row [OF assms] by simp
qed

lemma cross_loop_wf:
  assumes "pci_wf s" and "i < 64"
  shows "cross_loop s i [0..<64] net cnt =
    Inr (row_sum (\<lambda>r. True) (gpu_rank_matrix s ! i) net, row_sum (\<lambda>r. cross r \<noteq> 0) (gpu_rank_matrix s ! i) cnt)"
proof -
  have "cross_loop s i js net cnt = Inr (row_sum (\<lambda>r. True) (map ((!) (gpu_rank_matrix s ! i)) js) net,
      row_sum (\<lambda>r. cross r \<noteq> 0) (map ((!) (gpu_rank_matrix s ! i)) js) cnt)" if "set js \<subseteq> {..<64}" for js
    using that by (induction js arbitrary: net cnt) (simp_all add: get_rank_wf [OF assms])
  from this [OF all_indices] show ?thesis using map_nth [of "gpu_rank_matrix s ! i"] pci_wf_row [OF assms] by simp
qed

lemma reset_row_wf:
  assumes "pci_wf s" and "i < 64" and "set js \<subseteq> {..<64}"
  shows "\<exists>M. reset_row s i js = Inr (s\<lparr>gpu_rank_matrix := M\<rparr>) \<and> pci_wf (s\<lparr>gpu_rank_matrix := M\<rparr>) \<and>
    (\<forall>a < 64. \<forall>b < 64. M ! a ! b = (if a = i \<and> b \<in> set js then (gpu_rank_matrix s ! a ! b)\<lparr>count := 0\<rparr> else gpu_rank_matrix s ! a ! b))"
  using assms
proof (induction js arbitrary: s)
  case Nil
  then show ?case by (intro exI [of _ "gpu_rank_matrix s"]) simp
next
  case (Cons j js)
  have j: "j < 64" "set js \<subseteq> {..<64}" using Cons.prems(3) by auto
  obtain M where M: "set_count s i j (\<lambda>_. 0) = Inr (s\<lparr>gpu_rank_matrix := M\<rparr>)" "pci_wf (s\<lparr>gpu_rank_matrix := M\<rparr>)"
    "\<And>a b. a < 64 \<Longrightarrow> b < 64 \<Longrightarrow> M ! a ! b = (if a = i \<and> b = j
      then (gpu_rank_matrix s ! i ! j)\<lparr>count := 0\<rparr> else gpu_rank_matrix s ! a ! b)"
    by (rule set_count_wf [OF Cons.prems(1,2) j(1), where f = "\<lambda>_. 0"], rule that)
  from Cons.IH [OF M(2) Cons.prems(2) j(2)] obtain N where "reset_row (s\<lparr>gpu_rank_matrix := M\<rparr>) i js = Inr (s\<lparr>gpu_rank_matrix := N\<rparr>)"
    "pci_wf (s\<lparr>gpu_rank_matrix := N\<rparr>)" "\<forall>a < 64. \<forall>b < 64. N ! a ! b = (if a = i \<and> b \<in> set js then (M ! a ! b)\<lparr>count := 0\<rparr> else M ! a ! b)"
    by auto
  then show ?case using M(1,3) by (intro exI [of _ N]) auto
qed

lemma reset_rows_wf:
  assumes "pci_wf s" and "set is \<subseteq> {..<64}"
  shows "\<exists>M. reset_rows s is = Inr (s\<lparr>gpu_rank_matrix := M\<rparr>) \<and> pci_wf (s\<lparr>gpu_rank_matrix := M\<rparr>) \<and>
    (\<forall>a < 64. \<forall>b < 64. M ! a ! b = (if a \<in> set is then (gpu_rank_matrix s ! a ! b)\<lparr>count := 0\<rparr> else gpu_rank_matrix s ! a ! b))"
  using assms
proof (induction "is" arbitrary: s)
  case Nil
  then show ?case by (intro exI [of _ "gpu_rank_matrix s"]) simp
next
  case (Cons i "is")
  have i: "i < 64" "set is \<subseteq> {..<64}" using Cons.prems(2) by auto
  from reset_row_wf [OF Cons.prems(1) i(1) all_indices] obtain M where M: "reset_row s i [0..<64] = Inr (s\<lparr>gpu_rank_matrix := M\<rparr>)"
    "pci_wf (s\<lparr>gpu_rank_matrix := M\<rparr>)" "\<forall>a < 64. \<forall>b < 64. M ! a ! b = (if a = i \<and> b \<in> set [0..<64]
      then (gpu_rank_matrix s ! a ! b)\<lparr>count := 0\<rparr> else gpu_rank_matrix s ! a ! b)" by blast
  from Cons.IH [OF M(2) i(2)] obtain N where "reset_rows (s\<lparr>gpu_rank_matrix := M\<rparr>) is = Inr (s\<lparr>gpu_rank_matrix := N\<rparr>)"
    "pci_wf (s\<lparr>gpu_rank_matrix := N\<rparr>)" "\<forall>a < 64. \<forall>b < 64. N ! a ! b = (if a \<in> set is then (M ! a ! b)\<lparr>count := 0\<rparr> else M ! a ! b)"
    by auto
  then show ?case using M(1,3) by (intro exI [of _ N]) (auto simp del: upt_rec_numeral)
qed

lemma reset_wf:
  assumes "pci_wf s"
  shows "nvfs_reset_peer_affinity_stats s = Inr (s\<lparr>gpu_rank_matrix := map (map (\<lambda>r. r\<lparr>count := 0\<rparr>)) (gpu_rank_matrix s)\<rparr>)"
proof -
  from reset_rows_wf [OF assms all_indices] obtain M where M: "reset_rows s [0..<64] = Inr (s\<lparr>gpu_rank_matrix := M\<rparr>)"
    "pci_wf (s\<lparr>gpu_rank_matrix := M\<rparr>)" "\<forall>a < 64. \<forall>b < 64. M ! a ! b = (gpu_rank_matrix s ! a ! b)\<lparr>count := 0\<rparr>"
    by auto
  have len: "length M = 64" "length (gpu_rank_matrix s) = 64" using M(2) assms by (simp_all add: pci_wf_def)
  have row: "length (M ! a) = 64" "length (gpu_rank_matrix s ! a) = 64" if "a < 64" for a
    using pci_wf_row [OF M(2) that] pci_wf_row [OF assms that] by simp_all
  have "M = map (map (\<lambda>r. r\<lparr>count := 0\<rparr>)) (gpu_rank_matrix s)"
    by (rule nth_equalityI; (rule nth_equalityI)?) (use len row M(3) in auto)
  then show ?thesis using M(1) by (simp only: nvfs_reset_peer_affinity_stats_def)
qed

lemma show_loop_wf:
  assumes "pci_wf s" and "set ijs \<subseteq> {..<64} \<times> {..<64}"
  shows "\<exists>rows. show_loop numa s ijs = Inr rows"
  using assms(2)
proof (induction ijs)
  case (Cons ij ijs)
  then obtain i j rows where "ij = (i, j)" "i < 64" "j < 64" "show_loop numa s ijs = Inr rows" by (cases ij) auto
  then show ?case using get_rank_wf [OF assms(1), of i j] by simp
qed simp

lemma row_sum_eq: "row_sum P rs acc = acc + sum_list (map (\<lambda>r. if P r then count r else 0) rs)"
  by (induction rs arbitrary: acc) (simp_all add: add.assoc)

lemma row_sum_reset: "row_sum P (map (\<lambda>r. r\<lparr>count := 0\<rparr>) rs) acc = acc"
  by (induction rs arbitrary: acc) auto

lemma row_sum_bump:
  assumes "j < length rs" and "\<And>c. P ((rs ! j)\<lparr>count := c\<rparr>) = P (rs ! j)"
  shows "row_sum P (rs[j := (rs ! j)\<lparr>count := count (rs ! j) + 1\<rparr>]) 0 = row_sum P rs 0 + (if P (rs ! j) then 1 else 0)"
proof -
  let ?f = "\<lambda>r. if P r then count r else 0"
  let ?r = "(rs ! j)\<lparr>count := count (rs ! j) + 1\<rparr>"
  have split: "rs = take j rs @ rs ! j # drop (Suc j) rs" "rs[j := ?r] = take j rs @ ?r # drop (Suc j) rs"
    using assms(1) by (simp_all add: id_take_nth_drop upd_conv_take_nth_drop)
  have "?f ?r = ?f (rs ! j) + (if P (rs ! j) then 1 else 0)" using assms(2) by simp
  then have "sum_list (map ?f (rs[j := ?r])) = sum_list (map ?f (take j rs @ rs ! j # drop (Suc j) rs)) + (if P (rs ! j) then 1 else 0)"
    unfolding split(2) by simp
  then show ?thesis unfolding row_sum_eq split(1) [symmetric] by simp
qed

lemma unat_row_sum:
  assumes "unat acc + sum_list (map (\<lambda>r. unat (count r)) rs) < 18446744073709551616"
  shows "unat (row_sum P rs acc) = unat acc + sum_list (map (\<lambda>r. if P r then unat (count r) else 0) rs)"
  using assms
proof (induction rs arbitrary: acc)
  case (Cons r rs)
  have "unat (acc + count r) = unat acc + unat (count r)" using Cons.prems by (intro unat_add_no_wrap) simp
  then show ?case using Cons by simp
qed simp

definition dist_match :: "u32 \<Rightarrow> nvfs_rank_data \<Rightarrow> bool" where
  "dist_match d r = (if BASE_PCI_DISTANCE_CROSSRP \<le> d then d \<le> ucast (pci_dist r) else ucast (pci_dist r) = d)"

lemma aggregate_wf:
  assumes "pci_wf s"
  shows "nvfs_aggregate_peer_usage_by_distance s i d = Inr (if 64 \<le> i then 0 else row_sum (dist_match d) (gpu_rank_matrix s ! i) 0)"
proof -
  have "dist_match d = (if BASE_PCI_DISTANCE_CROSSRP \<le> d then (\<lambda>r. d \<le> ucast (pci_dist r)) else (\<lambda>r. ucast (pci_dist r) = d))"
    by (simp add: fun_eq_iff dist_match_def)
  then show ?thesis using sum_loop_wf [OF assms, of i]
    by (cases "BASE_PCI_DISTANCE_CROSSRP \<le> d"; cases "i < 64")
      (simp_all add: nvfs_aggregate_peer_usage_by_distance_def del: upt_rec_numeral)
qed

lemma update_usage_wf:
  assumes "pci_wf s"
  shows "\<exists>M. nvfs_update_peer_usage jh gpu_index q s = Inr (s\<lparr>gpu_rank_matrix := M\<rparr>) \<and> pci_wf (s\<lparr>gpu_rank_matrix := M\<rparr>) \<and>
    (\<forall>a < 64. \<forall>b < 64. M ! a ! b = (if a = gpu_index \<and> b = nvfs_get_peer_hash_index jh s q
      then (gpu_rank_matrix s ! a ! b)\<lparr>count := count (gpu_rank_matrix s ! a ! b) + 1\<rparr> else gpu_rank_matrix s ! a ! b))"
proof (cases "gpu_index < 64 \<and> nvfs_get_peer_hash_index jh s q < 64")
  case True
  then obtain M where "set_count s gpu_index (nvfs_get_peer_hash_index jh s q) (\<lambda>c. c + 1) = Inr (s\<lparr>gpu_rank_matrix := M\<rparr>)"
    "pci_wf (s\<lparr>gpu_rank_matrix := M\<rparr>)"
    "\<And>a b. a < 64 \<Longrightarrow> b < 64 \<Longrightarrow> M ! a ! b = (if a = gpu_index \<and> b = nvfs_get_peer_hash_index jh s q
      then (gpu_rank_matrix s ! gpu_index ! nvfs_get_peer_hash_index jh s q)\<lparr>count :=
        count (gpu_rank_matrix s ! gpu_index ! nvfs_get_peer_hash_index jh s q) + 1\<rparr> else gpu_rank_matrix s ! a ! b)"
    using set_count_wf [OF assms, of gpu_index "nvfs_get_peer_hash_index jh s q" "\<lambda>c. c + 1"] by blast
  then show ?thesis using True by (intro exI [of _ M]) (auto simp: nvfs_update_peer_usage_def Let_def)
next
  case False
  then have "nvfs_update_peer_usage jh gpu_index q s = Inr s" by (auto simp: nvfs_update_peer_usage_def Let_def)
  then show ?thesis using False assms by (intro exI [of _ "gpu_rank_matrix s"]) auto
qed

lemma probe_devs_returns:
  assumes "length xs + length devs \<le> 64"
  shows "\<exists>ys fin. probe_devs cls devs (map Some xs @ replicate (64 - length xs) None) (length xs) =
    Inr (map Some ys @ replicate (64 - length ys) None, length ys, fin)"
  using assms
proof (induction devs arbitrary: xs)
  case Nil
  then show ?case by auto
next
  case (Cons d devs)
  have len: "length xs < 64" using Cons.prems by simp
  then have "64 - length xs = Suc (63 - length xs)" by simp
  then have upd: "(map Some xs @ replicate (64 - length xs) None)[length xs := Some (nvfs_pdevinfo d)] =
      map Some (xs @ [nvfs_pdevinfo d]) @ replicate (64 - length (xs @ [nvfs_pdevinfo d])) None"
    by (simp add: list_update_append)
  show ?case using Cons.IH [of xs] Cons.IH [of "xs @ [nvfs_pdevinfo d]"] Cons.prems len upd by auto
qed

lemma fill_wf:
  assumes "pci_wf s" and "DEV_NUM s = 0 \<and> length (class_devs 0x30200) \<le> 64"
  shows "\<exists>t. nvfs_fill_gpu2peer_distance_table_once class_devs s = Inr t \<and> pci_wf t"
proof -
  let ?s = "s\<lparr>gpu_info_table := replicate MAX_GPU_DEVS 0\<rparr>"
  obtain ys fin where p: "probe_devs 0x30200 (class_devs 0x30200) (replicate 64 None) 0 =
      Inr (map Some ys @ replicate (64 - length ys) None, length ys, fin)"
    using probe_devs_returns [of "[]" "class_devs 0x30200" "0x30200"] assms(2) by auto
  then have "\<exists>t. nvfs_find_all_device_paths class_devs 0x30200 ?s = Inr t"
    using assms(2) by (cases fin) (simp_all add: nvfs_find_all_device_paths_def those_map_Some)
  moreover have "pci_wf ?s" using assms(1) by (simp add: pci_wf_def)
  ultimately show ?thesis using find_all_shape by (auto simp: nvfs_fill_gpu2peer_distance_table_once_def)
qed

section \<open>Properties\<close>

text \<open>
  C25. The hash index of the GPUs and that of the peers return what was stored. While a table has an
  empty slot and no entry for a device, the index created for the device is such a slot, and after a
  descriptor of the device, with any attributes, is stored there, the search returns that index; with
  no slot left both report \<open>UINT_MAX\<close>. This holds for every hash function.
\<close>

theorem hash_index_roundtrip:
  assumes "length (gpu_info_table s) = 64" and "length (peer_info_table s) = 64"
    and "p \<noteq> 0" and "q AND NVFS_PDEVINFO_INFO_MASK = p"
  shows "(if 0 \<notin> set (gpu_info_table s) then nvfs_create_gpu_hash_entry jh s p = UINT_MAX
      else nvfs_create_gpu_hash_entry jh s p < 64 \<and> gpu_info_table s ! nvfs_create_gpu_hash_entry jh s p = 0 \<and>
        (nvfs_get_gpu_hash_index jh s p = UINT_MAX \<longrightarrow>
         nvfs_get_gpu_hash_index jh (s\<lparr>gpu_info_table := (gpu_info_table s)[nvfs_create_gpu_hash_entry jh s p := q]\<rparr>) p =
           nvfs_create_gpu_hash_entry jh s p)) \<and>
    (if 0 \<notin> set (peer_info_table s) then nvfs_create_peer_hash_entry jh s p = UINT_MAX
      else nvfs_create_peer_hash_entry jh s p < 64 \<and> peer_info_table s ! nvfs_create_peer_hash_entry jh s p = 0 \<and>
        (nvfs_get_peer_hash_index jh s p = UINT_MAX \<longrightarrow>
         nvfs_get_peer_hash_index jh (s\<lparr>peer_info_table := (peer_info_table s)[nvfs_create_peer_hash_entry jh s p := q]\<rparr>) p =
           nvfs_create_peer_hash_entry jh s p))"
  using assms gpus.create_full gpus.create_empty gpus.lookup_stored peers.create_full peers.create_empty peers.lookup_stored
  by simp

theorem hash_index_roundtrip_witness:
  "nvfs_get_peer_hash_index (\<lambda>a b c. a) (pci_init\<lparr>peer_info_table :=
     (peer_info_table pci_init)[nvfs_create_peer_hash_entry (\<lambda>a b c. a) pci_init 0x3b41 := 0x2013b41]\<rparr>) 0x3b41 =
   nvfs_create_peer_hash_entry (\<lambda>a b c. a) pci_init 0x3b41"
proof -
  have "nvfs_get_peer_hash_index (\<lambda>a b c. a) pci_init 0x3b41 = UINT_MAX"
    by (rule peers.lookup_miss) (simp_all add: pci_init_def)
  then show ?thesis using hash_index_roundtrip [of pci_init "0x3b41" "0x2013b41" "\<lambda>a b c. a"] by (simp add: pci_init_def)
qed

text \<open>
  C22. The table of GPUs is sorted by PCI address. When every device of the class is in a PCI domain
  below 256 and there are at most 64 NVIDIA devices, the enumeration fills the table with their
  descriptors in ascending order, each once, followed by zeros, so that the index of a GPU is its
  rank by address.
\<close>

theorem gpu_table_sorted:
  assumes "class_devs 0x30200 = devs" and "DEV_NUM s = 0" and "length (gpus_of devs) \<le> 64"
    and "\<forall>d\<in>set devs. \<forall>b. pbus d = Some b \<longrightarrow> pclass d = 0x30200 \<and> devfn d < 256 \<and> domain_nr b < 256"
  shows "nvfs_fill_gpu2peer_distance_table_once class_devs s = Inr (s\<lparr>DEV_NUM := length (gpus_of devs),
    gpu_info_table := sort (gpus_of devs) @ replicate (64 - length (gpus_of devs)) 0\<rparr>)"
proof -
  have cls: "\<forall>d\<in>set devs. pbus d \<noteq> None \<longrightarrow> pclass d = 0x30200" using assms(4) by auto
  have "\<forall>x\<in>set (gpus_of devs). unat x < 1099511627776" using assms(4) pdevinfo_small by (fastforce simp: gpus_of_def)
  from sorted_gpus [OF this] show ?thesis
    using probe_devs_spec [OF cls, of "[]"] assms(1-3)
    by (simp add: nvfs_fill_gpu2peer_distance_table_once_def nvfs_find_all_device_paths_def those_map_Some)
qed

text \<open>Two GPUs, enumerated in descending order.\<close>

definition gpu_at :: "u32 \<Rightarrow> u8 \<Rightarrow> pci_dev" where
  "gpu_at d b = \<lparr>pbus = Some \<lparr>domain_nr = d, bus_number = b\<rparr>, devfn = 0, pclass = 0x30200, vendor = PCI_VENDOR_ID_NVIDIA\<rparr>"

theorem gpu_table_sorted_witness:
  "nvfs_fill_gpu2peer_distance_table_once (\<lambda>c. [gpu_at 0 0x3b, gpu_at 0 0x1e]) pci_init =
     Inr (pci_init\<lparr>DEV_NUM := 2, gpu_info_table := [0x1e00, 0x3b00] @ replicate 62 0\<rparr>)"
proof -
  have g: "gpus_of [gpu_at 0 0x3b, gpu_at 0 0x1e] = [0x3b00, 0x1e00]"
    by (simp add: gpus_of_def gpu_at_def nvfs_pdevinfo_def PCI_DEVID_def)
  show ?thesis
    using gpu_table_sorted [of "\<lambda>c. [gpu_at 0 0x3b, gpu_at 0 0x1e]" "[gpu_at 0 0x3b, gpu_at 0 0x1e]" pci_init, OF refl, unfolded g]
    by (simp add: pci_init_def gpu_at_def)
qed

text \<open>
  Too many GPUs overflow a stack array. With more than 64 NVIDIA devices of the class the
  enumeration writes behind the end of \<open>temp_info\<close>.
\<close>

theorem gpu_table_overflow:
  assumes "class_devs 0x30200 = devs" and "DEV_NUM s = 0" and "64 < length (gpus_of devs)"
    and "\<forall>d\<in>set devs. pbus d \<noteq> None \<longrightarrow> pclass d = 0x30200"
  shows "nvfs_fill_gpu2peer_distance_table_once class_devs s = Inl Out_Of_Bounds"
  using probe_devs_spec [OF assms(4), of "[]"] assms(1-3)
  by (simp add: nvfs_fill_gpu2peer_distance_table_once_def nvfs_find_all_device_paths_def)

theorem gpu_table_overflow_witness:
  "nvfs_fill_gpu2peer_distance_table_once (\<lambda>c. replicate 65 (gpu_at 0 0x3b)) pci_init = Inl Out_Of_Bounds"
  by (rule gpu_table_overflow [OF refl]) (simp_all add: pci_init_def gpus_of_def gpu_at_def)

text \<open>
  The sort key drops the upper byte of the domain: the code takes the domain from bits 24 to 39
  of a descriptor that keeps it in bits 32 to 63. A GPU in domain 256 is put before one in domain 1.
\<close>

theorem gpu_table_domain_order:
  "nvfs_fill_gpu2peer_distance_table_once (\<lambda>c. [gpu_at 1 0x3b, gpu_at 256 0x3b]) pci_init =
     Inr (pci_init\<lparr>DEV_NUM := 2, gpu_info_table := [0x10000003b00, 0x100003b00] @ replicate 62 0\<rparr>)"
proof -
  have probe: "probe_devs 0x30200 [gpu_at 1 0x3b, gpu_at 256 0x3b] (replicate 64 None) 0 =
      Inr (map Some [0x100003b00, 0x10000003b00] @ replicate 62 None, 2, True)"
    using probe_devs_spec [of "[gpu_at 1 0x3b, gpu_at 256 0x3b]" "[]"]
    by (simp add: gpus_of_def gpu_at_def nvfs_pdevinfo_def PCI_DEVID_def)
  have gt: "info_gt (gpu_info_of 0x100003b00) (gpu_info_of 0x10000003b00)" by (simp add: info_gt_def gpu_info_of_def)
  have "sort_outer 2 0 [a, b] = [b, a]" if "info_gt a b" for a b
    using that by (simp add: sort_outer.simps sort_inner.simps)
  then have "map pdevinfo (sort_outer 2 0 (map gpu_info_of [0x100003b00, 0x10000003b00])) = [0x10000003b00, 0x100003b00]"
    using gt by simp (simp add: gpu_info_of_def)
  then show ?thesis
    using probe by (simp add: nvfs_fill_gpu2peer_distance_table_once_def nvfs_find_all_device_paths_def pci_init_def those_map_Some)
qed

text \<open>
  C29. The tables keep their shape and no entry behind their end is used. In tables with 64 entries in each index and 64 rows of
  64 ranks, for every GPU index, descriptor and hash function, recording a transfer returns: it adds one to the entry
  of the pair if the GPU index is below 64 and the peer is in the index, and changes no other entry. A reset returns with every count zero.
  The distance, the two aggregates and the distance map return. The enumeration returns when it runs first and there are at most 64 devices
  of the class. All of them leave tables of that shape, as the initial ones are.
\<close>

theorem pci_tables_shape:
  assumes "pci_wf s"
  shows "(\<exists>M. nvfs_update_peer_usage jh gpu_index q s = Inr (s\<lparr>gpu_rank_matrix := M\<rparr>) \<and> pci_wf (s\<lparr>gpu_rank_matrix := M\<rparr>) \<and>
      (\<forall>a < 64. \<forall>b < 64. M ! a ! b = (if a = gpu_index \<and> b = nvfs_get_peer_hash_index jh s q
        then (gpu_rank_matrix s ! a ! b)\<lparr>count := count (gpu_rank_matrix s ! a ! b) + 1\<rparr> else gpu_rank_matrix s ! a ! b))) \<and>
    (\<exists>t. nvfs_reset_peer_affinity_stats s = Inr t \<and> pci_wf t \<and> (\<forall>a < 64. \<forall>b < 64. count (gpu_rank_matrix t ! a ! b) = 0)) \<and>
    (\<exists>r. nvfs_get_gpu2peer_distance jh s dev gpu_index = Inr r) \<and>
    (\<exists>n. nvfs_aggregate_peer_usage_by_distance s gpu_index dist = Inr n) \<and>
    (\<exists>n. nvfs_aggregate_cross_peer_usage s gpu_index = Inr n) \<and>
    (\<exists>rows. nvfs_peer_distance_show numa s = Inr rows) \<and>
    (DEV_NUM s = 0 \<and> length (class_devs 0x30200) \<le> 64 \<longrightarrow>
      (\<exists>t. nvfs_fill_gpu2peer_distance_table_once class_devs s = Inr t \<and> pci_wf t)) \<and> pci_wf pci_init"
proof (intro conjI impI)
  show "\<exists>t. nvfs_reset_peer_affinity_stats s = Inr t \<and> pci_wf t \<and> (\<forall>a < 64. \<forall>b < 64. count (gpu_rank_matrix t ! a ! b) = 0)"
    using assms pci_wf_row [OF assms] unfolding reset_wf [OF assms] by (auto simp: pci_wf_def)
  show "\<exists>r. nvfs_get_gpu2peer_distance jh s dev gpu_index = Inr r"
    using get_rank_wf [OF assms] by (auto simp: nvfs_get_gpu2peer_distance_def Let_def not_le split: option.split)
  show "\<exists>n. nvfs_aggregate_cross_peer_usage s gpu_index = Inr n"
    by (simp add: nvfs_aggregate_cross_peer_usage_def cross_loop_wf [OF assms] del: upt_rec_numeral)
  show "\<exists>rows. nvfs_peer_distance_show numa s = Inr rows"
    unfolding nvfs_peer_distance_show_def by (rule show_loop_wf [OF assms]) auto
  show "pci_wf pci_init" by (simp add: pci_wf_def pci_init_def)
qed (use update_usage_wf [OF assms] aggregate_wf [OF assms] fill_wf [OF assms] in blast)+

theorem pci_tables_shape_witness:
  "\<exists>M. nvfs_update_peer_usage (\<lambda>a b c. a) 64 0x3b41 pci_init = Inr (pci_init\<lparr>gpu_rank_matrix := M\<rparr>) \<and>
     pci_wf (pci_init\<lparr>gpu_rank_matrix := M\<rparr>)"
proof -
  have "pci_wf pci_init" by (simp add: pci_wf_def pci_init_def)
  from pci_tables_shape [OF this] show ?thesis by blast
qed

text \<open>
  Usage counts count. Recording a transfer between a GPU and a peer that is in the index adds one
  to the aggregate of that GPU at the distance of the pair and to no other; for an unknown peer or GPU
  nothing changes; after a reset every aggregate is zero.
\<close>

theorem usage_counted:
  assumes "pci_wf s" and "gpu_index < 64"
  shows "\<exists>t c. nvfs_update_peer_usage jh gpu_index q s = Inr t \<and> nvfs_aggregate_peer_usage_by_distance s i d = Inr c \<and>
    nvfs_aggregate_peer_usage_by_distance t i d = Inr (c +
      (if i = gpu_index \<and> nvfs_get_peer_hash_index jh s q < 64 \<and>
          dist_match d (gpu_rank_matrix s ! gpu_index ! nvfs_get_peer_hash_index jh s q) then 1 else 0)) \<and>
    (\<exists>u. nvfs_reset_peer_affinity_stats s = Inr u \<and> nvfs_aggregate_peer_usage_by_distance u i d = Inr 0)"
proof -
  let ?j = "nvfs_get_peer_hash_index jh s q"
  let ?row = "gpu_rank_matrix s ! gpu_index"
  have len: "length ?row = 64" "length (gpu_rank_matrix s) = 64" using assms pci_wf_row by (simp_all add: pci_wf_def)
  obtain t where t: "nvfs_update_peer_usage jh gpu_index q s = Inr t" "pci_wf t" using update_usage_wf [OF assms(1)] by blast
  obtain u where u: "nvfs_reset_peer_affinity_stats s = Inr u" "pci_wf u"
    "gpu_rank_matrix u = map (map (\<lambda>r. r\<lparr>count := 0\<rparr>)) (gpu_rank_matrix s)"
    unfolding reset_wf [OF assms(1)] using assms(1) by (auto simp: pci_wf_def)
  have "nvfs_aggregate_peer_usage_by_distance u i d = Inr 0"
    using len(2) u(3) by (simp add: aggregate_wf [OF u(2)] row_sum_reset)
  moreover have "(if 64 \<le> i then 0 else row_sum (dist_match d) (gpu_rank_matrix t ! i) 0) =
      (if 64 \<le> i then 0 else row_sum (dist_match d) (gpu_rank_matrix s ! i) 0) +
      (if i = gpu_index \<and> ?j < 64 \<and> dist_match d (?row ! ?j) then 1 else 0)"
  proof (cases "?j < 64")
    case True
    then have "gpu_rank_matrix t = (gpu_rank_matrix s)[gpu_index := ?row[?j := (?row ! ?j)\<lparr>count := count (?row ! ?j) + 1\<rparr>]]"
      using t(1) assms by (auto simp: nvfs_update_peer_usage_def Let_def set_count_eq)
    moreover have "row_sum (dist_match d) (?row[?j := (?row ! ?j)\<lparr>count := count (?row ! ?j) + 1\<rparr>]) 0 =
        row_sum (dist_match d) ?row 0 + (if dist_match d (?row ! ?j) then 1 else 0)"
      by (rule row_sum_bump) (use True len in \<open>simp_all add: dist_match_def\<close>)
    ultimately show ?thesis using True assms(2) len(2) by (cases "i = gpu_index") auto
  next
    case False
    then show ?thesis using t(1) by (simp add: nvfs_update_peer_usage_def Let_def)
  qed
  ultimately show ?thesis using t u(1) aggregate_wf [OF assms(1), of i d] aggregate_wf [OF t(2), of i d] by auto
qed

theorem usage_counted_witness:
  "\<exists>u. nvfs_reset_peer_affinity_stats pci_init = Inr u \<and> nvfs_aggregate_peer_usage_by_distance u 3 0 = Inr 0"
proof -
  have "pci_wf pci_init" "(3 :: nat) < 64" by (simp_all add: pci_wf_def pci_init_def)
  from usage_counted [OF this, of "\<lambda>a b c. a" "0x3b41" 3 0] show ?thesis by blast
qed

text \<open>
  The cross-node percentage is a percentage: as long as a hundred times the number of transfers of
  a GPU fits in 64 bits, the result is the exact quotient, at most 100.
\<close>

theorem cross_usage_percentage:
  assumes "pci_wf s" and "i < 64" and "100 * sum_list (map (\<lambda>r. unat (count r)) (gpu_rank_matrix s ! i)) < 18446744073709551616"
  shows "\<exists>pc. nvfs_aggregate_cross_peer_usage s i = Inr pc \<and> unat pc =
      100 * sum_list (map (\<lambda>r. if cross r \<noteq> 0 then unat (count r) else 0) (gpu_rank_matrix s ! i)) div
        sum_list (map (\<lambda>r. unat (count r)) (gpu_rank_matrix s ! i)) \<and> pc \<le> 100"
proof -
  let ?rs = "gpu_rank_matrix s ! i"
  let ?c = "sum_list (map (\<lambda>r. if cross r \<noteq> 0 then unat (count r) else 0) ?rs)" and ?n = "sum_list (map (\<lambda>r. unat (count r)) ?rs)"
  have le: "?c \<le> ?n" by (rule sum_list_mono) simp
  have net: "unat (row_sum (\<lambda>r. True) ?rs 0) = ?n" using unat_row_sum [of 0 ?rs "\<lambda>r. True"] assms(3) by simp
  have cnt: "unat (row_sum (\<lambda>r. cross r \<noteq> 0) ?rs 0) = ?c" using unat_row_sum [of 0 ?rs] assms(3) by simp
  have hundred: "unat (100 * row_sum (\<lambda>r. cross r \<noteq> 0) ?rs 0) = 100 * ?c"
    using cnt le assms(3) by (simp add: unat_word_ariths)
  have pc: "100 * ?c div ?n \<le> 100"
  proof (cases "?n = 0")
    case False
    have "100 * ?c div ?n \<le> 100 * ?n div ?n" by (rule div_le_mono) (use le in simp)
    then show ?thesis using False by simp
  next
    case True
    show ?thesis unfolding True by simp
  qed
  let ?pc = "if row_sum (\<lambda>r. True) ?rs 0 \<noteq> 0
    then ucast ((100 * row_sum (\<lambda>r. cross r \<noteq> 0) ?rs 0) div row_sum (\<lambda>r. True) ?rs 0) else 0 :: u32"
  have "unat ?pc = 100 * ?c div ?n"
  proof (cases "?n = 0")
    case True
    have "row_sum (\<lambda>r. True) ?rs 0 = 0" using net unfolding True unat_eq_zero .
    then show ?thesis unfolding True by simp
  next
    case False
    then have "row_sum (\<lambda>r. True) ?rs 0 \<noteq> 0" using net by auto
    then have "unat ?pc = 100 * ?c div ?n mod 4294967296" using hundred net by (simp add: unat_ucast_u32 unat_div)
    then show ?thesis using pc by simp
  qed
  moreover have "nvfs_aggregate_cross_peer_usage s i = Inr ?pc"
    using assms(2) by (simp add: nvfs_aggregate_cross_peer_usage_def cross_loop_wf [OF assms(1,2)] del: upt_rec_numeral)
  ultimately show ?thesis using pc by (intro exI [of _ ?pc]) (simp add: word_le_nat_alt)
qed

theorem cross_usage_percentage_witness:
  "\<exists>pc. nvfs_aggregate_cross_peer_usage pci_init 3 = Inr pc \<and> pc \<le> 100"
proof -
  have "pci_wf pci_init" "(3 :: nat) < 64" by (simp_all add: pci_wf_def pci_init_def)
  moreover have "100 * sum_list (map (\<lambda>r. unat (count r)) (gpu_rank_matrix pci_init ! 3)) < 18446744073709551616"
    by (simp add: pci_init_def sum_list_replicate)
  ultimately show ?thesis using cross_usage_percentage by blast
qed

end
