(* ===== verification/Kmod_P2p.thy ===== *)
theory Kmod_P2p
  imports Fgds_Prelude
begin

text \<open>
  The binding of the kernel module to the NVIDIA peer-to-peer interface (module/nvfs-p2p.c): six static
  function pointers that are looked up by name when the module is loaded, wrappers that call through
  them, and their release.

  \<open>available f\<close> says whether the kernel's \<open>__symbol_get\<close> finds a symbol. A successful lookup takes a
  reference on the driver that exports it and \<open>__symbol_put\<close> drops one; \<open>sym_refs\<close> counts them. The
  module mutex that old kernels take around the lookups is left out.
\<close>

section \<open>Model\<close>

datatype p2p_sym = Dma_Unmap_Pages | Get_Pages | Put_Pages | Dma_Map_Pages | Free_Dma_Mapping | Free_Page_Table

record p2p_state =
  p2p_ptr :: "p2p_sym \<Rightarrow> bool"
  sym_refs :: "p2p_sym \<Rightarrow> int"

definition all_syms :: "p2p_sym list" where
  "all_syms = [Dma_Unmap_Pages, Get_Pages, Put_Pages, Dma_Map_Pages, Free_Dma_Mapping, Free_Page_Table]"

definition put_symbol :: "p2p_sym \<Rightarrow> p2p_state \<Rightarrow> p2p_state" where
  "put_symbol f s = (if p2p_ptr s f then s\<lparr>sym_refs := (sym_refs s)(f := sym_refs s f - 1)\<rparr> else s)"

definition nvfs_nvidia_put_symbols :: "p2p_state \<Rightarrow> p2p_state" where
  "nvfs_nvidia_put_symbols s = (fold put_symbol all_syms s)\<lparr>p2p_ptr := \<lambda>_. False\<rparr>"

text \<open>The lookups in order; false at the first that fails.\<close>

fun get_symbols :: "(p2p_sym \<Rightarrow> bool) \<Rightarrow> p2p_sym list \<Rightarrow> p2p_state \<Rightarrow> bool \<times> p2p_state" where
  "get_symbols available [] s = (True, s)"
| "get_symbols available (f # fs) s =
     (if p2p_ptr s f then get_symbols available fs s
      else if available f then
        get_symbols available fs (s\<lparr>p2p_ptr := (p2p_ptr s)(f := True), sym_refs := (sym_refs s)(f := sym_refs s f + 1)\<rparr>)
      else (False, s))"

definition nvfs_nvidia_p2p_init :: "(p2p_sym \<Rightarrow> bool) \<Rightarrow> p2p_state \<Rightarrow> int \<times> p2p_state" where
  "nvfs_nvidia_p2p_init available s = (case get_symbols available all_syms s of
     (True, t) \<Rightarrow> (0, t)
   | (False, t) \<Rightarrow> (-1, nvfs_nvidia_put_symbols t))"

definition nvfs_nvidia_p2p_exit :: "p2p_state \<Rightarrow> p2p_state" where
  "nvfs_nvidia_p2p_exit s = nvfs_nvidia_put_symbols s"

text \<open>
  The wrappers. The driver's functions are the arguments \<open>fn\<close>: they return a value of the caller's
  type, with \<open>err\<close> making one of an error number.
\<close>

definition nvfs_nvidia_p2p_dma_unmap_pages :: "p2p_state \<Rightarrow> (int \<Rightarrow> 'r) \<Rightarrow> ('d \<Rightarrow> 'p \<Rightarrow> 'm \<Rightarrow> 'r) \<Rightarrow> 'd \<Rightarrow> 'p \<Rightarrow> 'm \<Rightarrow> 'r" where
  "nvfs_nvidia_p2p_dma_unmap_pages s err fn peer page_table dma_mapping =
     (if p2p_ptr s Dma_Unmap_Pages then fn peer page_table dma_mapping else err (- EOPNOTSUPP))"

definition nvfs_nvidia_p2p_get_pages :: "p2p_state \<Rightarrow> (int \<Rightarrow> 'r) \<Rightarrow> (u64 \<Rightarrow> u32 \<Rightarrow> u64 \<Rightarrow> u64 \<Rightarrow> 'r) \<Rightarrow>
    u64 \<Rightarrow> u32 \<Rightarrow> u64 \<Rightarrow> u64 \<Rightarrow> 'r" where
  "nvfs_nvidia_p2p_get_pages s err fn p2p_token va_space virtual_address len =
     (if p2p_ptr s Get_Pages then fn p2p_token va_space virtual_address len else err (- EOPNOTSUPP))"

definition nvfs_nvidia_p2p_put_pages :: "p2p_state \<Rightarrow> (int \<Rightarrow> 'r) \<Rightarrow> (u64 \<Rightarrow> u32 \<Rightarrow> u64 \<Rightarrow> 'p \<Rightarrow> 'r) \<Rightarrow>
    u64 \<Rightarrow> u32 \<Rightarrow> u64 \<Rightarrow> 'p \<Rightarrow> 'r" where
  "nvfs_nvidia_p2p_put_pages s err fn p2p_token va_space virtual_address page_table =
     (if p2p_ptr s Put_Pages then fn p2p_token va_space virtual_address page_table else err (- EOPNOTSUPP))"

definition nvfs_nvidia_p2p_dma_map_pages :: "p2p_state \<Rightarrow> (int \<Rightarrow> 'r) \<Rightarrow> ('d \<Rightarrow> 'p \<Rightarrow> 'r) \<Rightarrow> 'd \<Rightarrow> 'p \<Rightarrow> 'r" where
  "nvfs_nvidia_p2p_dma_map_pages s err fn peer page_table =
     (if p2p_ptr s Dma_Map_Pages then fn peer page_table else err (- EOPNOTSUPP))"

definition nvfs_nvidia_p2p_free_dma_mapping :: "p2p_state \<Rightarrow> (int \<Rightarrow> 'r) \<Rightarrow> ('m \<Rightarrow> 'r) \<Rightarrow> 'm \<Rightarrow> 'r" where
  "nvfs_nvidia_p2p_free_dma_mapping s err fn dma_mapping =
     (if p2p_ptr s Free_Dma_Mapping then fn dma_mapping else err (- EOPNOTSUPP))"

definition nvfs_nvidia_p2p_free_page_table :: "p2p_state \<Rightarrow> (int \<Rightarrow> 'r) \<Rightarrow> ('p \<Rightarrow> 'r) \<Rightarrow> 'p \<Rightarrow> 'r" where
  "nvfs_nvidia_p2p_free_page_table s err fn page_table =
     (if p2p_ptr s Free_Page_Table then fn page_table else err (- EOPNOTSUPP))"

section \<open>References\<close>

definition p2p_none :: "p2p_state" where
  "p2p_none = \<lparr>p2p_ptr = \<lambda>_. False, sym_refs = \<lambda>_. 0\<rparr>"

text \<open>Every pointer that is set holds one reference, taken on top of \<open>base\<close>.\<close>

definition refs_held :: "(p2p_sym \<Rightarrow> int) \<Rightarrow> p2p_state \<Rightarrow> bool" where
  "refs_held base s \<longleftrightarrow> (\<forall>f. sym_refs s f = base f + (if p2p_ptr s f then 1 else 0))"

lemma all_syms_set: "f \<in> set all_syms" "distinct all_syms"
  by (cases f) (simp_all add: all_syms_def)

lemma fold_put_symbol:
  assumes "distinct fs"
  shows "p2p_ptr (fold put_symbol fs s) = p2p_ptr s"
    and "sym_refs (fold put_symbol fs s) f = sym_refs s f - (if f \<in> set fs \<and> p2p_ptr s f then 1 else 0)"
  using assms by (induction fs arbitrary: s) (auto simp: put_symbol_def)

lemma put_symbols_held:
  assumes "refs_held base s"
  shows "nvfs_nvidia_put_symbols s = \<lparr>p2p_ptr = \<lambda>_. False, sym_refs = base\<rparr>"
proof -
  have "sym_refs (nvfs_nvidia_put_symbols s) f = base f" for f
    using assms fold_put_symbol(2) [OF all_syms_set(2), of s f] all_syms_set(1) [of f]
    by (simp add: nvfs_nvidia_put_symbols_def refs_held_def)
  then show ?thesis by (simp add: nvfs_nvidia_put_symbols_def fun_eq_iff)
qed

lemma refs_held_get: "refs_held base s \<Longrightarrow> \<not> p2p_ptr s g \<Longrightarrow>
    refs_held base (s\<lparr>p2p_ptr := (p2p_ptr s)(g := True), sym_refs := (sym_refs s)(g := sym_refs s g + 1)\<rparr>)"
  by (auto simp: refs_held_def)

lemma get_symbols_refs: "refs_held base s \<Longrightarrow> refs_held base (snd (get_symbols available fs s))"
  by (induction fs arbitrary: s) (simp_all add: refs_held_get)

lemma get_symbols_ok: "fst (get_symbols available fs s) \<longleftrightarrow> (\<forall>f\<in>set fs. p2p_ptr s f \<or> available f)"
proof (induction fs arbitrary: s)
  case (Cons g fs)
  show ?case
  proof (cases "p2p_ptr s g")
    case True
    then show ?thesis by (simp add: Cons.IH)
  next
    case False
    then show ?thesis by (auto simp: Cons.IH)
  qed
qed simp

lemma get_symbols_ptr:
  "fst (get_symbols available fs s) \<Longrightarrow> f \<in> set fs \<or> p2p_ptr s f \<Longrightarrow> p2p_ptr (snd (get_symbols available fs s)) f"
proof (induction fs arbitrary: s)
  case (Cons g fs)
  show ?case
  proof (cases "p2p_ptr s g")
    case True
    then show ?thesis using Cons.IH [of s] Cons.prems by auto
  next
    case False
    then show ?thesis using Cons by auto
  qed
qed simp

lemma p2p_init_ok:
  assumes "refs_held base s" and "\<forall>f. p2p_ptr s f \<or> available f"
  shows "nvfs_nvidia_p2p_init available s = (0, \<lparr>p2p_ptr = \<lambda>_. True, sym_refs = \<lambda>f. base f + 1\<rparr>)"
proof -
  obtain ok u where g: "get_symbols available all_syms s = (ok, u)" by fastforce
  have ok: "ok" using get_symbols_ok [of available all_syms s] g assms(2) by simp
  have ptr: "p2p_ptr u = (\<lambda>_. True)" using get_symbols_ptr [of available all_syms s] g ok all_syms_set(1) by auto
  have "sym_refs u = (\<lambda>f. base f + 1)" using get_symbols_refs [OF assms(1), of available all_syms] g ptr by (auto simp: refs_held_def)
  then have "u = \<lparr>p2p_ptr = \<lambda>_. True, sym_refs = \<lambda>f. base f + 1\<rparr>" using ptr by simp
  then show ?thesis using g ok by (simp add: nvfs_nvidia_p2p_init_def)
qed

lemma p2p_init_failed:
  assumes "refs_held base s" and "\<not> (\<forall>f. p2p_ptr s f \<or> available f)"
  shows "nvfs_nvidia_p2p_init available s = (-1, \<lparr>p2p_ptr = \<lambda>_. False, sym_refs = base\<rparr>)"
proof -
  obtain ok u where g: "get_symbols available all_syms s = (ok, u)" by fastforce
  have "\<not> ok" using get_symbols_ok [of available all_syms s] g assms(2) all_syms_set(1) by auto
  moreover have "refs_held base u" using get_symbols_refs [OF assms(1), of available all_syms] g by simp
  ultimately show ?thesis using g put_symbols_held by (simp add: nvfs_nvidia_p2p_init_def)
qed

section \<open>Properties\<close>

text \<open>
  C26. Binding the interface is all or nothing. Started with references that match the pointers,
  \<open>nvfs_nvidia_p2p_init\<close> returns 0 exactly if every symbol not bound yet is available, and then all six are
  bound with one reference each; otherwise it returns -1 with no pointer set and every reference
  dropped. Releasing the interface afterwards, and binding it twice, lose no reference.
\<close>

theorem p2p_init_all_or_nothing:
  assumes "refs_held base s" and "nvfs_nvidia_p2p_init available s = (r, t)"
  shows "(r = 0 \<longleftrightarrow> (\<forall>f. p2p_ptr s f \<or> available f)) \<and>
    (if r = 0 then t = \<lparr>p2p_ptr = \<lambda>_. True, sym_refs = \<lambda>f. base f + 1\<rparr> \<and> nvfs_nvidia_p2p_init available t = (0, t)
     else r = -1 \<and> t = \<lparr>p2p_ptr = \<lambda>_. False, sym_refs = base\<rparr>) \<and>
    nvfs_nvidia_p2p_exit t = \<lparr>p2p_ptr = \<lambda>_. False, sym_refs = base\<rparr>"
proof -
  have held: "refs_held base \<lparr>p2p_ptr = \<lambda>_. True, sym_refs = \<lambda>f. base f + 1\<rparr>"
      "refs_held base \<lparr>p2p_ptr = \<lambda>_. False, sym_refs = base\<rparr>" by (simp_all add: refs_held_def)
  show ?thesis
  proof (cases "\<forall>f. p2p_ptr s f \<or> available f")
    case True
    have "nvfs_nvidia_p2p_init available \<lparr>p2p_ptr = \<lambda>_. True, sym_refs = \<lambda>f. base f + 1\<rparr> =
        (0, \<lparr>p2p_ptr = \<lambda>_. True, sym_refs = \<lambda>f. base f + 1\<rparr>)" by (rule p2p_init_ok [OF held(1)]) simp
    then show ?thesis using True assms(2) p2p_init_ok [OF assms(1) True] put_symbols_held [OF held(1)]
      by (simp add: nvfs_nvidia_p2p_exit_def)
  next
    case False
    then show ?thesis using assms(2) p2p_init_failed [OF assms(1) False] put_symbols_held [OF held(2)]
      by (simp add: nvfs_nvidia_p2p_exit_def)
  qed
qed

theorem p2p_init_all_or_nothing_witness:
  "fst (nvfs_nvidia_p2p_init (\<lambda>f. f \<noteq> Free_Page_Table) p2p_none) = -1 \<and>
   sym_refs (snd (nvfs_nvidia_p2p_init (\<lambda>f. f \<noteq> Free_Page_Table) p2p_none)) Get_Pages = 0"
proof -
  obtain r t where i: "nvfs_nvidia_p2p_init (\<lambda>f. f \<noteq> Free_Page_Table) p2p_none = (r, t)" by fastforce
  have "refs_held (\<lambda>_. 0) p2p_none" by (simp add: refs_held_def p2p_none_def)
  from p2p_init_all_or_nothing [OF this i] show ?thesis using i by (auto simp: p2p_none_def split: if_splits)
qed

end
