(* ===== verification/Kmod_Ctrl.thy ===== *)
theory Kmod_Ctrl
  imports Kmod_Pci Kmod_P2p
begin

text \<open>
  The control part of the kernel module (module/fgds.c): the choice of GPUs, the mapping of their BAR
  memory into the kernel, the character devices, opening them, and loading and unloading the module.

  The kernel's services are the fields of a record \<open>'w kenv\<close> of functions on an abstract world, passed
  to every definition that uses them; the calls that acquire or release something are logged in
  \<open>klog\<close>. A kernel pointer that may be an error pointer is a 64 bit word, with the kernel's
  \<open>IS_ERR_OR_NULL\<close> on it.
\<close>

section \<open>State and environment\<close>

abbreviation MAX_DEV_NUM :: nat where "MAX_DEV_NUM \<equiv> 16"
abbreviation FGDS_MINORS :: nat where "FGDS_MINORS \<equiv> 1"
abbreviation PCI_STD_NUM_BARS :: nat where "PCI_STD_NUM_BARS \<equiv> 6"

text \<open>
  The fields of \<open>struct fgds_dev\<close> that the code uses. \<open>bar_size\<close> and \<open>remapped\<close> are \<open>size\<close> and \<open>remap\<close>; the
  page map is present while it is allocated, with the range it describes.
\<close>

record fgds_dev =
  pdev :: "nat option"
  bar_size :: u64
  paddr :: u64
  idx :: nat
  p2p_pgmap :: "(u64 \<times> u64) option"
  pci_mem_va :: u64
  remapped :: bool

datatype class_ptr = Class_Null | Class_Ok | Class_Err

datatype kcall =
    K_pci_get nat | K_pci_put "nat option"
  | K_pgmap_alloc nat | K_pgmap_free nat
  | K_remap nat u64 u64 u64 | K_unremap nat u64 u64
  | K_ioremap u64 u64 bool
  | K_chrdev nat int | K_unchrdev nat
  | K_class int | K_class_destroy class_ptr
  | K_cdev_add nat int | K_cdev_del nat

record 'w ktl =
  gpu_dev :: "fgds_dev list"
  dev_num :: nat
  chr_class :: class_ptr
  kworld :: 'w
  klog :: "kcall list"

record 'w kenv =
  k_get_slot :: "u32 \<Rightarrow> u32 \<Rightarrow> u32 \<Rightarrow> 'w \<Rightarrow> nat option \<times> 'w"
  k_bar_len :: "nat \<Rightarrow> nat \<Rightarrow> u64"
  k_bar_start :: "nat \<Rightarrow> nat \<Rightarrow> u64"
  k_zalloc :: "'w \<Rightarrow> bool \<times> 'w"
  k_memremap_pages :: "u64 \<Rightarrow> u64 \<Rightarrow> 'w \<Rightarrow> u64 \<times> 'w"
  k_ioremap :: "u64 \<Rightarrow> u64 \<Rightarrow> 'w \<Rightarrow> bool \<times> 'w"
  k_alloc_chrdev :: "nat \<Rightarrow> 'w \<Rightarrow> int \<times> 'w"
  k_class_create :: "'w \<Rightarrow> int \<times> 'w"
  k_dev_set_name :: "string \<Rightarrow> 'w \<Rightarrow> int \<times> 'w"
  k_cdev_device_add :: "nat \<Rightarrow> 'w \<Rightarrow> int \<times> 'w"

record module_params =
  use_all_gpus :: int
  gpuids :: "int list"
  gpuids_count :: nat

definition dev_init :: fgds_dev where
  "dev_init = \<lparr>pdev = None, bar_size = 0, paddr = 0, idx = 0, p2p_pgmap = None, pci_mem_va = 0, remapped = False\<rparr>"

definition ktl_init :: "'w \<Rightarrow> 'w ktl" where
  "ktl_init w = \<lparr>gpu_dev = replicate MAX_DEV_NUM dev_init, dev_num = 0, chr_class = Class_Null, kworld = w, klog = []\<rparr>"

definition IS_ERR_OR_NULL :: "u64 \<Rightarrow> bool" where
  "IS_ERR_OR_NULL p \<longleftrightarrow> p = 0 \<or> - 4095 \<le> p"

section \<open>Kernel calls\<close>

definition kext :: "('w \<Rightarrow> 'a \<times> 'w) \<Rightarrow> ('w ktl, 'a) prog" where
  "kext f s = (case f (kworld s) of (x, w) \<Rightarrow> Inr (x, s\<lparr>kworld := w\<rparr>))"

definition klogged :: "kcall \<Rightarrow> ('w ktl, unit) prog" where
  "klogged c = modify (\<lambda>s. s\<lparr>klog := klog s @ [c]\<rparr>)"

definition get_dev :: "nat \<Rightarrow> ('w ktl, fgds_dev) prog" where
  "get_dev i s = (if i < length (gpu_dev s) then Inr (gpu_dev s ! i, s) else Inl Out_Of_Bounds)"

definition upd_dev :: "nat \<Rightarrow> (fgds_dev \<Rightarrow> fgds_dev) \<Rightarrow> ('w ktl, unit) prog" where
  "upd_dev i f s = (if i < length (gpu_dev s) then Inr ((), s\<lparr>gpu_dev := (gpu_dev s)[i := f (gpu_dev s ! i)]\<rparr>)
     else Inl Out_Of_Bounds)"

declare kext_def [run] klogged_def [run] get_dev_def [run] upd_dev_def [run]

section \<open>Choosing devices\<close>

fun use_loop :: "int list \<Rightarrow> int \<Rightarrow> bool" where
  "use_loop [] i = False"
| "use_loop (g # gs) i = (if g = i then True else use_loop gs i)"

definition fgds_use_device :: "module_params \<Rightarrow> nat \<Rightarrow> bool" where
  "fgds_use_device p i = (if use_all_gpus p \<noteq> 0 then True else use_loop (take (gpuids_count p) (gpuids p)) (int i))"

definition isdigit :: "char \<Rightarrow> bool" where
  "isdigit c \<longleftrightarrow> 48 \<le> (of_char c :: nat) \<and> (of_char c :: nat) \<le> 57"

text \<open>The loop runs from the end of the string: its argument is the reversed string.\<close>

fun trailing_loop :: "string \<Rightarrow> int \<Rightarrow> int \<Rightarrow> bool \<Rightarrow> int \<times> bool" where
  "trailing_loop [] number multiplier found = (number, found)"
| "trailing_loop (c # cs) number multiplier found =
     (if isdigit c then
        (if multiplier = 1 then trailing_loop cs (number + (of_char c - 48) * multiplier) 10 True
         else (number + (of_char c - 48) * multiplier, True))
      else if found then (number, found)
      else trailing_loop cs number multiplier found)"

definition extract_trailing_number :: "string \<Rightarrow> int" where
  "extract_trailing_number str = (case trailing_loop (rev str) 0 1 False of (number, found) \<Rightarrow> if found then number else -1)"

section \<open>Mapping the BAR of a GPU\<close>

text \<open>The attempts that skip the first megabytes of the BAR; true when one succeeds.\<close>

fun skip_loop :: "'w kenv \<Rightarrow> nat \<Rightarrow> u64 list \<Rightarrow> ('w ktl, bool) prog" where
  "skip_loop k i [] = ret False"
| "skip_loop k i (mb # mbs) = bnd (get_dev i) (\<lambda>d.
     let skip_sz = mb * 1024 * 1024; new_start = paddr d + skip_sz; new_size = bar_size d - skip_sz in
     if new_size = 0 then ret False
     else bnd (kext (k_ioremap k new_start new_size)) (\<lambda>probe.
       sq (klogged (K_ioremap new_start new_size probe)) (
       if \<not> probe then skip_loop k i mbs
       else sq (upd_dev i (\<lambda>d. d\<lparr>p2p_pgmap := Some (new_start, new_start + new_size - 1)\<rparr>)) (
         bnd (kext (k_memremap_pages k new_start (new_start + new_size - 1))) (\<lambda>va.
         sq (klogged (K_remap i new_start (new_start + new_size - 1) va)) (
         sq (upd_dev i (\<lambda>d. d\<lparr>pci_mem_va := va\<rparr>)) (
         if IS_ERR_OR_NULL va then skip_loop k i mbs
         else sq (upd_dev i (\<lambda>d. d\<lparr>remapped := True, paddr := new_start, bar_size := new_size\<rparr>)) (ret True))))))))"

definition fgds_devm_memremap :: "bool \<Rightarrow> 'w kenv \<Rightarrow> nat \<Rightarrow> ('w ktl, int) prog" where
  "fgds_devm_memremap x86 k i = bnd (kext (k_zalloc k)) (\<lambda>ok.
     if \<not> ok then sq (upd_dev i (\<lambda>d. d\<lparr>p2p_pgmap := None\<rparr>)) (ret (- ENOMEM))
     else sq (klogged (K_pgmap_alloc i)) (
       sq (upd_dev i (\<lambda>d. d\<lparr>p2p_pgmap := Some (paddr d, paddr d + bar_size d - 1)\<rparr>)) (
       bnd (get_dev i) (\<lambda>d.
       bnd (kext (k_memremap_pages k (paddr d) (paddr d + bar_size d - 1))) (\<lambda>va.
       sq (klogged (K_remap i (paddr d) (paddr d + bar_size d - 1) va)) (
       sq (upd_dev i (\<lambda>d. d\<lparr>pci_mem_va := va\<rparr>)) (
       if \<not> IS_ERR_OR_NULL va then sq (upd_dev i (\<lambda>d. d\<lparr>remapped := True\<rparr>)) (ret 0)
       else bnd (if x86 then skip_loop k i [2, 4, 6] else ret False) (\<lambda>done_skip.
         if done_skip then ret 0
         else sq (klogged (K_pgmap_free i)) (
           sq (upd_dev i (\<lambda>d. d\<lparr>p2p_pgmap := None\<rparr>)) (ret (- ENOMEM)))))))))))"

text \<open>The largest BAR: the loop over the BARs from \<open>j\<close> on.\<close>

fun bar_loop :: "'w kenv \<Rightarrow> nat \<Rightarrow> nat list \<Rightarrow> fgds_dev \<Rightarrow> fgds_dev" where
  "bar_loop k p [] d = d"
| "bar_loop k p (j # js) d =
     bar_loop k p js (if bar_size d < k_bar_len k p j then d\<lparr>paddr := k_bar_start k p j, bar_size := k_bar_len k p j\<rparr> else d)"

fun ctrl_loop :: "bool \<Rightarrow> 'w kenv \<Rightarrow> module_params \<Rightarrow> u64 list \<Rightarrow> nat list \<Rightarrow> int \<Rightarrow> ('w ktl, int) prog" where
  "ctrl_loop x86 k par tbl [] flag = ret flag"
| "ctrl_loop x86 k par tbl (i # is) flag =
     (if \<not> fgds_use_device par i then ctrl_loop x86 k par tbl is flag
      else bnd (kext (k_get_slot k 0 (ucast (drop_bit 8 (tbl ! i) AND 0xFF)) (ucast (tbl ! i AND 0xFF)))) (\<lambda>p.
        sq (upd_dev i (\<lambda>d. d\<lparr>pdev := p\<rparr>)) (
        case p of
          None \<Rightarrow> ret (-1)
        | Some p \<Rightarrow>
            sq (klogged (K_pci_get p)) (
            sq (upd_dev i (bar_loop k p [0..<PCI_STD_NUM_BARS])) (
            sq (upd_dev i (\<lambda>d. d\<lparr>idx := i, remapped := False\<rparr>)) (
            bnd (fgds_devm_memremap x86 k i) (\<lambda>r.
            if r \<noteq> 0 then
              sq (klogged (K_pci_put (Some p))) (sq (upd_dev i (\<lambda>d. d\<lparr>pdev := None\<rparr>))
                (ctrl_loop x86 k par tbl is flag))
            else ctrl_loop x86 k par tbl is 0)))))))"

definition fgds_ctrl_init :: "bool \<Rightarrow> 'w kenv \<Rightarrow> module_params \<Rightarrow> u64 list \<Rightarrow> nat \<Rightarrow> ('w ktl, int) prog" where
  "fgds_ctrl_init x86 k par tbl n =
     (if use_all_gpus par = 0 \<and> gpuids_count par = 0 then ret (- EINVAL)
      else sq (modify (\<lambda>s. s\<lparr>dev_num := n\<rparr>)) (ctrl_loop x86 k par tbl [0..<n] (-1)))"

section \<open>Opening a device\<close>

text \<open>The result and, on success, the index of the device that becomes the private data of the file.\<close>

definition fgds_open_dev :: "string \<Rightarrow> ('w ktl, int \<times> nat option) prog" where
  "fgds_open_dev file_name = (let dev_idx = extract_trailing_number file_name in
     bnd (gets dev_num) (\<lambda>n.
     if dev_idx < 0 \<or> int n \<le> dev_idx then ret (-1, None)
     else bnd (get_dev (nat dev_idx)) (\<lambda>d.
       if \<not> remapped d then ret (- ENODEV, None) else ret (0, Some (nat dev_idx)))))"

section \<open>Character devices\<close>

fun decimal :: "nat \<Rightarrow> string" where
  "decimal n = (if n < 10 then [char_of (48 + n)] else decimal (n div 10) @ [char_of (48 + n mod 10)])"

declare decimal.simps [simp del]

definition dev_name :: "nat \<Rightarrow> string" where
  "dev_name i = ''fgds_dev'' @ decimal i"

definition fgds_cdev_del :: "nat \<Rightarrow> ('w ktl, unit) prog" where
  "fgds_cdev_del i = sq (klogged (K_cdev_del i)) (bnd (get_dev i) (\<lambda>d.
     sq (if remapped d then
           sq (case p2p_pgmap d of None \<Rightarrow> ret () | Some (a, b) \<Rightarrow> klogged (K_unremap i a b))
             (upd_dev i (\<lambda>d. d\<lparr>pci_mem_va := 0, remapped := False\<rparr>))
         else ret ()) (
     sq (if p2p_pgmap d \<noteq> None then sq (klogged (K_pgmap_free i)) (upd_dev i (\<lambda>d. d\<lparr>p2p_pgmap := None\<rparr>)) else ret ())
       (upd_dev i (\<lambda>d. d\<lparr>pdev := None\<rparr>)))))"

definition fgds_cdev_add :: "'w kenv \<Rightarrow> nat \<Rightarrow> ('w ktl, int) prog" where
  "fgds_cdev_add k i = bnd (get_dev i) (\<lambda>d. bnd (kext (k_dev_set_name k (dev_name (idx d)))) (\<lambda>r.
     if r \<noteq> 0 then ret r
     else bnd (kext (k_cdev_device_add k (idx d))) (\<lambda>r. sq (klogged (K_cdev_add i r)) (ret r))))"

text \<open>The name of the device object, which the error path frees with \<open>kfree_const\<close>, belongs to the kernel and is not tracked.\<close>

fun cdev_loop :: "'w kenv \<Rightarrow> module_params \<Rightarrow> nat list \<Rightarrow> ('w ktl, int) prog" where
  "cdev_loop k par [] = ret 0"
| "cdev_loop k par (i # is) =
     (if \<not> fgds_use_device par i then cdev_loop k par is
      else bnd (get_dev i) (\<lambda>d.
        if \<not> remapped d then cdev_loop k par is
        else bnd (fgds_cdev_add k i) (\<lambda>r. if r \<noteq> 0 then ret r else cdev_loop k par is)))"

definition class_destroy :: "('w ktl, unit) prog" where
  "class_destroy = bnd (gets chr_class) (\<lambda>c. klogged (K_class_destroy c))"

definition fgds_cdev_init :: "'w kenv \<Rightarrow> module_params \<Rightarrow> ('w ktl, int) prog" where
  "fgds_cdev_init k par = bnd (gets dev_num) (\<lambda>n. bnd (kext (k_alloc_chrdev k n)) (\<lambda>r.
     sq (klogged (K_chrdev n r)) (
     if r < 0 then sq class_destroy (ret r)
     else bnd (kext (k_class_create k)) (\<lambda>r.
       sq (klogged (K_class r)) (
       sq (modify (\<lambda>s. s\<lparr>chr_class := if r < 0 then Class_Err else Class_Ok\<rparr>)) (
       if r < 0 then sq (klogged (K_unchrdev n)) (sq class_destroy (ret r))
       else bnd (cdev_loop k par [0..<n]) (\<lambda>r.
         if r \<noteq> 0 then sq (klogged (K_unchrdev n)) (sq class_destroy (ret r)) else ret 0)))))))"

section \<open>Loading and unloading\<close>

text \<open>The number of entries of the GPU table before the first zero, at most 16.\<close>

fun count_gpus :: "u64 list \<Rightarrow> nat \<Rightarrow> nat" where
  "count_gpus [] n = n"
| "count_gpus (x # xs) n = (if x \<noteq> 0 then count_gpus xs (Suc n) else n)"

text \<open>
  Loading works on the state of the control part, the symbols of the peer-to-peer interface and the
  PCI tables. \<open>hash_ready\<close> tells whether the table of mapped buffers has been initialised.
\<close>

record 'w kmod =
  m_ctl :: "'w ktl"
  m_p2p :: p2p_state
  m_pci :: pci_tables
  hash_ready :: bool

definition lift_ctl :: "('w ktl, 'a) prog \<Rightarrow> ('w kmod, 'a) prog" where
  "lift_ctl m s = (case m (m_ctl s) of Inl e \<Rightarrow> Inl e | Inr (x, c) \<Rightarrow> Inr (x, s\<lparr>m_ctl := c\<rparr>))"

definition fgds_init :: "bool \<Rightarrow> 'w kenv \<Rightarrow> (p2p_sym \<Rightarrow> bool) \<Rightarrow> (u32 \<Rightarrow> pci_dev list) \<Rightarrow> module_params \<Rightarrow> ('w kmod, int) prog" where
  "fgds_init x86 k available class_devs par s =
     (case nvfs_nvidia_p2p_init available (m_p2p s) of (r, p2p) \<Rightarrow>
        if r \<noteq> 0 then Inr (-1, s\<lparr>m_p2p := p2p\<rparr>)
        else (case nvfs_fill_gpu2peer_distance_table_once class_devs (m_pci s) of
          Inl e \<Rightarrow> Inl e
        | Inr pci \<Rightarrow>
            (let n = count_gpus (take MAX_DEV_NUM (gpu_info_table pci)) 0; s' = s\<lparr>m_p2p := p2p, m_pci := pci\<rparr> in
             if n = 0 \<or> MAX_DEV_NUM < n then Inr (-1, s')
             else bnd (lift_ctl (fgds_ctrl_init x86 k par (gpu_info_table pci) n)) (\<lambda>r.
               if r \<noteq> 0 then ret (-1)
               else bnd (lift_ctl (fgds_cdev_init k par)) (\<lambda>r.
                 if r \<noteq> 0 then ret (-1)
                 else sq (modify (\<lambda>s. s\<lparr>hash_ready := True\<rparr>)) (ret 0))) s')))"

fun exit_loop :: "nat list \<Rightarrow> ('w ktl, unit) prog" where
  "exit_loop [] = ret ()"
| "exit_loop (i # is) = bnd (get_dev i) (\<lambda>d.
     if \<not> remapped d then
       sq (if pdev d \<noteq> None then sq (klogged (K_pci_put (pdev d))) (upd_dev i (\<lambda>d. d\<lparr>pdev := None\<rparr>)) else ret ())
         (exit_loop is)
     else sq (fgds_cdev_del i) (exit_loop is))"

definition fgds_exit :: "('w kmod, unit) prog" where
  "fgds_exit = sq (lift_ctl (bnd (gets dev_num) (\<lambda>n. exit_loop [0..<n]))) (
     sq (modify (\<lambda>s. s\<lparr>m_p2p := nvfs_nvidia_p2p_exit (m_p2p s)\<rparr>)) (
     sq (lift_ctl class_destroy) (lift_ctl (klogged (K_unchrdev FGDS_MINORS)))))"

section \<open>Rules\<close>

lemma runs_to_kext [wp, simp]: "runs_to (kext f) s Q = (case f (kworld s) of (x, w) \<Rightarrow> Q x (s\<lparr>kworld := w\<rparr>))"
  by (simp add: runs_to_def kext_def split: prod.split)

lemma runs_to_klogged [wp, simp]: "runs_to (klogged c) s Q = Q () (s\<lparr>klog := klog s @ [c]\<rparr>)"
  by (simp add: klogged_def)

lemma runs_to_get_dev [wp, simp]: "runs_to (get_dev i) s Q = (i < length (gpu_dev s) \<and> Q (gpu_dev s ! i) s)"
  by (simp add: runs_to_def get_dev_def)

lemma runs_to_upd_dev [wp, simp]: "runs_to (upd_dev i f) s Q =
    (i < length (gpu_dev s) \<and> Q () (s\<lparr>gpu_dev := (gpu_dev s)[i := f (gpu_dev s ! i)]\<rparr>))"
  by (simp add: runs_to_def upd_dev_def)

section \<open>Device names\<close>

lemma digit_char: "n < 10 \<Longrightarrow> isdigit (char_of (48 + n))" "n < 10 \<Longrightarrow> (of_char (char_of (48 + n :: nat)) :: int) = 48 + int n"
proof -
  assume n: "n < 10"
  have c: "(of_char (char_of (48 + n)) :: nat) = 48 + n" using n by simp
  show "isdigit (char_of (48 + n))" using n c by (simp add: isdigit_def)
  have "(of_char (char_of (48 + n)) :: int) = int (of_char (char_of (48 + n)))" by (simp only: of_nat_of_char)
  then show "(of_char (char_of (48 + n :: nat)) :: int) = 48 + int n" unfolding c by simp
qed

lemma rev_decimal: "\<exists>cs. rev (decimal n) = char_of (48 + n mod 10) # cs \<and> (n < 10 \<longrightarrow> cs = []) \<and> (10 \<le> n \<longrightarrow> cs = rev (decimal (n div 10)))"
  by (cases "n < 10") (simp_all add: decimal.simps [of n])

lemma trailing_dev_name: "extract_trailing_number (dev_name i) = int (i mod 100)"
proof -
  obtain cs where cs: "rev (decimal i) = char_of (48 + i mod 10) # cs" "i < 10 \<longrightarrow> cs = []" "10 \<le> i \<longrightarrow> cs = rev (decimal (i div 10))"
    using rev_decimal by blast
  note d = digit_char [of "i mod 10"]
  show ?thesis
  proof (cases "i < 10")
    case True
    then show ?thesis using cs d by (simp add: extract_trailing_number_def dev_name_def isdigit_def)
  next
    case False
    obtain cs' where cs': "rev (decimal (i div 10)) = char_of (48 + i div 10 mod 10) # cs'" using rev_decimal by blast
    note d' = digit_char [of "i div 10 mod 10"]
    have "i mod 100 = i mod 10 + 10 * (i div 10 mod 10)" using mod_mult2_eq [of i 10 10] by simp
    then show ?thesis using False cs cs' d d' by (simp add: extract_trailing_number_def dev_name_def)
  qed
qed

section \<open>The mapping of a BAR\<close>

text \<open>A mapped device: its page map describes the BAR range the device records, and the mapping is no error pointer.\<close>

definition mapped_ok :: "fgds_dev \<Rightarrow> bool" where
  "mapped_ok d \<longleftrightarrow> p2p_pgmap d = Some (paddr d, paddr d + bar_size d - 1) \<and> \<not> IS_ERR_OR_NULL (pci_mem_va d)"

text \<open>References and page maps that a log acquires, less those it releases.\<close>

fun call_refs :: "kcall \<Rightarrow> int" where
  "call_refs (K_pci_get p) = 1"
| "call_refs (K_pci_put p) = -1"
| "call_refs _ = 0"

fun call_pgmaps :: "kcall \<Rightarrow> int" where
  "call_pgmaps (K_pgmap_alloc i) = 1"
| "call_pgmaps (K_pgmap_free i) = -1"
| "call_pgmaps _ = 0"

definition pci_refs :: "kcall list \<Rightarrow> int" where
  "pci_refs cs = sum_list (map call_refs cs)"

definition pgmaps :: "kcall list \<Rightarrow> int" where
  "pgmaps cs = sum_list (map call_pgmaps cs)"

lemma refs_simps [simp]:
  "pci_refs [] = 0" "pci_refs (c # cs) = call_refs c + pci_refs cs" "pci_refs (cs @ ds) = pci_refs cs + pci_refs ds"
  "pgmaps [] = 0" "pgmaps (c # cs) = call_pgmaps c + pgmaps cs" "pgmaps (cs @ ds) = pgmaps cs + pgmaps ds"
  by (simp_all add: pci_refs_def pgmaps_def)

text \<open>
  The state in which only device \<open>i\<close> has changed, to \<open>d\<close>, and the log has grown by \<open>cs\<close>.
\<close>

definition dev_step :: "nat \<Rightarrow> fgds_dev \<Rightarrow> kcall list \<Rightarrow> 'w ktl \<Rightarrow> 'w ktl \<Rightarrow> bool" where
  "dev_step i d cs s t \<longleftrightarrow> (\<exists>w. t = s\<lparr>gpu_dev := (gpu_dev s)[i := d], kworld := w, klog := klog s @ cs\<rparr>)"

lemma dev_step_trans: "dev_step i d cs s t \<Longrightarrow> dev_step i d' cs' t u \<Longrightarrow> dev_step i d' (cs @ cs') s u"
  by (auto simp: dev_step_def)

lemma dev_step_dev: "dev_step i d cs s t \<Longrightarrow> i < length (gpu_dev s) \<Longrightarrow> gpu_dev t ! i = d \<and> length (gpu_dev t) = length (gpu_dev s)"
  by (auto simp: dev_step_def)

lemma dev_step_log: "dev_step i d cs s (s\<lparr>kworld := w, klog := klog s @ cs, gpu_dev := (gpu_dev s)[i := d]\<rparr>)"
  unfolding dev_step_def by (rule exI [of _ w]) simp

lemma dev_step_refl: "dev_step i (gpu_dev s ! i) [] s s"
  unfolding dev_step_def by (rule exI [of _ "kworld s"]) simp

lemma dev_step_self: "i < length (gpu_dev s) \<Longrightarrow> dev_step i (gpu_dev s ! i) cs s (s\<lparr>kworld := w, klog := klog s @ cs\<rparr>)"
  unfolding dev_step_def by (rule exI [of _ w]) simp

text \<open>What the attempts leave: device \<open>d'\<close> is \<open>d\<close> without its first bytes and mapped, or has the range of \<open>d\<close>.\<close>

definition skip_post :: "u64 list \<Rightarrow> fgds_dev \<Rightarrow> bool \<Rightarrow> fgds_dev \<Rightarrow> bool" where
  "skip_post mbs d r d' \<longleftrightarrow> pdev d' = pdev d \<and> idx d' = idx d \<and>
     (if r then remapped d' \<and> mapped_ok d' \<and> (\<exists>mb\<in>set mbs. paddr d' = paddr d + 1048576 * mb \<and> bar_size d' = bar_size d - 1048576 * mb)
      else remapped d' = remapped d \<and> paddr d' = paddr d \<and> bar_size d' = bar_size d)"

lemma skip_loop_spec:
  assumes "i < length (gpu_dev s)"
  shows "runs_to (skip_loop k i mbs) s (\<lambda>r t. \<exists>d' cs. dev_step i d' cs s t \<and> pci_refs cs = 0 \<and> pgmaps cs = 0 \<and>
    skip_post mbs (gpu_dev s ! i) r d')"
  using assms
proof (induction mbs arbitrary: s)
  case Nil
  then show ?case using dev_step_self [of i s "[]" "kworld s"]
    by (auto simp: skip_post_def intro!: exI [of _ "gpu_dev s ! i"] exI [of _ "[]"])
next
  case (Cons mb mbs)
  let ?d = "gpu_dev s ! i"
  let ?a = "paddr ?d + 1048576 * mb" and ?n = "bar_size ?d - 1048576 * mb"
  have later: "runs_to (skip_loop k i mbs) t (\<lambda>r u. \<exists>d' cs. dev_step i d' cs s u \<and> pci_refs cs = 0 \<and> pgmaps cs = 0 \<and>
      skip_post (mb # mbs) ?d r d')"
    if t: "dev_step i d1 cs s t" "pci_refs cs = 0" "pgmaps cs = 0" "skip_post [] ?d False d1" for t d1 cs
  proof -
    have t': "gpu_dev t ! i = d1" "i < length (gpu_dev t)" using dev_step_dev [OF t(1) Cons.prems] Cons.prems by simp_all
    show ?thesis
    proof (rule runs_to_mono [OF Cons.IH [OF t'(2)]], elim exE conjE)
      fix r u d' cs'
      assume u: "dev_step i d' cs' t u" "pci_refs cs' = 0" "pgmaps cs' = 0" "skip_post mbs (gpu_dev t ! i) r d'"
      have "skip_post (mb # mbs) ?d r d'" using u(4) t(4) unfolding t'(1) skip_post_def by auto
      then show "\<exists>d' cs. dev_step i d' cs s u \<and> pci_refs cs = 0 \<and> pgmaps cs = 0 \<and> skip_post (mb # mbs) ?d r d'"
        using dev_step_trans [OF t(1) u(1)] t(2,3) u(2,3) by (intro exI [of _ d'] exI [of _ "cs @ cs'"]) simp
    qed
  qed
  obtain probe w where io: "k_ioremap k ?a ?n (kworld s) = (probe, w)" by fastforce
  obtain va w' where re: "k_memremap_pages k ?a (?a + ?n - 1) w = (va, w')" by fastforce
  let ?l1 = "[K_ioremap ?a ?n probe]" and ?l2 = "[K_ioremap ?a ?n probe, K_remap i ?a (?a + ?n - 1) va]"
  let ?d2 = "?d\<lparr>p2p_pgmap := Some (?a, ?a + ?n - 1), pci_mem_va := va\<rparr>"
  have end0: "skip_post (mb # mbs) ?d False ?d" "skip_post [] ?d False ?d" "skip_post [] ?d False ?d2" by (simp_all add: skip_post_def)
  have end1: "skip_post (mb # mbs) ?d True (?d2\<lparr>remapped := True, paddr := ?a, bar_size := ?n\<rparr>)" if "\<not> IS_ERR_OR_NULL va"
    using that by (simp add: skip_post_def mapped_ok_def)
  show ?case
  proof (cases "?n = 0 \<or> \<not> probe")
    case True
    then show ?thesis
    proof (cases "?n = 0")
      case True
      then show ?thesis using Cons.prems end0(1) dev_step_self [of i s "[]" "kworld s"]
        by (auto simp: Let_def intro!: exI [of _ ?d] exI [of _ "[]"])
    next
      case False
      have "runs_to (skip_loop k i mbs) (s\<lparr>kworld := w, klog := klog s @ ?l1\<rparr>) (\<lambda>r u. \<exists>d' cs. dev_step i d' cs s u \<and>
          pci_refs cs = 0 \<and> pgmaps cs = 0 \<and> skip_post (mb # mbs) ?d r d')"
        by (rule later [OF dev_step_self [OF Cons.prems]]) (simp_all add: end0)
      then show ?thesis using True False Cons.prems io by (simp add: Let_def)
    qed
  next
    case False
    let ?t = "s\<lparr>kworld := w', klog := klog s @ ?l2, gpu_dev := (gpu_dev s)[i := ?d2]\<rparr>"
    have t: "dev_step i ?d2 ?l2 s ?t" by (rule dev_step_log)
    show ?thesis
    proof (cases "IS_ERR_OR_NULL va")
      case True
      have "runs_to (skip_loop k i mbs) ?t (\<lambda>r u. \<exists>d' cs. dev_step i d' cs s u \<and>
          pci_refs cs = 0 \<and> pgmaps cs = 0 \<and> skip_post (mb # mbs) ?d r d')"
        by (rule later [OF t _ _ end0(3)]) simp_all
      then show ?thesis using True False Cons.prems io re by (simp add: Let_def)
    next
      case ok: False
      have "dev_step i (?d2\<lparr>remapped := True, paddr := ?a, bar_size := ?n\<rparr>) ?l2 s
          (s\<lparr>kworld := w', klog := klog s @ ?l2, gpu_dev := (gpu_dev s)[i := ?d2\<lparr>remapped := True, paddr := ?a, bar_size := ?n\<rparr>]\<rparr>)"
        by (rule dev_step_log)
      then show ?thesis using ok False Cons.prems io re end1 [OF ok] by (auto simp: Let_def intro!: exI [of _ ?l2])
    qed
  qed
qed

declare skip_loop.simps [simp del]

text \<open>
  What mapping a device leaves: on success the device, without at most its first 6 MB, is mapped and
  holds one page map; on failure it holds none and its range is unchanged.
\<close>

definition remap_post :: "fgds_dev \<Rightarrow> int \<Rightarrow> fgds_dev \<Rightarrow> kcall list \<Rightarrow> bool" where
  "remap_post d r d' cs \<longleftrightarrow> pdev d' = pdev d \<and> idx d' = idx d \<and> pci_refs cs = 0 \<and>
     (if r = 0 then remapped d' \<and> mapped_ok d' \<and> pgmaps cs = 1 \<and>
        (\<exists>mb\<in>{0, 2, 4, 6}. paddr d' = paddr d + 1048576 * mb \<and> bar_size d' = bar_size d - 1048576 * mb)
      else r = - ENOMEM \<and> remapped d' = remapped d \<and> p2p_pgmap d' = None \<and> pgmaps cs = 0 \<and>
        paddr d' = paddr d \<and> bar_size d' = bar_size d)"

lemma memremap_spec:
  assumes "i < length (gpu_dev s)"
  shows "runs_to (fgds_devm_memremap x86 k i) s (\<lambda>r t. \<exists>d' cs. dev_step i d' cs s t \<and> remap_post (gpu_dev s ! i) r d' cs)"
proof -
  let ?d = "gpu_dev s ! i"
  let ?e = "paddr ?d + bar_size ?d - 1"
  obtain ok w where al: "k_zalloc k (kworld s) = (ok, w)" by fastforce
  obtain va w' where re: "k_memremap_pages k (paddr ?d) ?e w = (va, w')" by fastforce
  let ?d1 = "?d\<lparr>p2p_pgmap := Some (paddr ?d, ?e), pci_mem_va := va\<rparr>" and ?l = "[K_pgmap_alloc i, K_remap i (paddr ?d) ?e va]"
  let ?t = "s\<lparr>kworld := w', klog := klog s @ ?l, gpu_dev := (gpu_dev s)[i := ?d1]\<rparr>"
  let ?Q = "\<lambda>r t. \<exists>d' cs. dev_step i d' cs s t \<and> remap_post ?d r d' cs"
  have t: "dev_step i ?d1 ?l s ?t" by (rule dev_step_log)
  have t': "gpu_dev ?t ! i = ?d1" "i < length (gpu_dev ?t)" using assms by simp_all
  have skip: "runs_to (if x86 then skip_loop k i [2, 4, 6] else ret False) ?t (\<lambda>r u. \<exists>d' cs. dev_step i d' cs ?t u \<and>
      pci_refs cs = 0 \<and> pgmaps cs = 0 \<and> skip_post [2, 4, 6] ?d1 r d')"
  proof (cases x86)
    case True
    then show ?thesis using skip_loop_spec [OF t'(2), of k "[2, 4, 6]"] unfolding t'(1) by simp
  next
    case False
    have "dev_step i ?d1 [] ?t ?t" using dev_step_refl [of i ?t] unfolding t'(1) .
    moreover have "skip_post [2, 4, 6] ?d1 False ?d1" by (simp add: skip_post_def)
    ultimately have "\<exists>d' cs. dev_step i d' cs ?t ?t \<and> pci_refs cs = 0 \<and> pgmaps cs = 0 \<and> skip_post [2, 4, 6] ?d1 False d'"
      using refs_simps(1,4) by blast
    then show ?thesis using False by simp
  qed
  have tail: "runs_to (bnd (if x86 then skip_loop k i [2, 4, 6] else ret False) (\<lambda>ok. if ok then ret 0
      else sq (klogged (K_pgmap_free i)) (sq (upd_dev i (\<lambda>d. d\<lparr>p2p_pgmap := None\<rparr>)) (ret (- ENOMEM))))) ?t ?Q"
    unfolding runs_to_bnd
  proof (rule runs_to_mono [OF skip], elim exE conjE)
    fix r u d' cs
    assume u: "dev_step i d' cs ?t u" "pci_refs cs = 0" "pgmaps cs = 0" "skip_post [2, 4, 6] ?d1 r d'"
    note su = dev_step_trans [OF t u(1)]
    show "runs_to (if r then ret 0
      else sq (klogged (K_pgmap_free i)) (sq (upd_dev i (\<lambda>d. d\<lparr>p2p_pgmap := None\<rparr>)) (ret (- ENOMEM)))) u ?Q"
    proof (cases r)
      case True
      have "remap_post ?d 0 d' (?l @ cs)" using u True by (auto simp: remap_post_def skip_post_def)
      then show ?thesis using True su by auto
    next
      case False
      have du: "gpu_dev u ! i = d'" "i < length (gpu_dev u)" using dev_step_dev [OF su assms] assms by simp_all
      let ?v = "u\<lparr>klog := klog u @ [K_pgmap_free i], gpu_dev := (gpu_dev u)[i := d'\<lparr>p2p_pgmap := None\<rparr>]\<rparr>"
      have "dev_step i (d'\<lparr>p2p_pgmap := None\<rparr>) [K_pgmap_free i] u ?v"
        unfolding dev_step_def by (rule exI [of _ "kworld u"]) simp
      note sv = dev_step_trans [OF su this]
      have "remap_post ?d (- ENOMEM) (d'\<lparr>p2p_pgmap := None\<rparr>) ((?l @ cs) @ [K_pgmap_free i])"
        using u False by (auto simp: remap_post_def skip_post_def)
      then show ?thesis using False sv du by auto
    qed
  qed
  show ?thesis
  proof (cases ok)
    case False
    have "dev_step i (?d\<lparr>p2p_pgmap := None\<rparr>) [] s (s\<lparr>kworld := w, gpu_dev := (gpu_dev s)[i := ?d\<lparr>p2p_pgmap := None\<rparr>]\<rparr>)"
      unfolding dev_step_def by (rule exI [of _ w]) simp
    moreover have "remap_post ?d (- ENOMEM) (?d\<lparr>p2p_pgmap := None\<rparr>) []" by (simp add: remap_post_def)
    ultimately show ?thesis using False al assms unfolding fgds_devm_memremap_def by auto
  next
    case True
    show ?thesis
    proof (cases "IS_ERR_OR_NULL va")
      case err: True
      show ?thesis using tail True err al re assms unfolding fgds_devm_memremap_def by (simp del: runs_to_if)
    next
      case False
      let ?d2 = "?d1\<lparr>remapped := True\<rparr>"
      have "dev_step i ?d2 ?l s (s\<lparr>kworld := w', klog := klog s @ ?l, gpu_dev := (gpu_dev s)[i := ?d2]\<rparr>)" by (rule dev_step_log)
      moreover have "remap_post ?d 0 ?d2 ?l" using False by (simp add: remap_post_def mapped_ok_def)
      ultimately show ?thesis using True False al re assms unfolding fgds_devm_memremap_def by auto
    qed
  qed
qed

section \<open>The invariant of the control part\<close>

text \<open>
  A device is mapped exactly if it holds a PCI device and a page map, and then its page map is that of
  its range. The references and page maps the log has acquired are those of the mapped devices.
\<close>

definition dev_ok :: "fgds_dev \<Rightarrow> bool" where
  "dev_ok d \<longleftrightarrow> (remapped d \<longleftrightarrow> pdev d \<noteq> None) \<and> (remapped d \<longleftrightarrow> p2p_pgmap d \<noteq> None) \<and> (remapped d \<longrightarrow> mapped_ok d)"

definition n_mapped :: "'w ktl \<Rightarrow> int" where
  "n_mapped s = int (length (filter remapped (gpu_dev s)))"

definition ctl_inv :: "'w ktl \<Rightarrow> bool" where
  "ctl_inv s \<longleftrightarrow> length (gpu_dev s) = MAX_DEV_NUM \<and> (\<forall>d\<in>set (gpu_dev s). dev_ok d) \<and>
     pci_refs (klog s) = n_mapped s \<and> pgmaps (klog s) = n_mapped s"

lemma ktl_init_inv: "ctl_inv (ktl_init w)"
  by (simp add: ctl_inv_def ktl_init_def dev_init_def dev_ok_def n_mapped_def)

lemma filter_update_length:
  assumes "i < length xs"
  shows "length (filter P (xs[i := x])) + (if P (xs ! i) then 1 else 0) = length (filter P xs) + (if P x then 1 else 0)"
proof -
  have "filter P xs = filter P (take i xs @ xs ! i # drop (Suc i) xs)" using assms by (simp add: id_take_nth_drop [symmetric])
  then show ?thesis using assms by (simp add: upd_conv_take_nth_drop)
qed

lemma ctl_inv_step:
  assumes "ctl_inv s" and "dev_step i d cs s t" and "i < MAX_DEV_NUM" and "\<not> remapped (gpu_dev s ! i)" and "dev_ok d"
    and "pci_refs cs = (if remapped d then 1 else 0)" and "pgmaps cs = (if remapped d then 1 else 0)"
  shows "ctl_inv t" and "n_mapped t = n_mapped s + (if remapped d then 1 else 0)"
proof -
  obtain w where t: "t = s\<lparr>gpu_dev := (gpu_dev s)[i := d], kworld := w, klog := klog s @ cs\<rparr>"
    using assms(2) by (auto simp: dev_step_def)
  have i: "i < length (gpu_dev s)" using assms(1,3) by (simp add: ctl_inv_def)
  show n: "n_mapped t = n_mapped s + (if remapped d then 1 else 0)"
    using filter_update_length [OF i, of remapped d] assms(4) by (simp add: t n_mapped_def)
  have "\<forall>d'\<in>set (gpu_dev t). dev_ok d'"
    using assms(1,5) set_update_subset_insert [of "gpu_dev s" i d] by (auto simp: t ctl_inv_def)
  then show "ctl_inv t" using assms(1,6,7) n by (simp add: ctl_inv_def t)
qed

lemma bar_loop_keeps: "pdev (bar_loop k p js d) = pdev d" "p2p_pgmap (bar_loop k p js d) = p2p_pgmap d"
    "pci_mem_va (bar_loop k p js d) = pci_mem_va d" "remapped (bar_loop k p js d) = remapped d"
  by (induction js arbitrary: d) auto

declare bar_loop.simps [simp del]

text \<open>The result of one device: it is mapped with its references taken, or nothing is held for it.\<close>

definition dev_tried :: "nat \<Rightarrow> 'w ktl \<Rightarrow> 'w ktl \<Rightarrow> bool" where
  "dev_tried i s t \<longleftrightarrow> (\<exists>d cs. dev_step i d cs s t \<and> dev_ok d \<and> pci_refs cs = (if remapped d then 1 else 0) \<and>
     pgmaps cs = (if remapped d then 1 else 0))"

lemma dev_triedI: "dev_step i d cs s t \<Longrightarrow> dev_ok d \<Longrightarrow> pci_refs cs = (if remapped d then 1 else 0) \<Longrightarrow>
    pgmaps cs = (if remapped d then 1 else 0) \<Longrightarrow> dev_tried i s t"
  unfolding dev_tried_def by blast

lemma map_device:
  assumes "i < length (gpu_dev s)" and "\<not> remapped (gpu_dev s ! i)" and "dev_ok (gpu_dev s ! i)"
  shows "runs_to (sq (upd_dev i (\<lambda>d. d\<lparr>pdev := Some p\<rparr>)) (sq (klogged (K_pci_get p)) (
      sq (upd_dev i (bar_loop k p js)) (sq (upd_dev i (\<lambda>d. d\<lparr>idx := i, remapped := False\<rparr>)) (
      fgds_devm_memremap x86 k i))))) s (\<lambda>r t.
        if r = 0 then dev_tried i s t \<and> remapped (gpu_dev t ! i)
        else runs_to (sq (klogged (K_pci_put (Some p))) (upd_dev i (\<lambda>d. d\<lparr>pdev := None\<rparr>))) t
          (\<lambda>_ u. dev_tried i s u))"
proof -
  let ?d = "(bar_loop k p js ((gpu_dev s ! i)\<lparr>pdev := Some p\<rparr>))\<lparr>idx := i, remapped := False\<rparr>"
  let ?s = "s\<lparr>klog := klog s @ [K_pci_get p], gpu_dev := (gpu_dev s)[i := ?d]\<rparr>"
  have s: "dev_step i ?d [K_pci_get p] s ?s" unfolding dev_step_def by (rule exI [of _ "kworld s"]) simp
  have s': "gpu_dev ?s ! i = ?d" "i < length (gpu_dev ?s)" using assms(1) by simp_all
  have "runs_to (fgds_devm_memremap x86 k i) ?s (\<lambda>r t.
        if r = 0 then dev_tried i s t \<and> remapped (gpu_dev t ! i)
        else runs_to (sq (klogged (K_pci_put (Some p))) (upd_dev i (\<lambda>d. d\<lparr>pdev := None\<rparr>))) t (\<lambda>_ u. dev_tried i s u))"
  proof (rule runs_to_mono [OF memremap_spec [OF s'(2)]], elim exE conjE)
    fix r t d' cs
    assume t: "dev_step i d' cs ?s t" and post: "remap_post (gpu_dev ?s ! i) r d' cs"
    note st = dev_step_trans [OF s t]
    note d = dev_step_dev [OF st assms(1)]
    show "if r = 0 then dev_tried i s t \<and> remapped (gpu_dev t ! i)
        else runs_to (sq (klogged (K_pci_put (Some p))) (upd_dev i (\<lambda>d. d\<lparr>pdev := None\<rparr>))) t (\<lambda>_ u. dev_tried i s u)"
    proof (cases "r = 0")
      case True
      have "dev_ok d'" "remapped d'" "pci_refs ([K_pci_get p] @ cs) = 1" "pgmaps ([K_pci_get p] @ cs) = 1"
        using post True unfolding s'(1) by (auto simp: remap_post_def dev_ok_def bar_loop_keeps mapped_ok_def)
      then have "dev_tried i s t" by (intro dev_triedI [OF st]) simp_all
      then show ?thesis using True d \<open>remapped d'\<close> by simp
    next
      case False
      have f: "dev_ok (d'\<lparr>pdev := None\<rparr>)" "\<not> remapped d'" "pci_refs (([K_pci_get p] @ cs) @ [K_pci_put (Some p)]) = 0"
          "pgmaps (([K_pci_get p] @ cs) @ [K_pci_put (Some p)]) = 0"
        using post False unfolding s'(1) by (auto simp: remap_post_def dev_ok_def bar_loop_keeps)
      let ?u = "t\<lparr>klog := klog t @ [K_pci_put (Some p)], gpu_dev := (gpu_dev t)[i := d'\<lparr>pdev := None\<rparr>]\<rparr>"
      have "dev_step i (d'\<lparr>pdev := None\<rparr>) [K_pci_put (Some p)] t ?u"
        unfolding dev_step_def by (rule exI [of _ "kworld t"]) simp
      from dev_triedI [OF dev_step_trans [OF st this] f(1)] have "dev_tried i s ?u" using f by simp
      then show ?thesis using False d assms(1) by simp
    qed
  qed
  then show ?thesis using assms(1) by simp
qed

lemma dev_tried_inv:
  assumes "ctl_inv s" and "dev_tried i s t" and "i < MAX_DEV_NUM" and "\<not> remapped (gpu_dev s ! i)"
  shows "ctl_inv t" and "dev_num t = dev_num s" and "chr_class t = chr_class s" and "j \<noteq> i \<Longrightarrow> gpu_dev t ! j = gpu_dev s ! j"
proof -
  obtain d cs where d: "dev_step i d cs s t" "dev_ok d" "pci_refs cs = (if remapped d then 1 else 0)"
      "pgmaps cs = (if remapped d then 1 else 0)" using assms(2) unfolding dev_tried_def by blast
  show "ctl_inv t" by (rule ctl_inv_step(1) [OF assms(1) d(1) assms(3,4) d(2-4)])
  show "dev_num t = dev_num s" "chr_class t = chr_class s" "j \<noteq> i \<Longrightarrow> gpu_dev t ! j = gpu_dev s ! j"
    using d(1) by (auto simp: dev_step_def)
qed

text \<open>What the loop over the devices keeps and when it succeeds.\<close>

definition ctrl_post :: "nat list \<Rightarrow> int \<Rightarrow> 'w ktl \<Rightarrow> int \<Rightarrow> 'w ktl \<Rightarrow> bool" where
  "ctrl_post js flag s r t \<longleftrightarrow> ctl_inv t \<and> dev_num t = dev_num s \<and> chr_class t = chr_class s \<and>
     (r = 0 \<longrightarrow> flag = 0 \<or> (\<exists>j\<in>set js. remapped (gpu_dev t ! j))) \<and> (\<forall>j. j \<notin> set js \<longrightarrow> gpu_dev t ! j = gpu_dev s ! j)"

lemma ctrl_loop_spec:
  assumes "ctl_inv s" and "distinct js" and "\<forall>j\<in>set js. j < MAX_DEV_NUM \<and> \<not> remapped (gpu_dev s ! j)"
  shows "runs_to (ctrl_loop x86 k par tbl js flag) s (ctrl_post js flag s)"
  using assms
proof (induction js arbitrary: s flag)
  case Nil
  then show ?case by (simp add: ctrl_post_def)
next
  case (Cons i js)
  have i: "i < length (gpu_dev s)" "i < MAX_DEV_NUM" "\<not> remapped (gpu_dev s ! i)" "i \<notin> set js" "dev_ok (gpu_dev s ! i)"
    using Cons.prems by (auto simp: ctl_inv_def)
  have rest: "runs_to (ctrl_loop x86 k par tbl js flag') t (ctrl_post (i # js) flag s)"
    if t: "dev_tried i s t" "flag' = 0 \<longrightarrow> flag = 0 \<or> remapped (gpu_dev t ! i)" for t flag'
  proof -
    note inv = dev_tried_inv [OF Cons.prems(1) t(1) i(2,3)]
    have "\<forall>j\<in>set js. gpu_dev t ! j = gpu_dev s ! j" using inv(4) i(4) by metis
    then have "runs_to (ctrl_loop x86 k par tbl js flag') t (ctrl_post js flag' t)"
      using Cons.prems inv(1) by (intro Cons.IH) auto
    then show ?thesis
      by (rule runs_to_mono) (use inv t(2) i(4) in \<open>auto simp: ctrl_post_def\<close>)
  qed
  have unused: "dev_tried i s s" using dev_triedI [OF dev_step_refl i(5)] i(3) by simp
  obtain p w where p: "k_get_slot k 0 (ucast (drop_bit 8 (tbl ! i) AND 0xFF)) (ucast (tbl ! i AND 0xFF)) (kworld s) = (p, w)"
    by fastforce
  let ?s = "s\<lparr>kworld := w\<rparr>"
  have ss: "dev_tried i s t" if "dev_tried i ?s t" for t
    using that by (auto simp: dev_tried_def dev_step_def)
  show ?case
  proof (cases "fgds_use_device par i")
    case False
    have "runs_to (ctrl_loop x86 k par tbl js flag) s (ctrl_post (i # js) flag s)" by (rule rest [OF unused]) simp
    then show ?thesis using False by simp
  next
    case True
    show ?thesis
    proof (cases p)
      case None
      let ?d = "(gpu_dev s ! i)\<lparr>pdev := None\<rparr>"
      let ?t = "s\<lparr>kworld := w, gpu_dev := (gpu_dev s)[i := ?d]\<rparr>"
      have st: "dev_step i ?d [] s ?t" unfolding dev_step_def by (rule exI [of _ w]) simp
      have "dev_tried i s ?t" by (rule dev_triedI [OF st]) (use i(3,5) in \<open>auto simp: dev_ok_def\<close>)
      note inv = dev_tried_inv [OF Cons.prems(1) this i(2,3)]
      have "ctrl_post (i # js) flag s (-1) ?t" using inv by (simp add: ctrl_post_def)
      then show ?thesis using True None p i(1) by simp
    next
      case (Some q)
      let ?bars = "[0..<PCI_STD_NUM_BARS]"
      let ?t = "?s\<lparr>klog := klog s @ [K_pci_get q],
        gpu_dev := (gpu_dev s)[i := (bar_loop k q ?bars ((gpu_dev s ! i)\<lparr>pdev := Some q\<rparr>))\<lparr>idx := i, remapped := False\<rparr>]\<rparr>"
      have tried: "runs_to (fgds_devm_memremap x86 k i) ?t (\<lambda>r t.
        if r = 0 then dev_tried i ?s t \<and> remapped (gpu_dev t ! i)
        else runs_to (sq (klogged (K_pci_put (Some q))) (upd_dev i (\<lambda>d. d\<lparr>pdev := None\<rparr>))) t (\<lambda>_ u. dev_tried i ?s u))"
        using map_device [of i ?s q k ?bars x86] i by simp
      have "runs_to (fgds_devm_memremap x86 k i) ?t (\<lambda>r t. runs_to (if r \<noteq> 0 then
              sq (klogged (K_pci_put (Some q))) (sq (upd_dev i (\<lambda>d. d\<lparr>pdev := None\<rparr>)) (ctrl_loop x86 k par tbl js flag))
            else ctrl_loop x86 k par tbl js 0) t (ctrl_post (i # js) flag s))"
      proof (rule runs_to_mono [OF tried])
        fix r t
        assume t: "if r = 0 then dev_tried i ?s t \<and> remapped (gpu_dev t ! i)
          else runs_to (sq (klogged (K_pci_put (Some q))) (upd_dev i (\<lambda>d. d\<lparr>pdev := None\<rparr>))) t (\<lambda>_ u. dev_tried i ?s u)"
        show "runs_to (if r \<noteq> 0 then
              sq (klogged (K_pci_put (Some q))) (sq (upd_dev i (\<lambda>d. d\<lparr>pdev := None\<rparr>)) (ctrl_loop x86 k par tbl js flag))
            else ctrl_loop x86 k par tbl js 0) t (ctrl_post (i # js) flag s)"
          using t ss rest by (cases "r = 0") auto
      qed
      then show ?thesis using True Some p i(1) by simp
    qed
  qed
qed

section \<open>Unloading\<close>

definition dev_clear :: "fgds_dev \<Rightarrow> bool" where
  "dev_clear d \<longleftrightarrow> \<not> remapped d \<and> pdev d = None \<and> p2p_pgmap d = None"

text \<open>The calls that release a device.\<close>

definition del_calls :: "nat \<Rightarrow> fgds_dev \<Rightarrow> kcall list" where
  "del_calls i d = (if remapped d then [K_cdev_del i, K_unremap i (paddr d) (paddr d + bar_size d - 1), K_pgmap_free i] else [])"

lemma exit_loop_spec:
  assumes "\<forall>j\<in>set js. j < length (gpu_dev s) \<and> dev_ok (gpu_dev s ! j)" and "distinct js"
  shows "runs_to (exit_loop js) s (\<lambda>_ t. (\<forall>j\<in>set js. dev_clear (gpu_dev t ! j)) \<and>
    (\<forall>j. j \<notin> set js \<longrightarrow> gpu_dev t ! j = gpu_dev s ! j) \<and> length (gpu_dev t) = length (gpu_dev s) \<and>
    klog t = klog s @ concat (map (\<lambda>j. del_calls j (gpu_dev s ! j)) js) \<and> chr_class t = chr_class s)"
  using assms
proof (induction js arbitrary: s)
  case (Cons i js)
  let ?d = "gpu_dev s ! i"
  let ?P = "\<lambda>_ t. (\<forall>j\<in>set (i # js). dev_clear (gpu_dev t ! j)) \<and>
    (\<forall>j. j \<notin> set (i # js) \<longrightarrow> gpu_dev t ! j = gpu_dev s ! j) \<and> length (gpu_dev t) = length (gpu_dev s) \<and>
    klog t = klog s @ concat (map (\<lambda>j. del_calls j (gpu_dev s ! j)) (i # js)) \<and> chr_class t = chr_class s"
  have i: "i < length (gpu_dev s)" "dev_ok ?d" "i \<notin> set js" using Cons.prems by auto
  have rest: "runs_to (exit_loop js) (s\<lparr>klog := klog s @ del_calls i ?d, gpu_dev := (gpu_dev s)[i := d']\<rparr>) ?P" if d': "dev_clear d'" for d'
  proof -
    let ?s = "s\<lparr>klog := klog s @ del_calls i ?d, gpu_dev := (gpu_dev s)[i := d']\<rparr>"
    have same: "gpu_dev ?s ! j = gpu_dev s ! j" if "j \<in> set js" for j
    proof -
      have "j \<noteq> i" using that i(3) by blast
      then show ?thesis by (simp add: nth_list_update_neq)
    qed
    have logs: "map (\<lambda>j. del_calls j (gpu_dev ?s ! j)) js = map (\<lambda>j. del_calls j (gpu_dev s ! j)) js" using same by simp
    have devs: "\<forall>j\<in>set js. j < length (gpu_dev ?s) \<and> dev_ok (gpu_dev ?s ! j)" "distinct js" using Cons.prems same by simp_all
    have dev: "gpu_dev ?s ! i = d'" "\<And>j. j \<noteq> i \<Longrightarrow> gpu_dev ?s ! j = gpu_dev s ! j" using i(1) by (simp_all add: nth_list_update_neq)
    show ?thesis
    proof (rule runs_to_mono [OF Cons.IH [OF devs]], elim conjE, goal_cases)
      case (1 x t)
      have "klog t = klog s @ concat (map (\<lambda>j. del_calls j (gpu_dev s ! j)) (i # js))"
        using 1(4) unfolding logs by simp
      moreover have "gpu_dev t ! i = d'" using 1(2) i(3) dev(1) by simp
      moreover have "\<forall>j. j \<notin> set (i # js) \<longrightarrow> gpu_dev t ! j = gpu_dev s ! j" using 1(2) dev(2) by simp
      ultimately show ?case using 1(1,3,5) d' by simp
    qed
  qed
  show ?case
  proof (cases "remapped ?d")
    case False
    then have d: "dev_clear ?d" "pdev ?d = None" "del_calls i ?d = []" using i(2) by (auto simp: dev_ok_def dev_clear_def del_calls_def simp del: not_None_eq split_paired_Ex split_paired_All)
    have "s\<lparr>klog := klog s @ del_calls i ?d, gpu_dev := (gpu_dev s)[i := ?d]\<rparr> = s" by (simp add: d(3))
    then have "runs_to (exit_loop js) s ?P" using rest [OF d(1)] by metis
    then show ?thesis using False d i(1) by simp
  next
    case True
    then have pg: "p2p_pgmap ?d = Some (paddr ?d, paddr ?d + bar_size ?d - 1)" using i(2) by (auto simp: dev_ok_def mapped_ok_def)
    let ?d' = "?d\<lparr>pci_mem_va := 0, remapped := False, p2p_pgmap := None, pdev := None\<rparr>"
    have "runs_to (exit_loop js) (s\<lparr>klog := klog s @ del_calls i ?d, gpu_dev := (gpu_dev s)[i := ?d']\<rparr>) ?P"
      by (rule rest) (simp add: dev_clear_def)
    then have "runs_to (fgds_cdev_del i) s (\<lambda>_ t. runs_to (exit_loop js) t ?P)"
      unfolding fgds_cdev_del_def using True pg i(1) by (simp add: del_calls_def)
    then show ?thesis using True i(1) by simp
  qed
qed simp

lemma del_calls_refs: "pci_refs (del_calls i d) = 0" "pgmaps (del_calls i d) = (if remapped d then -1 else 0)"
  by (simp_all add: del_calls_def)

lemma exit_refs:
  "pci_refs (concat (map (\<lambda>j. del_calls j (gpu_dev s ! j)) js)) = 0"
  "pgmaps (concat (map (\<lambda>j. del_calls j (gpu_dev s ! j)) js)) = - int (length (filter remapped (map ((!) (gpu_dev s)) js)))"
  by (induction js) (simp_all add: del_calls_refs)

section \<open>Properties\<close>

text \<open>
  C24. Mapping stays inside the BAR. For a BAR of more than 6 MB that does not wrap around the address
  space, \<open>fgds_devm_memremap\<close> either maps a range that ends where the BAR ends and starts inside it, at most
  6 MB late, and records exactly that range, or returns \<open>-ENOMEM\<close> with the range unchanged and the page map
  freed. No other device changes.
\<close>

theorem remap_within_bar:
  assumes "i < length (gpu_dev s)" and "6291456 < unat (bar_size (gpu_dev s ! i))"
    and "unat (paddr (gpu_dev s ! i)) + unat (bar_size (gpu_dev s ! i)) < 18446744073709551616"
  shows "runs_to (fgds_devm_memremap x86 k i) s (\<lambda>r t.
    (\<forall>j. j \<noteq> i \<longrightarrow> gpu_dev t ! j = gpu_dev s ! j) \<and>
    (let d = gpu_dev s ! i; d' = gpu_dev t ! i in
     if r = 0 then remapped d' \<and> p2p_pgmap d' = Some (paddr d', paddr d' + bar_size d' - 1) \<and> \<not> IS_ERR_OR_NULL (pci_mem_va d') \<and>
       unat (paddr d) \<le> unat (paddr d') \<and> unat (paddr d') \<le> unat (paddr d) + 6291456 \<and> 0 < unat (bar_size d') \<and>
       unat (paddr d') + unat (bar_size d') = unat (paddr d) + unat (bar_size d)
     else r = - ENOMEM \<and> p2p_pgmap d' = None \<and> paddr d' = paddr d \<and> bar_size d' = bar_size d))"
proof (rule runs_to_mono [OF memremap_spec [OF assms(1)]], elim exE conjE)
  fix r t d' cs
  assume t: "dev_step i d' cs s t" and post: "remap_post (gpu_dev s ! i) r d' cs"
  let ?d = "gpu_dev s ! i"
  have d': "gpu_dev t ! i = d'" using dev_step_dev [OF t assms(1)] by simp
  have "unat (paddr ?d + 1048576 * mb) = unat (paddr ?d) + 1048576 * unat mb"
      "unat (bar_size ?d - 1048576 * mb) = unat (bar_size ?d) - 1048576 * unat mb" "unat mb \<le> 6"
    if "mb \<in> {0, 2, 4, 6}" for mb
  proof -
    show mb: "unat mb \<le> 6" using that by auto
    then have m: "unat (1048576 * mb) = 1048576 * unat mb" by (simp add: unat_word_ariths)
    show "unat (paddr ?d + 1048576 * mb) = unat (paddr ?d) + 1048576 * unat mb"
      using m mb assms(2,3) by (subst unat_add_no_wrap) simp_all
    show "unat (bar_size ?d - 1048576 * mb) = unat (bar_size ?d) - 1048576 * unat mb"
      using m mb assms(2) by (subst unat_sub_no_wrap) (simp_all add: word_le_nat_alt)
  qed
  note mb = this
  have "unat (paddr ?d) \<le> unat (paddr d')" "unat (paddr d') \<le> unat (paddr ?d) + 6291456" "0 < unat (bar_size d')"
      "unat (paddr d') + unat (bar_size d') = unat (paddr ?d) + unat (bar_size ?d)" if "r = 0"
  proof -
    have "\<exists>m\<in>{0, 2, 4, 6}. paddr d' = paddr ?d + 1048576 * m \<and> bar_size d' = bar_size ?d - 1048576 * m"
      using post that by (simp add: remap_post_def)
    then obtain m where "m \<in> {0, 2, 4, 6}" "paddr d' = paddr ?d + 1048576 * m" "bar_size d' = bar_size ?d - 1048576 * m" by blast
    then show "unat (paddr ?d) \<le> unat (paddr d')" "unat (paddr d') \<le> unat (paddr ?d) + 6291456" "0 < unat (bar_size d')"
      "unat (paddr d') + unat (bar_size d') = unat (paddr ?d) + unat (bar_size ?d)"
      using mb [of m] assms(2) by simp_all
  qed
  moreover have "\<forall>j. j \<noteq> i \<longrightarrow> gpu_dev t ! j = gpu_dev s ! j" using t by (auto simp: dev_step_def)
  ultimately show "(\<forall>j. j \<noteq> i \<longrightarrow> gpu_dev t ! j = gpu_dev s ! j) \<and>
    (let d = ?d; d' = gpu_dev t ! i in
     if r = 0 then remapped d' \<and> p2p_pgmap d' = Some (paddr d', paddr d' + bar_size d' - 1) \<and> \<not> IS_ERR_OR_NULL (pci_mem_va d') \<and>
       unat (paddr d) \<le> unat (paddr d') \<and> unat (paddr d') \<le> unat (paddr d) + 6291456 \<and> 0 < unat (bar_size d') \<and>
       unat (paddr d') + unat (bar_size d') = unat (paddr d) + unat (bar_size d)
     else r = - ENOMEM \<and> p2p_pgmap d' = None \<and> paddr d' = paddr d \<and> bar_size d' = bar_size d)"
    using post by (cases "r = 0") (simp_all add: d' Let_def remap_post_def mapped_ok_def)
qed

text \<open>A concrete environment: one slot, a 64 GB BAR, every service succeeds.\<close>

definition kenv_ok :: "unit kenv" where
  "kenv_ok = \<lparr>
     k_get_slot = (\<lambda>_ b _ w. (Some (unat b), w)),
     k_bar_len = (\<lambda>_ j. if j = 0 then 0x1000000 else if j = 1 then 0x1000000000 else 0),
     k_bar_start = (\<lambda>_ j. if j = 0 then 0xe0000000 else 0x200000000000),
     k_zalloc = (\<lambda>w. (True, w)),
     k_memremap_pages = (\<lambda>a _ w. (a + 0xffff800000000000, w)),
     k_ioremap = (\<lambda>_ _ w. (True, w)),
     k_alloc_chrdev = (\<lambda>_ w. (0, w)),
     k_class_create = (\<lambda>w. (0, w)),
     k_dev_set_name = (\<lambda>_ w. (0, w)),
     k_cdev_device_add = (\<lambda>_ w. (0, w))\<rparr>"

definition ktl_one :: "unit ktl" where
  "ktl_one = (ktl_init ())\<lparr>gpu_dev := (replicate 16 dev_init)[0 := dev_init\<lparr>pdev := Some 7, paddr := 0x200000000000, bar_size := 0x1000000000\<rparr>]\<rparr>"

theorem remap_within_bar_witness:
  "runs_to (fgds_devm_memremap True kenv_ok 0) ktl_one (\<lambda>r t. if r = 0 then remapped (gpu_dev t ! 0) \<and>
     unat (paddr (gpu_dev t ! 0)) + unat (bar_size (gpu_dev t ! 0)) = 0x201000000000 else r = - ENOMEM)"
proof -
  have d: "gpu_dev ktl_one ! 0 = dev_init\<lparr>pdev := Some 7, paddr := 0x200000000000, bar_size := 0x1000000000\<rparr>"
    by (simp add: ktl_one_def)
  have h: "0 < length (gpu_dev ktl_one)" "6291456 < unat (bar_size (gpu_dev ktl_one ! 0))"
      "unat (paddr (gpu_dev ktl_one ! 0)) + unat (bar_size (gpu_dev ktl_one ! 0)) < 18446744073709551616"
    unfolding d by (simp_all add: ktl_one_def ktl_init_def)
  show ?thesis
    by (rule runs_to_mono [OF remap_within_bar [OF h]]) (simp add: d Let_def split: if_splits)
qed

text \<open>
  C23. Loading keeps the books. Started with no device mapped, \<open>fgds_ctrl_init\<close> never faults for up to 16
  GPUs, whatever the kernel answers; afterwards a device is mapped exactly if it holds a PCI reference
  and a page map, the page map is that of its range, every reference and page map taken belongs to a
  mapped device, and 0 is returned only if some GPU is mapped.
\<close>

theorem ctrl_init_invariant:
  assumes "ctl_inv s" and "n \<le> MAX_DEV_NUM" and "\<forall>d\<in>set (gpu_dev s). \<not> remapped d"
  shows "runs_to (fgds_ctrl_init x86 k par tbl n) s (\<lambda>r t. ctl_inv t \<and>
    (r = 0 \<longrightarrow> dev_num t = n \<and> (\<exists>i<n. remapped (gpu_dev t ! i))))"
proof -
  let ?s = "s\<lparr>dev_num := n\<rparr>"
  have inv: "ctl_inv ?s" using assms(1) by (simp add: ctl_inv_def n_mapped_def)
  have free: "\<forall>j\<in>set [0..<n]. j < MAX_DEV_NUM \<and> \<not> remapped (gpu_dev ?s ! j)"
    using assms by (auto simp: ctl_inv_def)
  have "runs_to (ctrl_loop x86 k par tbl [0..<n] (-1)) ?s (\<lambda>r t. ctl_inv t \<and>
    (r = 0 \<longrightarrow> dev_num t = n \<and> (\<exists>i<n. remapped (gpu_dev t ! i))))"
    by (rule runs_to_mono [OF ctrl_loop_spec [OF inv _ free]]) (auto simp: ctrl_post_def)
  then show ?thesis using assms(1) by (simp add: fgds_ctrl_init_def)
qed

theorem ctrl_init_invariant_witness:
  "runs_to (fgds_ctrl_init True kenv_ok \<lparr>use_all_gpus = 0, gpuids = [1], gpuids_count = 1\<rparr> [0x1e00, 0x3b00] 2) (ktl_init ())
    (\<lambda>r t. ctl_inv t \<and> (r = 0 \<longrightarrow> dev_num t = 2 \<and> (\<exists>i<2. remapped (gpu_dev t ! i))))"
  by (rule ctrl_init_invariant [OF ktl_init_inv]) (simp_all add: ktl_init_def dev_init_def)

text \<open>
  C30. The name of a device leads back to it. For the first hundred devices, the name that
  \<open>fgds_cdev_add\<close> gives a device is parsed back to its index when the device file is opened; the open
  succeeds exactly if the index is in range and the device is mapped, and changes nothing.
\<close>

theorem open_by_name:
  assumes "i < 100" and "dev_num s \<le> length (gpu_dev s)"
  shows "fgds_open_dev (dev_name i) s = Inr (if dev_num s \<le> i then (-1, None)
    else if \<not> remapped (gpu_dev s ! i) then (- ENODEV, None) else (0, Some i), s)"
  using assms trailing_dev_name [of i] by (simp add: fgds_open_dev_def Let_def run)

theorem open_by_name_witness:
  "fgds_open_dev (dev_name 15) (ktl_init ()) = Inr ((-1, None), ktl_init ())"
  using open_by_name [of 15 "ktl_init ()"] by (simp add: ktl_init_def)

text \<open>
  C31. Unloading frees every page map and leaks every PCI reference. From a state that satisfies the
  invariant, \<open>fgds_exit\<close> never faults, unmaps the range of each mapped device, and leaves every device
  clear with no page map allocated; but \<open>fgds_cdev_del\<close> forgets the PCI device without putting it, so as
  many references stay as there were mapped devices. Only one minor number of the region is released.
\<close>

theorem unload_leaks_pci_references:
  assumes "ctl_inv (m_ctl s)" and "dev_num (m_ctl s) \<le> MAX_DEV_NUM"
    and "\<forall>i<MAX_DEV_NUM. remapped (gpu_dev (m_ctl s) ! i) \<longrightarrow> i < dev_num (m_ctl s)"
  shows "runs_to fgds_exit s (\<lambda>_ t. (\<forall>d\<in>set (gpu_dev (m_ctl t)). dev_clear d) \<and>
    pgmaps (klog (m_ctl t)) = 0 \<and> pci_refs (klog (m_ctl t)) = n_mapped (m_ctl s) \<and>
    (\<forall>i<MAX_DEV_NUM. remapped (gpu_dev (m_ctl s) ! i) \<longrightarrow> K_unremap i (paddr (gpu_dev (m_ctl s) ! i))
      (paddr (gpu_dev (m_ctl s) ! i) + bar_size (gpu_dev (m_ctl s) ! i) - 1) \<in> set (klog (m_ctl t))) \<and>
    last (klog (m_ctl t)) = K_unchrdev 1 \<and> m_p2p t = nvfs_nvidia_p2p_exit (m_p2p s))"
proof -
  let ?c = "m_ctl s" and ?n = "dev_num (m_ctl s)"
  let ?l = "concat (map (\<lambda>j. del_calls j (gpu_dev ?c ! j)) [0..<?n])"
  have len: "length (gpu_dev ?c) = 16" and oks: "\<forall>d\<in>set (gpu_dev ?c). dev_ok d" using assms(1) by (simp_all add: ctl_inv_def)
  have pre: "\<forall>j\<in>set [0..<?n]. j < length (gpu_dev ?c) \<and> dev_ok (gpu_dev ?c ! j)" using len oks assms(2) by auto
  have "filter remapped (gpu_dev ?c) = filter remapped (map ((!) (gpu_dev ?c)) [0..<?n])"
  proof -
    have "map ((!) (gpu_dev ?c)) [0..<?n] = take ?n (gpu_dev ?c)" using len assms(2) by (intro nth_equalityI) simp_all
    then have "gpu_dev ?c = map ((!) (gpu_dev ?c)) [0..<?n] @ drop ?n (gpu_dev ?c)" by simp
    moreover have "\<forall>d\<in>set (drop ?n (gpu_dev ?c)). \<not> remapped d"
    proof
      fix d
      assume "d \<in> set (drop ?n (gpu_dev ?c))"
      then obtain i where "i < 16 - ?n" "d = gpu_dev ?c ! (?n + i)" using len by (auto simp: in_set_conv_nth)
      moreover have "?n + i < 16" using \<open>i < 16 - ?n\<close> by linarith
      ultimately show "\<not> remapped d" using assms(3) [rule_format, of "?n + i"] by auto
    qed
    ultimately show ?thesis by (metis append_Nil2 filter_False filter_append)
  qed
  then have refs: "pci_refs ?l = 0" "pgmaps ?l = - n_mapped ?c" by (simp_all add: exit_refs n_mapped_def)
  have clear: "dev_clear (gpu_dev c ! j)" if c: "\<forall>j\<in>set [0..<?n]. dev_clear (gpu_dev c ! j)"
      "\<forall>j. j \<notin> set [0..<?n] \<longrightarrow> gpu_dev c ! j = gpu_dev ?c ! j" "j < 16" for c :: "'a ktl" and j
  proof (cases "j < ?n")
    case False
    then have "\<not> remapped (gpu_dev ?c ! j)" "dev_ok (gpu_dev ?c ! j)" using assms(3) that(3) oks len by auto
    then show ?thesis using False c(2) by (auto simp: dev_clear_def dev_ok_def simp del: not_None_eq split_paired_Ex split_paired_All)
  qed (use c in simp)
  have unmap: "K_unremap i (paddr (gpu_dev ?c ! i)) (paddr (gpu_dev ?c ! i) + bar_size (gpu_dev ?c ! i) - 1) \<in> set ?l"
    if "i < 16" "remapped (gpu_dev ?c ! i)" for i
    using that assms(3) by (auto simp: del_calls_def intro!: bexI [of _ i])
  have lift: "runs_to (lift_ctl m) u Q = runs_to m (m_ctl u) (\<lambda>x c. Q x (u\<lparr>m_ctl := c\<rparr>))" for m :: "('a ktl, 'x) prog" and u Q
    by (simp add: runs_to_def lift_ctl_def split: sum.split prod.split)
  have loop: "runs_to (exit_loop [0..<?n]) ?c (\<lambda>_ c. (\<forall>d\<in>set (gpu_dev c). dev_clear d) \<and> klog c = klog ?c @ ?l)"
    by (rule runs_to_mono [OF exit_loop_spec [OF pre]]) (use clear len in \<open>auto simp: in_set_conv_nth\<close>)
  show ?thesis unfolding fgds_exit_def runs_to_sq lift runs_to_bnd runs_to_gets
    by (rule runs_to_mono [OF loop])
      (use refs unmap assms(1) in \<open>auto simp: lift class_destroy_def ctl_inv_def\<close>)
qed

text \<open>The module with one mapped GPU.\<close>

definition kmod_one :: "unit kmod" where
  "kmod_one = \<lparr>m_ctl = (ktl_init ())\<lparr>dev_num := 1, klog := [K_pci_get 7, K_pgmap_alloc 0],
     gpu_dev := (replicate 16 dev_init)[0 := \<lparr>pdev = Some 7, bar_size = 0x1000000000, paddr = 0x200000000000, idx = 0,
       p2p_pgmap = Some (0x200000000000, 0x200fffffffff), pci_mem_va = 0xffffa00000000000, remapped = True\<rparr>]\<rparr>,
     m_p2p = p2p_none, m_pci = pci_init, hash_ready = True\<rparr>"

lemma kmod_one_dev: "gpu_dev (m_ctl kmod_one) ! i =
    (if i = 0 then \<lparr>pdev = Some 7, bar_size = 0x1000000000, paddr = 0x200000000000, idx = 0,
       p2p_pgmap = Some (0x200000000000, 0x200fffffffff), pci_mem_va = 0xffffa00000000000, remapped = True\<rparr> else dev_init)"
  if "i < 16"
  using that by (simp add: kmod_one_def ktl_init_def nth_list_update)

lemma kmod_one_inv: "ctl_inv (m_ctl kmod_one)" "n_mapped (m_ctl kmod_one) = 1"
proof -
  have devs: "gpu_dev (m_ctl kmod_one) = \<lparr>pdev = Some 7, bar_size = 0x1000000000, paddr = 0x200000000000, idx = 0,
       p2p_pgmap = Some (0x200000000000, 0x200fffffffff), pci_mem_va = 0xffffa00000000000, remapped = True\<rparr> # replicate 15 dev_init"
    by (simp add: kmod_one_def ktl_init_def numeral_eq_Suc)
  show "n_mapped (m_ctl kmod_one) = 1" by (simp add: n_mapped_def devs dev_init_def)
  then show "ctl_inv (m_ctl kmod_one)"
    unfolding ctl_inv_def devs by (simp add: dev_ok_def mapped_ok_def IS_ERR_OR_NULL_def dev_init_def) (simp add: kmod_one_def ktl_init_def)
qed

theorem unload_leaks_pci_references_witness:
  "runs_to fgds_exit kmod_one (\<lambda>_ t. pgmaps (klog (m_ctl t)) = 0 \<and> pci_refs (klog (m_ctl t)) = 1)"
proof -
  have "dev_num (m_ctl kmod_one) \<le> MAX_DEV_NUM" by (simp add: kmod_one_def ktl_init_def)
  moreover have "\<forall>i<MAX_DEV_NUM. remapped (gpu_dev (m_ctl kmod_one) ! i) \<longrightarrow> i < dev_num (m_ctl kmod_one)"
    using kmod_one_dev by (simp add: dev_init_def) (simp add: kmod_one_def ktl_init_def)
  ultimately show ?thesis
    by (intro runs_to_mono [OF unload_leaks_pci_references [OF kmod_one_inv(1)]]) (simp_all add: kmod_one_inv(2))
qed

text \<open>
  A failed load keeps the driver pinned. If the symbols are all bound but no GPU is found,
  \<open>fgds_init\<close> returns -1 without releasing them: one reference on each symbol stays, and nothing calls
  \<open>fgds_exit\<close> after a failed load.
\<close>

theorem failed_load_keeps_symbols:
  assumes "refs_held base (m_p2p s)" and "\<forall>f. available f" and "class_devs 0x30200 = []" and "DEV_NUM (m_pci s) = 0"
  shows "runs_to (fgds_init x86 k available class_devs par) s (\<lambda>r t. r = -1 \<and>
    m_p2p t = \<lparr>p2p_ptr = \<lambda>_. True, sym_refs = \<lambda>f. base f + 1\<rparr> \<and> m_ctl t = m_ctl s)"
proof -
  have "nvfs_fill_gpu2peer_distance_table_once class_devs (m_pci s) = Inr ((m_pci s)\<lparr>gpu_info_table := replicate 64 0\<rparr>)"
    using assms(3,4) by (simp add: nvfs_fill_gpu2peer_distance_table_once_def nvfs_find_all_device_paths_def sort_outer.simps)
  moreover have "count_gpus (take 16 (replicate 64 0)) 0 = 0" by (simp add: numeral_eq_Suc)
  ultimately show ?thesis using p2p_init_ok [OF assms(1), of available] assms(2)
    by (simp add: fgds_init_def runs_to_def Let_def)
qed

theorem failed_load_keeps_symbols_witness:
  "runs_to (fgds_init True kenv_ok (\<lambda>_. True) (\<lambda>_. []) \<lparr>use_all_gpus = 1, gpuids = [], gpuids_count = 0\<rparr>)
    \<lparr>m_ctl = ktl_init (), m_p2p = p2p_none, m_pci = pci_init, hash_ready = False\<rparr>
    (\<lambda>r t. r = -1 \<and> sym_refs (m_p2p t) Get_Pages = 1)"
  by (rule runs_to_mono [OF failed_load_keeps_symbols [where base = "\<lambda>_. 0"]])
    (simp_all add: refs_held_def p2p_none_def pci_init_def)

text \<open>An environment with a BAR of 1 MB whose first mapping fails.\<close>

definition kenv_small :: "unit kenv" where
  "kenv_small = kenv_ok\<lparr>k_bar_len := (\<lambda>_ j. if j = 0 then 0x100000 else 0), k_bar_start := (\<lambda>_ j. 0xe0000000),
     k_memremap_pages := (\<lambda>a _ w. (if a = 0xe0000000 then 0 else a, w))\<rparr>"

text \<open>
  A small BAR is mapped outside itself. The test for an empty range compares an unsigned size with
  \<open><= 0\<close>; for a BAR shorter than the bytes skipped the size wraps around. With a BAR of 1 MB whose first
  mapping fails, the device ends up mapped 1 MB behind its BAR with a size of almost 16 exabytes.
\<close>

theorem small_bar_wraps:
  "runs_to (fgds_ctrl_init True kenv_small \<lparr>use_all_gpus = 1, gpuids = [], gpuids_count = 0\<rparr> [0x1e00] 1) (ktl_init ())
    (\<lambda>r t. r = 0 \<and> remapped (gpu_dev t ! 0) \<and> paddr (gpu_dev t ! 0) = 0xe0200000 \<and> bar_size (gpu_dev t ! 0) = - 0x100000)"
  by (simp add: fgds_ctrl_init_def fgds_use_device_def fgds_devm_memremap_def skip_loop.simps bar_loop.simps kenv_small_def
    kenv_ok_def IS_ERR_OR_NULL_def ktl_init_def dev_init_def Let_def upt_rec)

end
