(* ===== verification/Kmod_Mem.thy ===== *)
theory Kmod_Mem
  imports Fgds_State Kmod_Ctrl
begin

text \<open>
  The kernel side of a registered buffer (module/fgds-mem.c, module/fgds-mem.h, and \<open>fgds_ioctl\<close> of
  module/fgds.c): the descriptor made by \<open>mmap\<close>, the binding of GPU pages to it by the map ioctl, its
  release by the unmap ioctl, and the reference counts in between.

  Every object that the code allocates lives in one explicit store \<open>kheap\<close> from addresses to objects;
  a freed address has no entry and addresses are not reused, so that a dangling pointer is a pointer
  without an entry. The areas of the process (\<open>struct vm_area_struct\<close>) belong to the kernel and are a
  function from their identity. The allocator, \<open>vma_lookup\<close>, \<open>vm_insert_pages\<close>, \<open>virt_to_page\<close>, the hash
  function, \<open>copy_from_user\<close> and the NVIDIA driver are the fields of a record \<open>'w menv\<close>.
\<close>

section \<open>Objects, state and environment\<close>

abbreviation PAGE_SIZE :: u64 where "PAGE_SIZE \<equiv> 4096"
abbreviation GPU_PAGE_SIZE :: u64 where "GPU_PAGE_SIZE \<equiv> 65536"
abbreviation FGDS_MIN_BASE_INDEX :: u64 where "FGDS_MIN_BASE_INDEX \<equiv> 4294967296"
abbreviation VM_PFNMAP :: u64 where "VM_PFNMAP \<equiv> 0x400"
abbreviation VM_IO :: u64 where "VM_IO \<equiv> 0x4000"
abbreviation VM_MIXEDMAP :: u64 where "VM_MIXEDMAP \<equiv> 0x10000000"

text \<open>\<open>struct fgds_mmap_buffer\<close> of the module. \<open>mb_dev\<close> is the index of the device in the controller.\<close>

record mbuffer =
  ref :: u32
  c_vaddr :: u64
  map_len :: u64
  mb_dev_addr :: u64
  mb_dev_len :: u64
  base_index :: u64
  mb_dev_id :: nat
  dev_page_addrs :: "nat option"
  dev_page_num :: u64
  cpu_pages_per_gpu_page :: u64
  ppages :: "nat option"
  host_page_num :: u64
  mb_vma :: "nat option"
  mb_dev :: "nat option"
  remap :: bool
  mb_map :: "nat option"

text \<open>
  \<open>struct p2p_vmap\<close> (the fields that the code assigns; \<open>data\<close> of a new one holds no meaningful value
  until it is assigned, and no code reads it before) and \<open>struct gpu_region\<close>, whose page table is the
  driver's: one entry per GPU page, absent or with a physical address.
\<close>

record p2p_vmap =
  vmap_page_size :: u64
  vmap_size :: u64
  gpuvaddr :: u64
  vmap_dev_page_num :: u64
  vmap_pages :: "nat option"
  vmap_addrs :: "u64 list"
  vmap_data :: "nat option"

record gpu_region =
  gd_pages :: "u64 option list option"

datatype kobj = Mbuf mbuffer | Vmap p2p_vmap | Region gpu_region | U64s "u64 list" | Pages "u64 option list"

record vma =
  vm_start :: u64
  vm_end :: u64
  vm_flags :: u64
  vm_page_prot :: u64
  vm_private_data :: "nat option"

datatype mcall =
    M_get_pages u64 u64 nat int      \<comment> \<open>address, length, the argument of the callback, result\<close>
  | M_put_pages u64 "u64 option list"
  | M_insert nat u64 "u64 option list" int

record 'w kmem =
  kheap :: "nat \<rightharpoonup> kobj"
  knext :: nat
  mbhash :: "nat \<Rightarrow> nat list"
  hash_lock :: mutex
  base_index_cnt :: u32
  vmas :: "nat \<Rightarrow> vma"
  drv :: p2p_state
  devs :: "fgds_dev list"
  mcalls :: "mcall list"
  mworld :: 'w

record 'w menv =
  m_kmalloc :: "u64 \<Rightarrow> 'w \<Rightarrow> bool \<times> 'w"
  m_vma_lookup :: "u64 \<Rightarrow> 'w \<Rightarrow> nat option"
  m_get_pages :: "u64 \<Rightarrow> u64 \<Rightarrow> 'w \<Rightarrow> (int \<times> u64 option list option) \<times> 'w"
  m_put_pages :: "u64 \<Rightarrow> u64 option list \<Rightarrow> 'w \<Rightarrow> int \<times> 'w"
  m_insert_pages :: "nat \<Rightarrow> u64 \<Rightarrow> u64 option list \<Rightarrow> 'w \<Rightarrow> int \<times> 'w"
  m_virt_to_page :: "u64 \<Rightarrow> u64"
  m_hash :: "u64 \<Rightarrow> nat"
  m_copy_failed :: "'w \<Rightarrow> bool"
  m_def_flags :: u64
  m_noncached :: "u64 \<Rightarrow> u64"

section \<open>Memory\<close>

definition mext :: "('w \<Rightarrow> 'a \<times> 'w) \<Rightarrow> ('w kmem, 'a) prog" where
  "mext f = (\<lambda>s. case f (mworld s) of (r, w) \<Rightarrow> Inr (r, s\<lparr>mworld := w\<rparr>))"

definition mlogged :: "mcall \<Rightarrow> ('w kmem, unit) prog" where
  "mlogged c = modify (\<lambda>s. s\<lparr>mcalls := mcalls s @ [c]\<rparr>)"

definition kmalloc :: "'w menv \<Rightarrow> u64 \<Rightarrow> kobj \<Rightarrow> ('w kmem, nat option) prog" where
  "kmalloc k sz x = bnd (mext (m_kmalloc k sz)) (\<lambda>ok. if \<not> ok then ret None else
     bnd (gets knext) (\<lambda>p. sq (modify (\<lambda>s. s\<lparr>kheap := (kheap s)(p \<mapsto> x), knext := Suc p\<rparr>)) (ret (Some p))))"

definition kfree :: "nat \<Rightarrow> ('w kmem, unit) prog" where
  "kfree p = bnd (gets (\<lambda>s. kheap s p)) (\<lambda>x. sq (assert_or Double_Free (x \<noteq> None))
     (modify (\<lambda>s. s\<lparr>kheap := (kheap s)(p := None)\<rparr>)))"

definition kfree_opt :: "nat option \<Rightarrow> ('w kmem, unit) prog" where
  "kfree_opt q = (case q of None \<Rightarrow> ret () | Some p \<Rightarrow> kfree p)"

definition put_obj :: "nat \<Rightarrow> kobj \<Rightarrow> ('w kmem, unit) prog" where
  "put_obj p x = modify (\<lambda>s. s\<lparr>kheap := (kheap s)(p \<mapsto> x)\<rparr>)"

definition load_mb :: "nat \<Rightarrow> ('w kmem, mbuffer) prog" where
  "load_mb p = bnd (gets (\<lambda>s. kheap s p)) (\<lambda>x. case x of Some (Mbuf b) \<Rightarrow> ret b | _ \<Rightarrow> fail Use_After_Free)"

definition load_vmap :: "nat \<Rightarrow> ('w kmem, p2p_vmap) prog" where
  "load_vmap p = bnd (gets (\<lambda>s. kheap s p)) (\<lambda>x. case x of Some (Vmap b) \<Rightarrow> ret b | _ \<Rightarrow> fail Use_After_Free)"

definition load_region :: "nat \<Rightarrow> ('w kmem, gpu_region) prog" where
  "load_region p = bnd (gets (\<lambda>s. kheap s p)) (\<lambda>x. case x of Some (Region b) \<Rightarrow> ret b | _ \<Rightarrow> fail Use_After_Free)"

definition load_u64s :: "nat \<Rightarrow> ('w kmem, u64 list) prog" where
  "load_u64s p = bnd (gets (\<lambda>s. kheap s p)) (\<lambda>x. case x of Some (U64s b) \<Rightarrow> ret b | _ \<Rightarrow> fail Use_After_Free)"

definition load_pages :: "nat \<Rightarrow> ('w kmem, u64 option list) prog" where
  "load_pages p = bnd (gets (\<lambda>s. kheap s p)) (\<lambda>x. case x of Some (Pages b) \<Rightarrow> ret b | _ \<Rightarrow> fail Use_After_Free)"

definition upd_mb :: "nat \<Rightarrow> (mbuffer \<Rightarrow> mbuffer) \<Rightarrow> ('w kmem, unit) prog" where
  "upd_mb p f = bnd (load_mb p) (\<lambda>b. put_obj p (Mbuf (f b)))"

definition hash_acquire :: "('w kmem, unit) prog" where
  "hash_acquire = bnd (gets hash_lock) (\<lambda>m. bnd (lift (mutex_lock m)) (\<lambda>m. modify (\<lambda>s. s\<lparr>hash_lock := m\<rparr>)))"

definition hash_release :: "('w kmem, unit) prog" where
  "hash_release = bnd (gets hash_lock) (\<lambda>m. bnd (lift (mutex_unlock m)) (\<lambda>m. modify (\<lambda>s. s\<lparr>hash_lock := m\<rparr>)))"

section \<open>Release\<close>

definition release_gpu_memory_core :: "'w menv \<Rightarrow> nat option \<Rightarrow> ('w kmem, unit) prog" where
  "release_gpu_memory_core k mp = (case mp of None \<Rightarrow> ret () | Some p \<Rightarrow>
     bnd (load_vmap p) (\<lambda>v.
     sq (case vmap_data v of None \<Rightarrow> ret () | Some gd \<Rightarrow>
         bnd (load_region gd) (\<lambda>g.
         sq (case gd_pages g of None \<Rightarrow> ret () | Some tbl \<Rightarrow>
             bnd (gets drv) (\<lambda>d.
             bnd (nvfs_nvidia_p2p_put_pages d ret (\<lambda>_ _ va tbl. sq (mlogged (M_put_pages va tbl)) (mext (m_put_pages k va tbl)))
                   0 0 (gpuvaddr v) tbl) (\<lambda>_.
             put_obj gd (Region (g\<lparr>gd_pages := None\<rparr>)))))
         (sq (kfree gd) (put_obj p (Vmap (v\<lparr>vmap_data := None\<rparr>))))))
     (sq (case vmap_pages v of None \<Rightarrow> ret () | Some q \<Rightarrow> kfree q)
     (kfree p))))"

definition release_gpu_memory :: "'w menv \<Rightarrow> nat option \<Rightarrow> ('w kmem, unit) prog" where
  "release_gpu_memory k mp = (if mp = None then ret () else release_gpu_memory_core k mp)"

definition force_release_gpu_memory :: "'w menv \<Rightarrow> nat option \<Rightarrow> ('w kmem, unit) prog" where
  "force_release_gpu_memory k mp = (case mp of None \<Rightarrow> ret () | Some p \<Rightarrow>
     sq (load_vmap p) (release_gpu_memory_core k mp))"

section \<open>Lookup\<close>

definition fgds_lookup_mmap_buffer :: "'w menv \<Rightarrow> u64 \<Rightarrow> u64 \<Rightarrow> ('w kmem, nat option) prog" where
  "fgds_lookup_mmap_buffer k cpuvaddr len =
     (if cpuvaddr = 0 then ret None
      else if cpuvaddr mod PAGE_SIZE \<noteq> 0 then ret None
      else bnd (gets (\<lambda>s. m_vma_lookup k cpuvaddr (mworld s))) (\<lambda>v. case v of None \<Rightarrow> ret None | Some v \<Rightarrow>
        bnd (gets (\<lambda>s. vm_private_data (vmas s v))) (\<lambda>mb. case mb of None \<Rightarrow> ret None | Some p \<Rightarrow>
        bnd (load_mb p) (\<lambda>b.
        if c_vaddr b \<noteq> cpuvaddr \<or> map_len b \<noteq> len then ret None else ret (Some p)))))"

section \<open>Binding GPU pages\<close>

definition DIV_ROUND_UP :: "u64 \<Rightarrow> u64 \<Rightarrow> u64" where
  "DIV_ROUND_UP n d = (n + d - 1) div d"

text \<open>The label \<open>out\<close>, with the local variables \<open>gd\<close> and \<open>dev_page_addrs\<close>.\<close>

definition map_out :: "nat \<Rightarrow> nat option \<Rightarrow> nat option \<Rightarrow> int \<Rightarrow> ('w kmem, int) prog" where
  "map_out mb gd addrs r =
     sq (kfree_opt gd)
     (bnd (load_mb mb) (\<lambda>b. sq (kfree_opt (mb_map b))
     (sq (upd_mb mb (\<lambda>b. b\<lparr>mb_map := None\<rparr>))
     (sq (kfree_opt (ppages b))
     (sq (upd_mb mb (\<lambda>b. b\<lparr>ppages := None\<rparr>))
     (sq (kfree_opt addrs)
     (ret r)))))))"

text \<open>
  The loops over GPU pages. They return \<open>False\<close> when they leave through \<open>out\<close>. The indices are kept
  as naturals: an array of \<open>2\<^sup>31\<close> entries is beyond what the allocator returns.
\<close>

fun phys_loop :: "nat \<Rightarrow> nat \<Rightarrow> nat list \<Rightarrow> ('w kmem, bool) prog" where
  "phys_loop gd addrs [] = ret True"
| "phys_loop gd addrs (i # is) =
     bnd (load_region gd) (\<lambda>g. bnd (the_or Null_Deref (gd_pages g)) (\<lambda>tbl.
     sq (assert_or Out_Of_Bounds (i < length tbl))
     (case tbl ! i of None \<Rightarrow> ret False | Some pa \<Rightarrow>
       bnd (load_u64s addrs) (\<lambda>xs. sq (assert_or Out_Of_Bounds (i < length xs))
       (sq (put_obj addrs (U64s (xs[i := pa]))) (phys_loop gd addrs is))))))"

definition set_ppage :: "nat \<Rightarrow> nat \<Rightarrow> u64 \<Rightarrow> ('w kmem, unit) prog" where
  "set_ppage mb n pg = bnd (load_mb mb) (\<lambda>b. bnd (the_or Null_Deref (ppages b)) (\<lambda>pp.
     bnd (load_pages pp) (\<lambda>xs. sq (assert_or Out_Of_Bounds (n < length xs)) (put_obj pp (Pages (xs[n := Some pg]))))))"

fun page_fill_loop :: "'w menv \<Rightarrow> nat \<Rightarrow> fgds_dev \<Rightarrow> nat \<Rightarrow> nat list \<Rightarrow> ('w kmem, bool) prog" where
  "page_fill_loop k mb f_dev addrs [] = ret True"
| "page_fill_loop k mb f_dev addrs (i # is) =
     bnd (load_u64s addrs) (\<lambda>xs. sq (assert_or Out_Of_Bounds (i < length xs))
     (let pci_bar_off = xs ! i - paddr f_dev; cpu_vaddr = pci_mem_va f_dev + pci_bar_off in
      if pci_bar_off > bar_size f_dev - GPU_PAGE_SIZE then ret False
      else bnd (load_mb mb) (\<lambda>b. let n = unat (cpu_pages_per_gpu_page b) in
        sq (for_each [0..<n] (\<lambda>j. set_ppage mb (i * n + j) (m_virt_to_page k (cpu_vaddr + of_nat j * PAGE_SIZE))))
        (page_fill_loop k mb f_dev addrs is))))"

text \<open>From the insertion of the pages to the return.\<close>

definition map_insert :: "'w menv \<Rightarrow> nat \<Rightarrow> nat option \<Rightarrow> nat \<Rightarrow> nat \<Rightarrow> ('w kmem, int) prog" where
  "map_insert k mb vma gd addrs =
     bnd (load_mb mb) (\<lambda>b. bnd (the_or Null_Deref vma) (\<lambda>v. bnd (the_or Null_Deref (ppages b)) (\<lambda>pp.
     bnd (load_pages pp) (\<lambda>xs. sq (assert_or Out_Of_Bounds (unat (host_page_num b) \<le> length xs))
     (let pgs = take (unat (host_page_num b)) xs in
      bnd (mext (m_insert_pages k v (c_vaddr b) pgs)) (\<lambda>r. sq (mlogged (M_insert v (c_vaddr b) pgs r))
      (if r \<noteq> 0 then map_out mb (Some gd) (Some addrs) r
       else sq (upd_mb mb (\<lambda>b. b\<lparr>remap := True\<rparr>)) (ret r))))))))"

text \<open>
  From the call of the driver to the filling of \<open>ppages\<close>. \<open>M_get_pages\<close> records the call of the wrapper and its
  result, also when the symbol of the driver is not bound.
\<close>

definition map_pages :: "'w menv \<Rightarrow> nat \<Rightarrow> nat option \<Rightarrow> fgds_dev \<Rightarrow> nat \<Rightarrow> nat \<Rightarrow> nat \<Rightarrow> ('w kmem, int) prog" where
  "map_pages k mb vma f_dev mp gd addrs =
     bnd (load_vmap mp) (\<lambda>v. bnd (gets drv) (\<lambda>d.
     bnd (nvfs_nvidia_p2p_get_pages d (\<lambda>e. ret (e, None)) (\<lambda>_ _ va len. mext (m_get_pages k va len))
           0 0 (gpuvaddr v) (GPU_PAGE_SIZE * vmap_dev_page_num v)) (\<lambda>(r, tbl).
     sq (mlogged (M_get_pages (gpuvaddr v) (GPU_PAGE_SIZE * vmap_dev_page_num v) mp r))
     (sq (case tbl of None \<Rightarrow> ret () | Some t \<Rightarrow> put_obj gd (Region \<lparr>gd_pages = Some t\<rparr>))
     (bnd (phys_loop gd addrs [0..<unat (vmap_dev_page_num v)]) (\<lambda>ok.
      if \<not> ok then map_out mb (Some gd) (Some addrs) r
      else sq (upd_mb mb (\<lambda>b. b\<lparr>dev_page_addrs := Some addrs\<rparr>))
      (bnd (page_fill_loop k mb f_dev addrs [0..<unat (vmap_dev_page_num v)]) (\<lambda>ok.
       if \<not> ok then map_out mb (Some gd) (Some addrs) (- EINVAL)
       else map_insert k mb vma gd addrs))))))))"

text \<open>The allocations. \<open>sizeof(struct p2p_vmap)\<close> is 80, one entry of \<open>addrs\<close> included.\<close>

definition blank_vmap :: "p2p_vmap" where
  "blank_vmap = \<lparr>vmap_page_size = 0, vmap_size = 0, gpuvaddr = 0, vmap_dev_page_num = 0, vmap_pages = None,
     vmap_addrs = [], vmap_data = None\<rparr>"

definition map_alloc :: "'w menv \<Rightarrow> nat \<Rightarrow> nat option \<Rightarrow> fgds_dev \<Rightarrow> u64 \<Rightarrow> u64 \<Rightarrow> u64 \<Rightarrow> ('w kmem, int) prog" where
  "map_alloc k mb vma f_dev devaddr dev_len nr =
     bnd (kmalloc k (nr * 8) (U64s (replicate (unat nr) 0))) (\<lambda>addrs. case addrs of None \<Rightarrow> map_out mb None None (- ENOMEM)
     | Some addrs \<Rightarrow>
     bnd (load_mb mb) (\<lambda>b. let n = host_page_num b in
     bnd (kmalloc k (n * 8) (Pages (replicate (unat n) None))) (\<lambda>pp. sq (upd_mb mb (\<lambda>b. b\<lparr>ppages := pp\<rparr>))
     (if pp = None then map_out mb None (Some addrs) (- ENOMEM) else
     bnd (kmalloc k (80 + (nr - 1) * 8) (Vmap blank_vmap)) (\<lambda>mp. sq (upd_mb mb (\<lambda>b. b\<lparr>mb_map := mp\<rparr>))
     (case mp of None \<Rightarrow> map_out mb None (Some addrs) (- ENOMEM) | Some mp \<Rightarrow>
     sq (put_obj mp (Vmap (blank_vmap\<lparr>vmap_page_size := GPU_PAGE_SIZE, vmap_size := dev_len, gpuvaddr := devaddr,
           vmap_dev_page_num := dev_page_num b, vmap_pages := None, vmap_addrs := replicate (unat (dev_page_num b)) 0\<rparr>)))
     (bnd (kmalloc k 8 (Region \<lparr>gd_pages = None\<rparr>)) (\<lambda>gd. case gd of None \<Rightarrow> map_out mb None (Some addrs) (- ENOMEM)
     | Some gd \<Rightarrow>
     bnd (load_vmap mp) (\<lambda>v. sq (put_obj mp (Vmap (v\<lparr>vmap_data := Some gd\<rparr>)))
     (map_pages k mb vma f_dev mp gd addrs))))))))))"

definition fgds_map_dev_addr_inner :: "'w menv \<Rightarrow> nat \<Rightarrow> u64 \<Rightarrow> u64 \<Rightarrow> ('w kmem, int) prog" where
  "fgds_map_dev_addr_inner k mb devaddr dev_len =
     bnd (load_mb mb) (\<lambda>b0. sq (upd_mb mb (\<lambda>b. b\<lparr>cpu_pages_per_gpu_page := GPU_PAGE_SIZE div PAGE_SIZE\<rparr>))
     (case mb_dev b0 of None \<Rightarrow> map_out mb None None (- ENOMEM) | Some i \<Rightarrow>
     bnd (gets devs) (\<lambda>ds. sq (assert_or Out_Of_Bounds (i < length ds))
     (let f_dev = ds ! i; nr = DIV_ROUND_UP dev_len GPU_PAGE_SIZE in
      if pci_mem_va f_dev = 0 then map_out mb None None (- ENOMEM)
      else sq (upd_mb mb (\<lambda>b. b\<lparr>dev_page_num := nr\<rparr>))
      (if dev_len < GPU_PAGE_SIZE \<and> dev_len mod PAGE_SIZE \<noteq> 0 then map_out mb None None (- EINVAL)
       else sq (upd_mb mb (\<lambda>b. b\<lparr>host_page_num :=
           (if dev_len < GPU_PAGE_SIZE then DIV_ROUND_UP dev_len PAGE_SIZE else nr * cpu_pages_per_gpu_page b)\<rparr>))
       (map_alloc k mb (mb_vma b0) f_dev devaddr dev_len nr))))))"

definition fgds_map_dev_addr :: "'w menv \<Rightarrow> u64 \<Rightarrow> u64 \<Rightarrow> u64 \<Rightarrow> u64 \<Rightarrow> ('w kmem, int) prog" where
  "fgds_map_dev_addr k devaddr dev_len cpuvaddr len =
     bnd (fgds_lookup_mmap_buffer k cpuvaddr len) (\<lambda>mb. case mb of None \<Rightarrow> ret (- EINVAL) | Some mb \<Rightarrow>
     bnd (load_mb mb) (\<lambda>b. if mb_vma b = None \<or> devaddr \<le> len then ret (- EINVAL)
       else sq (upd_mb mb (\<lambda>b. b\<lparr>mb_dev_addr := devaddr, mb_dev_len := dev_len\<rparr>))
         (fgds_map_dev_addr_inner k mb devaddr dev_len)))"

section \<open>Reference counts\<close>

definition fgds_mbuffer_free :: "'w menv \<Rightarrow> nat \<Rightarrow> ('w kmem, unit) prog" where
  "fgds_mbuffer_free k mb =
     sq hash_acquire
     (sq (load_mb mb)
     (sq (modify (\<lambda>s. s\<lparr>mbhash := (\<lambda>i. remove1 mb (mbhash s i))\<rparr>))
     (sq hash_release
     (bnd (load_mb mb) (\<lambda>b.
      sq (if remap b then sq (release_gpu_memory k (mb_map b)) (upd_mb mb (\<lambda>b. b\<lparr>mb_map := None, remap := False\<rparr>)) else ret ())
      (sq (case dev_page_addrs b of None \<Rightarrow> ret () | Some p \<Rightarrow> sq (kfree p) (upd_mb mb (\<lambda>b. b\<lparr>dev_page_addrs := None\<rparr>)))
      (sq (case ppages b of None \<Rightarrow> ret () | Some p \<Rightarrow> sq (kfree p) (upd_mb mb (\<lambda>b. b\<lparr>ppages := None\<rparr>)))
      (upd_mb mb (\<lambda>b. b\<lparr>mb_dev := None, mb_vma := None, base_index := 0, mb_dev_addr := 0, mb_dev_len := 0\<rparr>)))))))))"

definition fgds_mbuffer_init :: "('w kmem, unit) prog" where
  "fgds_mbuffer_init = modify (\<lambda>s. s\<lparr>hash_lock := Unlocked, mbhash := (\<lambda>_. [])\<rparr>)"

definition fgds_mbuffer_get_ref :: "nat \<Rightarrow> ('w kmem, unit) prog" where
  "fgds_mbuffer_get_ref mb = upd_mb mb (\<lambda>b. b\<lparr>ref := ref b + 1\<rparr>)"

definition fgds_mbuffer_put_ref :: "nat \<Rightarrow> ('w kmem, bool) prog" where
  "fgds_mbuffer_put_ref mb = sq (upd_mb mb (\<lambda>b. b\<lparr>ref := ref b - 1\<rparr>)) (bnd (load_mb mb) (\<lambda>b. ret (ref b = 0)))"

definition fgds_mbuffer_put_internal :: "'w menv \<Rightarrow> nat option \<Rightarrow> ('w kmem, unit) prog" where
  "fgds_mbuffer_put_internal k mb = (case mb of None \<Rightarrow> ret () | Some mb \<Rightarrow>
     bnd (fgds_mbuffer_put_ref mb) (\<lambda>zero. if zero then sq (fgds_mbuffer_free k mb) (kfree mb) else ret ()))"

definition fgds_mbuffer_put :: "'w menv \<Rightarrow> nat option \<Rightarrow> ('w kmem, unit) prog" where
  "fgds_mbuffer_put = fgds_mbuffer_put_internal"

definition fgds_mbuffer_put_dma :: "'w menv \<Rightarrow> nat option \<Rightarrow> ('w kmem, unit) prog" where
  "fgds_mbuffer_put_dma = fgds_mbuffer_put_internal"

fun get_loop :: "u64 \<Rightarrow> nat list \<Rightarrow> ('w kmem, nat option) prog" where
  "get_loop i [] = ret None"
| "get_loop i (p # ps) = bnd (load_mb p) (\<lambda>b.
     if base_index b = i then sq (fgds_mbuffer_get_ref p) (ret (Some p)) else get_loop i ps)"

definition fgds_mbuffer_get_unlocked :: "'w menv \<Rightarrow> u64 \<Rightarrow> ('w kmem, nat option) prog" where
  "fgds_mbuffer_get_unlocked k i = bnd (gets (\<lambda>s. mbhash s (m_hash k i))) (get_loop i)"

definition fgds_mbuffer_get :: "'w menv \<Rightarrow> u64 \<Rightarrow> ('w kmem, nat option) prog" where
  "fgds_mbuffer_get = fgds_mbuffer_get_unlocked"

definition fgds_map_dev_release :: "'w menv \<Rightarrow> u64 \<Rightarrow> u64 \<Rightarrow> u64 \<Rightarrow> u64 \<Rightarrow> ('w kmem, unit) prog" where
  "fgds_map_dev_release k devaddr dev_len cpuvaddr len =
     bnd (fgds_lookup_mmap_buffer k cpuvaddr len) (\<lambda>mb. case mb of None \<Rightarrow> ret () | Some p \<Rightarrow> fgds_mbuffer_put k mb)"

section \<open>The file operations\<close>

definition blank_mbuffer :: mbuffer where
  "blank_mbuffer = \<lparr>ref = 0, c_vaddr = 0, map_len = 0, mb_dev_addr = 0, mb_dev_len = 0, base_index = 0, mb_dev_id = 0,
     dev_page_addrs = None, dev_page_num = 0, cpu_pages_per_gpu_page = 0, ppages = None, host_page_num = 0,
     mb_vma = None, mb_dev = None, remap = False, mb_map = None\<rparr>"

text \<open>
  \<open>dev\<close> is the \<open>private_data\<close> of the file: the device that \<open>fgds_open\<close> chose. The loop over \<open>tries\<close>
  always leaves in its first round with the new descriptor in the table, so that the test after it
  never holds.
\<close>

definition fgds_setup_mmap_buffer :: "'w menv \<Rightarrow> nat option \<Rightarrow> nat \<Rightarrow> ('w kmem, int) prog" where
  "fgds_setup_mmap_buffer k dev vma =
     bnd (gets (\<lambda>s. vmas s vma)) (\<lambda>v. let buffer_len = vm_end v - vm_start v in
     (case dev of None \<Rightarrow> ret (- EINVAL) | Some d \<Rightarrow>
     bnd (kmalloc k 144 (Mbuf blank_mbuffer)) (\<lambda>new. case new of None \<Rightarrow> ret (- ENOMEM) | Some mb \<Rightarrow>
     sq hash_acquire
     (sq (modify (\<lambda>s. s\<lparr>base_index_cnt := base_index_cnt s + 1\<rparr>))
     (bnd (gets (\<lambda>s. FGDS_MIN_BASE_INDEX + scast (base_index_cnt s))) (\<lambda>i.
     sq (upd_mb mb (\<lambda>b. b\<lparr>base_index := i, ref := 1\<rparr>))
     (sq (modify (\<lambda>s. s\<lparr>mbhash := (mbhash s)(m_hash k i := mb # mbhash s (m_hash k i))\<rparr>))
     (sq hash_release
     (if vm_private_data v \<noteq> None then ret (- EINVAL)
      else sq (modify (\<lambda>s. s\<lparr>vmas := (vmas s)(vma := (vmas s vma)\<lparr>vm_private_data := Some mb\<rparr>)\<rparr>))
        (bnd (gets devs) (\<lambda>ds. sq (assert_or Out_Of_Bounds (d < length ds))
        (sq (upd_mb mb (\<lambda>b. b\<lparr>mb_vma := Some vma, mb_dev := Some d, mb_dev_id := idx (ds ! d), c_vaddr := vm_start v,
            map_len := buffer_len, remap := False\<rparr>))
        (ret 0)))))))))))))"

unbundle bit_operations_syntax

text \<open>
  \<open>not_constant\<close> is the build option \<open>NVFS_VM_FLAGS_NOT_CONSTANT\<close>. In the other build the flags are
  set with \<open>vm_flags_set\<close>, which sets the flags given and keeps the ones that are already set.
\<close>

definition fgds_mmap :: "bool \<Rightarrow> 'w menv \<Rightarrow> nat option \<Rightarrow> nat \<Rightarrow> ('w kmem, int) prog" where
  "fgds_mmap not_constant k dev vma =
     bnd (gets (\<lambda>s. vmas s vma)) (\<lambda>v.
     let f = ((vm_flags v AND NOT VM_PFNMAP) AND NOT VM_IO) OR VM_MIXEDMAP OR m_def_flags k;
         f' = (if not_constant then f else vm_flags v OR f) in
     sq (modify (\<lambda>s. s\<lparr>vmas := (vmas s)(vma := v\<lparr>vm_flags := f', vm_page_prot := m_noncached k (vm_page_prot v)\<rparr>)\<rparr>))
     (fgds_setup_mmap_buffer k dev vma))"

definition fgds_ioctl :: "'w menv \<Rightarrow> ioctl_cmd \<Rightarrow> fgds_ioctl_map_s \<Rightarrow> ('w kmem, int) prog" where
  "fgds_ioctl k cmd a = (case cmd of
     FGDS_IOCTL_MAP \<Rightarrow> bnd (gets (\<lambda>s. m_copy_failed k (mworld s))) (\<lambda>bad. if bad then ret (- EFAULT)
       else fgds_map_dev_addr k (map_gpu_addr a) (gpu_addr_size a) (host_vaddr a) (host_vaddr_size a))
   | FGDS_IOCTL_UNMAP \<Rightarrow> bnd (gets (\<lambda>s. m_copy_failed k (mworld s))) (\<lambda>bad. if bad then ret (- EFAULT)
       else sq (fgds_map_dev_release k (map_gpu_addr a) (gpu_addr_size a) (host_vaddr a) (host_vaddr_size a)) (ret 0))
   | Other_Cmd _ \<Rightarrow> ret (- ENOTTY))"

section \<open>Reasoning rules\<close>

lemma runs_to_mext [wp, simp]:
  "runs_to (mext f) s Q = (case f (mworld s) of (r, w) \<Rightarrow> Q r (s\<lparr>mworld := w\<rparr>))"
  by (simp add: runs_to_def mext_def split: prod.split)

lemma runs_to_mlogged [wp, simp]: "runs_to (mlogged c) s Q = Q () (s\<lparr>mcalls := mcalls s @ [c]\<rparr>)"
  by (simp add: mlogged_def)

lemma runs_to_kmalloc [wp, simp]:
  "runs_to (kmalloc k sz x) s Q = (case m_kmalloc k sz (mworld s) of (ok, w) \<Rightarrow>
     if ok then Q (Some (knext s)) (s\<lparr>mworld := w, kheap := (kheap s)(knext s \<mapsto> x), knext := Suc (knext s)\<rparr>)
     else Q None (s\<lparr>mworld := w\<rparr>))"
  by (auto simp: kmalloc_def split: prod.split)

lemma runs_to_kfree [wp, simp]:
  "runs_to (kfree p) s Q = (kheap s p \<noteq> None \<and> Q () (s\<lparr>kheap := (kheap s)(p := None)\<rparr>))"
  by (auto simp: kfree_def)

lemma runs_to_kfree_opt [wp, simp]:
  "runs_to (kfree_opt None) s Q = Q () s"
  "runs_to (kfree_opt (Some p)) s Q = (kheap s p \<noteq> None \<and> Q () (s\<lparr>kheap := (kheap s)(p := None)\<rparr>))"
  by (simp_all add: kfree_opt_def)

lemma runs_to_put_obj [wp, simp]: "runs_to (put_obj p x) s Q = Q () (s\<lparr>kheap := (kheap s)(p \<mapsto> x)\<rparr>)"
  by (simp add: put_obj_def)

lemma runs_to_load [wp, simp]:
  "runs_to (load_mb p) s Q1 = (\<exists>b. kheap s p = Some (Mbuf b) \<and> Q1 b s)"
  "runs_to (load_vmap p) s Q2 = (\<exists>v. kheap s p = Some (Vmap v) \<and> Q2 v s)"
  "runs_to (load_region p) s Q3 = (\<exists>g. kheap s p = Some (Region g) \<and> Q3 g s)"
  "runs_to (load_u64s p) s Q4 = (\<exists>xs. kheap s p = Some (U64s xs) \<and> Q4 xs s)"
  "runs_to (load_pages p) s Q5 = (\<exists>ps. kheap s p = Some (Pages ps) \<and> Q5 ps s)"
  by (auto simp: load_mb_def load_vmap_def load_region_def load_u64s_def load_pages_def
    split: option.split kobj.split)

lemma runs_to_upd_mb [wp, simp]:
  "runs_to (upd_mb p f) s Q = (\<exists>b. kheap s p = Some (Mbuf b) \<and> Q () (s\<lparr>kheap := (kheap s)(p \<mapsto> Mbuf (f b))\<rparr>))"
  by (simp add: upd_mb_def)

lemma runs_to_hash_lock [wp, simp]:
  "runs_to hash_acquire s Q = (hash_lock s = Unlocked \<and> Q () (s\<lparr>hash_lock := Locked\<rparr>))"
  "runs_to hash_release s Q' = (hash_lock s = Locked \<and> Q' () (s\<lparr>hash_lock := Unlocked\<rparr>))"
  by (auto simp: hash_acquire_def hash_release_def)

declare mext_def [run] mlogged_def [run] kmalloc_def [run] kfree_def [run] kfree_opt_def [run] put_obj_def [run]
  load_mb_def [run] load_vmap_def [run] load_region_def [run] load_u64s_def [run] load_pages_def [run] upd_mb_def [run]
  hash_acquire_def [run] hash_release_def [run]

lemma kheap_same: "kheap s p = Some x \<Longrightarrow> s\<lparr>kheap := (kheap s)(p \<mapsto> x)\<rparr> = s"
  by (cases s) (simp add: fun_upd_idem)

section \<open>The loops\<close>

text \<open>The driver's entries are copied; the loop leaves early only at an absent entry.\<close>

lemma phys_loop_spec:
  assumes "kheap s gd = Some (Region \<lparr>gd_pages = Some tbl\<rparr>)" and "kheap s a = Some (U64s xs)"
    and "length xs = n" and "n \<le> length tbl" and "m \<le> n" and "\<forall>i<m. tbl ! i = Some (xs ! i)"
  shows "runs_to (phys_loop gd a [m..<n]) s (\<lambda>ok t. \<exists>ys. t = s\<lparr>kheap := (kheap s)(a \<mapsto> U64s ys)\<rparr> \<and> length ys = n \<and>
    (if ok then \<forall>i<n. tbl ! i = Some (ys ! i) else \<exists>i<n. tbl ! i = None))"
  using assms
proof (induction "n - m" arbitrary: m s xs)
  case 0
  then have up: "[m..<n] = []" and "m = n" by simp_all
  with 0 show ?case unfolding up phys_loop.simps runs_to_ret by (intro exI [of _ xs] conjI kheap_same [symmetric]) simp_all
next
  case (Suc d)
  then have up: "[m..<n] = m # [Suc m..<n]" and lt: "m < n" "m < length tbl" "m < length xs" by (auto simp: upt_conv_Cons)
  show ?case
  proof (cases "tbl ! m")
    case None
    then show ?thesis using Suc.prems lt kheap_same [of s a, symmetric] by (auto simp: up simp del: fun_upd_apply)
  next
    case (Some pa)
    let ?s = "s\<lparr>kheap := (kheap s)(a \<mapsto> U64s (xs[m := pa]))\<rparr>"
    have ne: "gd \<noteq> a" using Suc.prems(1,2) by auto
    have done': "\<forall>i<Suc m. tbl ! i = Some (xs[m := pa] ! i)"
    proof (intro allI impI)
      fix i assume "i < Suc m"
      then show "tbl ! i = Some (xs[m := pa] ! i)" using Suc.prems(6) lt Some by (cases "i = m") auto
    qed
    have "runs_to (phys_loop gd a [Suc m..<n]) ?s (\<lambda>ok t. \<exists>ys. t = ?s\<lparr>kheap := (kheap ?s)(a \<mapsto> U64s ys)\<rparr> \<and> length ys = n \<and>
        (if ok then \<forall>i<n. tbl ! i = Some (ys ! i) else \<exists>i<n. tbl ! i = None))"
      by (rule Suc.hyps(1) [of _ _ "xs[m := pa]"]) (use Suc.hyps(2) Suc.prems(1-5) ne lt done' in simp_all)
    then show ?thesis using Suc.prems lt Some by (simp add: up)
  qed
qed

text \<open>The pages that GPU pages with these physical addresses stand for, and the check of an address.\<close>

definition bar_pages :: "'w menv \<Rightarrow> fgds_dev \<Rightarrow> u64 list \<Rightarrow> u64 list" where
  "bar_pages k d phys = concat (map (\<lambda>a. map (\<lambda>j. m_virt_to_page k (pci_mem_va d + (a - paddr d) + of_nat j * PAGE_SIZE)) [0..<16]) phys)"

definition in_bar :: "fgds_dev \<Rightarrow> u64 \<Rightarrow> bool" where
  "in_bar d a \<longleftrightarrow> a - paddr d \<le> bar_size d - GPU_PAGE_SIZE"

lemma length_bar_pages [simp]: "length (bar_pages k d phys) = 16 * length phys"
  by (induction phys) (simp_all add: bar_pages_def)

lemma bar_pages_append: "bar_pages k d (xs @ ys) = bar_pages k d xs @ bar_pages k d ys"
  by (simp add: bar_pages_def)

lemma set_ppages_spec:
  assumes "kheap s mb = Some (Mbuf b)" and "ppages b = Some pp" and "kheap s pp = Some (Pages xs)" and "base + n \<le> length xs"
  shows "runs_to (for_each [0..<n] (\<lambda>j. set_ppage mb (base + j) (g j))) s (\<lambda>_ t.
    t = s\<lparr>kheap := (kheap s)(pp \<mapsto> Pages (take base xs @ map (\<lambda>j. Some (g j)) [0..<n] @ drop (base + n) xs))\<rparr>)"
proof -
  let ?I = "\<lambda>pre t. t = s\<lparr>kheap := (kheap s)(pp \<mapsto> Pages (take base xs @ map (\<lambda>j. Some (g j)) pre @ drop (base + length pre) xs))\<rparr>"
  have ne: "mb \<noteq> pp" using assms(1,3) by auto
  have "runs_to (for_each [0..<n] (\<lambda>j. set_ppage mb (base + j) (g j))) s (\<lambda>_. ?I [0..<n])"
  proof (rule runs_to_for_each [where I = ?I])
    show "?I [] s" using kheap_same [OF assms(3)] by simp
  next
    fix pre x rest t
    assume split: "[0..<n] = pre @ x # rest" and I: "?I pre t"
    have l: "length pre < n" using arg_cong [OF split, of length] by simp
    have "[0..<n] ! length pre = x" using split by simp
    then have x: "x = length pre" using l by simp
    have "drop (base + length pre) xs = xs ! (base + length pre) # drop (base + Suc (length pre)) xs"
      using Cons_nth_drop_Suc [of "base + length pre" xs] l assms(4) by simp
    then have "(take base xs @ map (\<lambda>j. Some (g j)) pre @ drop (base + length pre) xs)[base + length pre := Some (g x)] =
        take base xs @ map (\<lambda>j. Some (g j)) (pre @ [x]) @ drop (base + length (pre @ [x])) xs"
      using assms(4) by (simp add: list_update_append)
    then show "runs_to (set_ppage mb (base + x) (g x)) t (\<lambda>_. ?I (pre @ [x]))"
      using assms l ne by (simp add: I set_ppage_def x)
  qed
  then show ?thesis by simp
qed

lemma page_fill_loop_spec:
  assumes "kheap s mb = Some (Mbuf b)" and "ppages b = Some pp" and "cpu_pages_per_gpu_page b = 16"
    and "kheap s a = Some (U64s phys)" and "length phys = n" and "m \<le> n" and "\<forall>x\<in>set (take m phys). in_bar d x"
    and "kheap s pp = Some (Pages (map Some (bar_pages k d (take m phys)) @ replicate (16 * (n - m)) None))"
  shows "runs_to (page_fill_loop k mb d a [m..<n]) s (\<lambda>ok t. \<exists>ps. t = s\<lparr>kheap := (kheap s)(pp \<mapsto> Pages ps)\<rparr> \<and>
    (if ok then ps = map Some (bar_pages k d phys) \<and> (\<forall>x\<in>set phys. in_bar d x) else \<exists>x\<in>set phys. \<not> in_bar d x))"
  using assms
proof (induction "n - m" arbitrary: m s)
  case 0
  then have up: "[m..<n] = []" and "m = n" by simp_all
  with 0 show ?case unfolding up page_fill_loop.simps runs_to_ret
    by (intro exI [of _ "map Some (bar_pages k d phys)"] conjI kheap_same [symmetric]) simp_all
next
  case (Suc e)
  then have up: "[m..<n] = m # [Suc m..<n]" and lt: "m < n" "m < length phys" by (auto simp: upt_conv_Cons)
  let ?off = "phys ! m - paddr d" and ?old = "map Some (bar_pages k d (take m phys)) @ replicate (16 * (n - m)) None"
  show ?case
  proof (cases "in_bar d (phys ! m)")
    case False
    then have "runs_to (page_fill_loop k mb d a [m..<n]) s (\<lambda>ok t. \<not> ok \<and> t = s)"
      using Suc.prems lt by (simp add: up in_bar_def not_le)
    then show ?thesis
      by (rule runs_to_mono) (use False lt kheap_same [OF Suc.prems(8), symmetric] in \<open>auto intro!: exI [of _ ?old] simp del: fun_upd_apply\<close>)
  next
    case True
    let ?g = "\<lambda>j. m_virt_to_page k (pci_mem_va d + ?off + of_nat j * PAGE_SIZE)"
    let ?new = "map Some (bar_pages k d (take (Suc m) phys)) @ replicate (16 * (n - Suc m)) None"
    let ?s = "s\<lparr>kheap := (kheap s)(pp \<mapsto> Pages ?new)\<rparr>"
    have ne: "mb \<noteq> pp" "a \<noteq> pp" using Suc.prems(1,4,8) by auto
    have one: "bar_pages k d (take (Suc m) phys) = bar_pages k d (take m phys) @ map ?g [0..<16]"
      using lt by (simp add: take_Suc_conv_app_nth bar_pages_append) (simp add: bar_pages_def)
    have "n - m = Suc (n - Suc m)" using lt by simp
    then have new: "take (m * 16) ?old @ map (\<lambda>j. Some (?g j)) [0..<16] @ drop (m * 16 + 16) ?old = ?new"
      unfolding one using lt by (simp add: min_def algebra_simps)
    have fill: "runs_to (for_each [0..<16] (\<lambda>j. set_ppage mb (m * 16 + j) (?g j))) s (\<lambda>_ t. t = ?s)"
      using set_ppages_spec [OF Suc.prems(1,2,8), of "m * 16" 16 ?g] lt unfolding new by simp
    have rest: "runs_to (page_fill_loop k mb d a [Suc m..<n]) ?s (\<lambda>ok t. \<exists>ps. t = ?s\<lparr>kheap := (kheap ?s)(pp \<mapsto> Pages ps)\<rparr> \<and>
        (if ok then ps = map Some (bar_pages k d phys) \<and> (\<forall>x\<in>set phys. in_bar d x) else \<exists>x\<in>set phys. \<not> in_bar d x))"
      by (rule Suc.hyps(1)) (use Suc.hyps(2) Suc.prems ne lt True in \<open>auto simp: take_Suc_conv_app_nth\<close>)
    have step: "page_fill_loop k mb d a [m..<n] s = sq (for_each [0..<16] (\<lambda>j. set_ppage mb (m * 16 + j) (?g j))) (page_fill_loop k mb d a [Suc m..<n]) s"
      using Suc.prems lt True by (simp add: up in_bar_def Let_def run)
    show ?thesis
      unfolding runs_to_def [of "page_fill_loop k mb d a [m..<n]"] step
      unfolding runs_to_def [symmetric] runs_to_sq
      by (rule runs_to_mono [OF fill]) (use rest in simp)
  qed
qed

end
