(* ===== verification/Kmod_Bind.thy ===== *)
theory Kmod_Bind
  imports Kmod_Mem
begin

text \<open>
  What binding GPU pages to a buffer does (module/fgds-mem.c): the phases of \<open>fgds_map_dev_addr_inner\<close>, the
  release of a bound buffer, and the properties of the buffer's life from \<open>mmap\<close> to the unmap ioctl.
\<close>

section \<open>The phases of a mapping\<close>

text \<open>
  What no phase of a mapping touches: the hash table and its lock, the areas, the driver's symbols
  and the devices; and, of the descriptor, everything but the six fields that a mapping fills.
\<close>

definition mem_frame :: "'w kmem \<Rightarrow> 'w kmem \<Rightarrow> bool" where
  "mem_frame s t \<longleftrightarrow> mbhash t = mbhash s \<and> hash_lock t = hash_lock s \<and> base_index_cnt t = base_index_cnt s \<and>
     vmas t = vmas s \<and> drv t = drv s \<and> devs t = devs s"

definition same_mb :: "mbuffer \<Rightarrow> mbuffer \<Rightarrow> bool" where
  "same_mb b b' \<longleftrightarrow> ref b' = ref b \<and> c_vaddr b' = c_vaddr b \<and> map_len b' = map_len b \<and> mb_dev_addr b' = mb_dev_addr b \<and>
     mb_dev_len b' = mb_dev_len b \<and> base_index b' = base_index b \<and> mb_dev_id b' = mb_dev_id b \<and> mb_vma b' = mb_vma b \<and>
     mb_dev b' = mb_dev b"

text \<open>The objects of a descriptor that is bound to GPU pages.\<close>

definition bound_mb :: "'w kmem \<Rightarrow> nat \<Rightarrow> mbuffer \<Rightarrow> nat list \<Rightarrow> u64 \<Rightarrow> u64 list \<Rightarrow> u64 list \<Rightarrow> bool" where
  "bound_mb s mb b objs va phys pgs \<longleftrightarrow> (\<exists>a pp mp gd v. objs = [a, pp, mp, gd] \<and> kheap s mb = Some (Mbuf b) \<and>
     dev_page_addrs b = Some a \<and> kheap s a = Some (U64s phys) \<and>
     ppages b = Some pp \<and> kheap s pp = Some (Pages (map Some pgs)) \<and>
     mb_map b = Some mp \<and> kheap s mp = Some (Vmap v) \<and> gpuvaddr v = va \<and> vmap_pages v = None \<and>
     vmap_data v = Some gd \<and> kheap s gd = Some (Region \<lparr>gd_pages = Some (map Some phys)\<rparr>))"

lemma map_out_spec:
  assumes "kheap s mb = Some (Mbuf b)" and "mb_map b = Some mp" and "ppages b = Some pp"
    and "kheap s gd \<noteq> None" and "kheap s mp \<noteq> None" and "kheap s pp \<noteq> None" and "kheap s a \<noteq> None"
    and "distinct [mb, a, pp, mp, gd]"
  shows "runs_to (map_out mb (Some gd) (Some a) r) s (\<lambda>r' t. r' = r \<and>
    t = s\<lparr>kheap := (kheap s)(gd := None, mp := None, pp := None, a := None, mb \<mapsto> Mbuf (b\<lparr>mb_map := None, ppages := None\<rparr>))\<rparr>)"
proof -
  have h: "f(mb \<mapsto> x, a := None) = f(a := None, mb \<mapsto> x)" for f and x :: kobj using assms(8) by (auto simp: fun_eq_iff)
  show ?thesis using assms by (simp add: map_out_def del: fun_upd_apply) (auto simp: h)
qed

lemma map_insert_spec:
  assumes "bound_mb s mb b [a, pp, mp, gd] va phys pgs" and "unat (host_page_num b) = length pgs"
  shows "runs_to (map_insert k mb (Some v) gd a) s (\<lambda>r t. \<exists>w. m_insert_pages k v (c_vaddr b) (map Some pgs) (mworld s) = (r, w) \<and>
    t = s\<lparr>mworld := w, mcalls := mcalls s @ [M_insert v (c_vaddr b) (map Some pgs) r], kheap := (if r = 0
      then (kheap s)(mb \<mapsto> Mbuf (b\<lparr>remap := True\<rparr>))
      else (kheap s)(gd := None, mp := None, pp := None, a := None, mb \<mapsto> Mbuf (b\<lparr>mb_map := None, ppages := None\<rparr>)))\<rparr>)"
proof -
  obtain v' where b: "kheap s mb = Some (Mbuf b)" "dev_page_addrs b = Some a" "kheap s a = Some (U64s phys)" "ppages b = Some pp"
      "kheap s pp = Some (Pages (map Some pgs))" "mb_map b = Some mp" "kheap s mp = Some (Vmap v')"
      "kheap s gd = Some (Region \<lparr>gd_pages = Some (map Some phys)\<rparr>)"
    using assms(1) by (auto simp: bound_mb_def)
  then have d: "distinct [mb, a, pp, mp, gd]" by auto
  obtain r w where i: "m_insert_pages k v (c_vaddr b) (map Some pgs) (mworld s) = (r, w)" by (cases "m_insert_pages k v (c_vaddr b) (map Some pgs) (mworld s)")
  let ?s = "s\<lparr>mworld := w, mcalls := mcalls s @ [M_insert v (c_vaddr b) (map Some pgs) r]\<rparr>"
  show ?thesis
  proof (cases "r = 0")
    case True
    then show ?thesis using b assms(2) i by (simp add: map_insert_def Let_def)
  next
    case False
    have "runs_to (map_out mb (Some gd) (Some a) r) ?s (\<lambda>r' t. r' = r \<and> t = ?s\<lparr>kheap := (kheap ?s)(gd := None, mp := None, pp := None, a := None, mb \<mapsto> Mbuf (b\<lparr>mb_map := None, ppages := None\<rparr>))\<rparr>)"
      by (rule map_out_spec) (use b d in simp_all)
    then show ?thesis using b assms(2) i False
      by (simp add: map_insert_def Let_def) (erule runs_to_mono, simp)
  qed
qed

text \<open>
  The documented behaviour of the driver that the mapping relies on: it pins the range and returns a
  table with the physical address \<open>pg va len\<close> of each 64 KB page of the range.
\<close>

definition driver_ok :: "'w menv \<Rightarrow> (u64 \<Rightarrow> u64 \<Rightarrow> u64 list) \<Rightarrow> bool" where
  "driver_ok k pg \<longleftrightarrow> (\<forall>va len w. length (pg va len) = unat (len div GPU_PAGE_SIZE) \<and>
     (\<exists>w'. m_get_pages k va len w = ((0, Some (map Some (pg va len))), w')))"

text \<open>
  How a mapping ends once its objects are allocated. Either every page is inside the BAR and all pages
  are inserted at once, in order; or the objects are freed, with the field \<open>dev_page_addrs\<close> still set.
\<close>

definition map_outcome :: "'w menv \<Rightarrow> 'w kmem \<Rightarrow> nat \<Rightarrow> mbuffer \<Rightarrow> nat list \<Rightarrow> fgds_dev \<Rightarrow> nat \<Rightarrow> u64 \<Rightarrow> u64 list \<Rightarrow> int \<Rightarrow> 'w kmem \<Rightarrow> bool" where
  "map_outcome k s mb b objs d v va phys r t \<longleftrightarrow> (let ok = (\<forall>x\<in>set phys. in_bar d x); pgs = map Some (bar_pages k d phys) in
     mem_frame s t \<and> knext t = knext s \<and>
     mcalls t = mcalls s @ M_get_pages va (GPU_PAGE_SIZE * of_nat (length phys)) (objs ! 2) 0 # (if ok then [M_insert v (c_vaddr b) pgs r] else []) \<and>
     (if ok then \<exists>w. r = fst (m_insert_pages k v (c_vaddr b) pgs w) else r = - EINVAL) \<and>
     (if r = 0 then bound_mb t mb (b\<lparr>dev_page_addrs := Some (objs ! 0), remap := True\<rparr>) objs va phys (bar_pages k d phys) \<and>
          (\<forall>p. p \<noteq> mb \<and> p \<notin> set objs \<longrightarrow> kheap t p = kheap s p)
      else kheap t = (\<lambda>p. if p = mb then Some (Mbuf (b\<lparr>dev_page_addrs := Some (objs ! 0), mb_map := None, ppages := None\<rparr>))
          else if p \<in> set objs then None else kheap s p)))"

lemma map_pages_spec:
  fixes s :: "'w kmem"
  assumes "driver_ok k pg" and "p2p_ptr (drv s) Get_Pages" and n: "unat nr = n" "n < 281474976710656"
    and b: "kheap s mb = Some (Mbuf b)" "ppages b = Some pp" "cpu_pages_per_gpu_page b = 16" "unat (host_page_num b) = 16 * n" "mb_map b = Some mp"
    and o: "kheap s a = Some (U64s (replicate n 0))" "kheap s pp = Some (Pages (replicate (16 * n) None))"
      "kheap s gd = Some (Region \<lparr>gd_pages = None\<rparr>)"
    and m: "kheap s mp = Some (Vmap vm)" "gpuvaddr vm = va" "vmap_dev_page_num vm = nr" "vmap_pages vm = None" "vmap_data vm = Some gd"
  shows "runs_to (map_pages k mb (Some v) d mp gd a) s (map_outcome k s mb b [a, pp, mp, gd] d v va (pg va (GPU_PAGE_SIZE * nr)))"
proof -
  let ?phys = "pg va (GPU_PAGE_SIZE * nr)"
  have nr: "nr = of_nat n" using n(1) by auto
  have "unat (GPU_PAGE_SIZE * nr) = 65536 * n" using n by (simp add: unat_word_ariths)
  then have len: "length ?phys = n" using assms(1) by (simp add: driver_ok_def unat_div)
  obtain w where g: "m_get_pages k va (GPU_PAGE_SIZE * nr) (mworld s) = ((0, Some (map Some ?phys)), w)"
    using assms(1) unfolding driver_ok_def by blast
  have d: "distinct [mb, a, pp, mp, gd]" using b o m by auto
  let ?c = "M_get_pages va (GPU_PAGE_SIZE * nr) mp 0"
  let ?s0 = "s\<lparr>mworld := w, mcalls := mcalls s @ [?c], kheap := (kheap s)(gd \<mapsto> Region \<lparr>gd_pages = Some (map Some ?phys)\<rparr>)\<rparr>"
  let ?b = "b\<lparr>dev_page_addrs := Some a\<rparr>"
  let ?s1 = "?s0\<lparr>kheap := (kheap ?s0)(a \<mapsto> U64s ?phys, mb \<mapsto> Mbuf ?b)\<rparr>"
  let ?s2 = "\<lambda>ps. ?s1\<lparr>kheap := (kheap ?s1)(pp \<mapsto> Pages ps)\<rparr>"
  have "runs_to (phys_loop gd a [0..<n]) ?s0 (\<lambda>ok t. \<exists>ys. t = ?s0\<lparr>kheap := (kheap ?s0)(a \<mapsto> U64s ys)\<rparr> \<and> length ys = n \<and>
    (if ok then \<forall>i<n. map Some ?phys ! i = Some (ys ! i) else \<exists>i<n. map Some ?phys ! i = None))"
    by (rule phys_loop_spec [of _ _ _ _ "replicate n 0"]) (use o d len in simp_all)
  then have l1: "runs_to (phys_loop gd a [0..<n]) ?s0 (\<lambda>ok t. ok \<and> t = ?s0\<lparr>kheap := (kheap ?s0)(a \<mapsto> U64s ?phys)\<rparr>)"
  proof (rule runs_to_mono)
    fix ok t
    assume "\<exists>ys. t = ?s0\<lparr>kheap := (kheap ?s0)(a \<mapsto> U64s ys)\<rparr> \<and> length ys = n \<and>
      (if ok then \<forall>i<n. map Some ?phys ! i = Some (ys ! i) else \<exists>i<n. map Some ?phys ! i = None)"
    then obtain ys where ys: "t = ?s0\<lparr>kheap := (kheap ?s0)(a \<mapsto> U64s ys)\<rparr>" "length ys = n"
      "if ok then \<forall>i<n. map Some ?phys ! i = Some (ys ! i) else \<exists>i<n. map Some ?phys ! i = None" by blast
    have ok: "ok" using ys(3) len by (auto split: if_splits)
    then have "ys = ?phys" using ys(2,3) len by (intro nth_equalityI) simp_all
    then show "ok \<and> t = ?s0\<lparr>kheap := (kheap ?s0)(a \<mapsto> U64s ?phys)\<rparr>" using ok ys(1) by simp
  qed
  have l2: "runs_to (page_fill_loop k mb d a [0..<n]) ?s1 (\<lambda>ok t. \<exists>ps. t = ?s2 ps \<and>
    (if ok then ps = map Some (bar_pages k d ?phys) \<and> (\<forall>x\<in>set ?phys. in_bar d x) else \<exists>x\<in>set ?phys. \<not> in_bar d x))"
    by (rule page_fill_loop_spec [of _ mb ?b pp]) (use b o d len in \<open>auto simp: bar_pages_def\<close>)
  have bad: "runs_to (map_out mb (Some gd) (Some a) (- EINVAL)) (?s2 ps) (map_outcome k s mb b [a, pp, mp, gd] d v va ?phys)"
    if "\<exists>x\<in>set ?phys. \<not> in_bar d x" for ps
    by (rule runs_to_mono [OF map_out_spec [of _ _ ?b mp pp]])
      (use that b o m d len nr in \<open>auto simp: map_outcome_def mem_frame_def Let_def fun_eq_iff\<close>)
  have good: "runs_to (map_insert k mb (Some v) gd a) (?s2 (map Some (bar_pages k d ?phys))) (map_outcome k s mb b [a, pp, mp, gd] d v va ?phys)"
    if "\<forall>x\<in>set ?phys. in_bar d x"
  proof (rule runs_to_mono [OF map_insert_spec [of _ _ ?b a pp mp gd va ?phys "bar_pages k d ?phys"]])
    show "bound_mb (?s2 (map Some (bar_pages k d ?phys))) mb ?b [a, pp, mp, gd] va ?phys (bar_pages k d ?phys)"
      using b o m d by (auto simp: bound_mb_def)
    show "unat (host_page_num ?b) = length (bar_pages k d ?phys)" using b len by simp
  qed (use that b o m d len nr in \<open>auto simp: map_outcome_def mem_frame_def bound_mb_def Let_def fun_eq_iff intro!: exI [of _ "w"]\<close>)
  have "runs_to (page_fill_loop k mb d a [0..<n]) ?s1 (\<lambda>ok t. runs_to (if \<not> ok then map_out mb (Some gd) (Some a) (- EINVAL)
      else map_insert k mb (Some v) gd a) t (map_outcome k s mb b [a, pp, mp, gd] d v va ?phys))"
    by (rule runs_to_mono [OF l2]) (use good bad in \<open>auto split: if_splits simp del: fun_upd_apply\<close>)
  then have "runs_to (phys_loop gd a [0..<n]) ?s0 (\<lambda>ok t. runs_to (if \<not> ok then map_out mb (Some gd) (Some a) 0
      else sq (upd_mb mb (\<lambda>b. b\<lparr>dev_page_addrs := Some a\<rparr>)) (bnd (page_fill_loop k mb d a [0..<n]) (\<lambda>ok.
       if \<not> ok then map_out mb (Some gd) (Some a) (- EINVAL) else map_insert k mb (Some v) gd a))) t
      (map_outcome k s mb b [a, pp, mp, gd] d v va ?phys))"
    by (intro runs_to_mono [OF l1]) (use b o d in auto)
  then show ?thesis using assms(2) m n(1) g
    by (simp add: map_pages_def nvfs_nvidia_p2p_get_pages_def del: fun_upd_apply cong: if_cong)
qed

definition heap_fresh :: "'w kmem \<Rightarrow> bool" where
  "heap_fresh s \<longleftrightarrow> (\<forall>p\<ge>knext s. kheap s p = None)"

text \<open>
  How a mapping of a fresh descriptor ends: an allocation is refused and nothing stays, or the pages
  are pinned and then bound, or the pages are pinned, not bound, and everything allocated is freed.
\<close>

definition map_result :: "'w menv \<Rightarrow> 'w kmem \<Rightarrow> nat \<Rightarrow> mbuffer \<Rightarrow> fgds_dev \<Rightarrow> nat \<Rightarrow> u64 \<Rightarrow> u64 list \<Rightarrow> int \<Rightarrow> 'w kmem \<Rightarrow> bool" where
  "map_result k s mb b d v va phys r t \<longleftrightarrow> (let a = knext s; objs = [a, a + 1, a + 2, a + 3];
       ok = (\<forall>x\<in>set phys. in_bar d x); pgs = map Some (bar_pages k d phys) in
     mem_frame s t \<and> heap_fresh t \<and> (\<exists>b'. same_mb b b' \<and>
     ((r = - ENOMEM \<and> (\<exists>sz w. \<not> fst (m_kmalloc k sz w)) \<and> mcalls t = mcalls s \<and> kheap t = (kheap s)(mb \<mapsto> Mbuf b') \<and>
        remap b' = remap b \<and> dev_page_addrs b' = dev_page_addrs b \<and> mb_map b' = None \<and> ppages b' = None) \<or>
      (mcalls t = mcalls s @ M_get_pages va (GPU_PAGE_SIZE * of_nat (length phys)) (a + 2) 0 # (if ok then [M_insert v (c_vaddr b) pgs r] else []) \<and>
       (if ok then \<exists>w. r = fst (m_insert_pages k v (c_vaddr b) pgs w) else r = - EINVAL) \<and>
       (if r = 0 then remap b' \<and> bound_mb t mb b' objs va phys (bar_pages k d phys) \<and>
            (\<forall>p. p \<noteq> mb \<and> p \<notin> set objs \<longrightarrow> kheap t p = kheap s p)
        else remap b' = remap b \<and> dev_page_addrs b' = Some a \<and> mb_map b' = None \<and> ppages b' = None \<and>
          kheap t = (kheap s)(mb \<mapsto> Mbuf b'))))))"

text \<open>Single steps on a known store.\<close>

lemma mem_eq:
  "m_kmalloc k sz (mworld s) = (True, w) \<Longrightarrow>
     kmalloc k sz x s = Inr (Some (knext s), s\<lparr>mworld := w, kheap := (kheap s)(knext s \<mapsto> x), knext := Suc (knext s)\<rparr>)"
  "m_kmalloc k sz (mworld s) = (False, w) \<Longrightarrow> kmalloc k sz x s = Inr (None, s\<lparr>mworld := w\<rparr>)"
  "kheap s p = Some (Mbuf b) \<Longrightarrow> load_mb p s = Inr (b, s)"
  "kheap s p = Some (Vmap v) \<Longrightarrow> load_vmap p s = Inr (v, s)"
  "kheap s p = Some (Mbuf b) \<Longrightarrow> upd_mb p f s = Inr ((), s\<lparr>kheap := (kheap s)(p \<mapsto> Mbuf (f b))\<rparr>)"
  "put_obj p x s = Inr ((), s\<lparr>kheap := (kheap s)(p \<mapsto> x)\<rparr>)"
  by (simp_all add: run)

lemma map_outcomeD:
  assumes "map_outcome k s mb b objs d v va phys r t"
  shows "mem_frame s t" and "knext t = knext s"
    and "mcalls t = mcalls s @ M_get_pages va (GPU_PAGE_SIZE * of_nat (length phys)) (objs ! 2) 0 #
      (if \<forall>x\<in>set phys. in_bar d x then [M_insert v (c_vaddr b) (map Some (bar_pages k d phys)) r] else [])"
    and "if \<forall>x\<in>set phys. in_bar d x then \<exists>w. r = fst (m_insert_pages k v (c_vaddr b) (map Some (bar_pages k d phys)) w) else r = - EINVAL"
    and "r = 0 \<Longrightarrow> bound_mb t mb (b\<lparr>dev_page_addrs := Some (objs ! 0), remap := True\<rparr>) objs va phys (bar_pages k d phys)"
    and "r = 0 \<Longrightarrow> p \<noteq> mb \<Longrightarrow> p \<notin> set objs \<Longrightarrow> kheap t p = kheap s p"
    and "r \<noteq> 0 \<Longrightarrow> kheap t = (\<lambda>p. if p = mb then Some (Mbuf (b\<lparr>dev_page_addrs := Some (objs ! 0), mb_map := None, ppages := None\<rparr>))
          else if p \<in> set objs then None else kheap s p)"
  using assms unfolding map_outcome_def Let_def by (blast | simp)+

lemma map_outcome_result:
  assumes o: "map_outcome k s' mb b1 objs d v va phys r t" and objs: "objs = [knext s, knext s + 1, knext s + 2, knext s + 3]"
    and s': "mem_frame s s'" "mcalls s' = mcalls s" "knext s' = knext s + 4"
    and h: "\<forall>p. p \<noteq> mb \<and> p \<notin> set objs \<longrightarrow> kheap s' p = kheap s p" and f: "heap_fresh s" and mb: "mb < knext s"
    and b: "same_mb b b1" "remap b1 = remap b"
  shows "map_result k s mb b d v va phys r t"
proof -
  let ?ok = "\<forall>x\<in>set phys. in_bar d x" and ?pgs = "map Some (bar_pages k d phys)"
  have cv: "c_vaddr b1 = c_vaddr b" using b(1) by (simp add: same_mb_def)
  have fr: "kheap s p = None" if "knext s \<le> p" for p using f that by (simp add: heap_fresh_def)
  have c: "mcalls t = mcalls s @ M_get_pages va (GPU_PAGE_SIZE * of_nat (length phys)) (knext s + 2) 0 # (if ?ok then [M_insert v (c_vaddr b) ?pgs r] else [])"
    and rr: "if ?ok then \<exists>w. r = fst (m_insert_pages k v (c_vaddr b) ?pgs w) else r = - EINVAL"
    and k: "knext t = knext s + 4" and fm: "mem_frame s t"
    using map_outcomeD(1-4) [OF o] s' by (simp_all add: cv objs mem_frame_def cong: if_cong)
  show ?thesis
  proof (cases "r = 0")
    case True
    let ?b' = "b1\<lparr>dev_page_addrs := Some (knext s), remap := True\<rparr>"
    have "bound_mb t mb ?b' objs va phys (bar_pages k d phys)" using map_outcomeD(5) [OF o True] by (simp add: objs)
    moreover have eq: "\<forall>p. p \<noteq> mb \<and> p \<notin> set objs \<longrightarrow> kheap t p = kheap s p" using map_outcomeD(6) [OF o True] h by simp
    moreover have "heap_fresh t" unfolding heap_fresh_def k using eq fr mb by (auto simp: objs)
    moreover have "same_mb b ?b'" using b(1) by (simp add: same_mb_def)
    ultimately show ?thesis unfolding map_result_def Let_def
      by (intro conjI exI [of _ ?b'] disjI2 c rr fm) (use True objs in simp_all)
  next
    case False
    let ?b' = "b1\<lparr>dev_page_addrs := Some (knext s), mb_map := None, ppages := None\<rparr>"
    have "kheap t p = ((kheap s)(mb \<mapsto> Mbuf ?b')) p" for p
      using map_outcomeD(7) [OF o False] h fr by (cases "p \<in> set objs") (auto simp: objs)
    then have "kheap t = (kheap s)(mb \<mapsto> Mbuf ?b')" by (rule ext)
    moreover from this have "heap_fresh t" unfolding heap_fresh_def k using fr mb by simp
    moreover have "same_mb b ?b'" using b(1) by (simp add: same_mb_def)
    ultimately show ?thesis unfolding map_result_def Let_def
      by (intro conjI exI [of _ ?b'] disjI2 c rr fm) (use False b(2) in simp_all)
  qed
qed

text \<open>The state in which all four allocations have succeeded.\<close>

definition alloc_state :: "'w kmem \<Rightarrow> nat \<Rightarrow> mbuffer \<Rightarrow> u64 \<Rightarrow> u64 \<Rightarrow> u64 \<Rightarrow> 'w \<Rightarrow> 'w kmem" where
  "alloc_state s mb b va len nr w = (let a = knext s in s\<lparr>mworld := w, knext := a + 4, kheap := (kheap s)(
     a \<mapsto> U64s (replicate (unat nr) 0), a + 1 \<mapsto> Pages (replicate (unat (host_page_num b)) None),
     mb \<mapsto> Mbuf (b\<lparr>ppages := Some (a + 1), mb_map := Some (a + 2)\<rparr>), a + 3 \<mapsto> Region \<lparr>gd_pages = None\<rparr>,
     a + 2 \<mapsto> Vmap (blank_vmap\<lparr>vmap_page_size := GPU_PAGE_SIZE, vmap_size := len, gpuvaddr := va, vmap_dev_page_num := dev_page_num b,
       vmap_pages := None, vmap_addrs := replicate (unat (dev_page_num b)) 0, vmap_data := Some (a + 3)\<rparr>))\<rparr>)"

lemma map_alloc_eq:
  assumes "kheap s mb = Some (Mbuf b)" and "mb < knext s" and "m_kmalloc k (nr * 8) (mworld s) = (True, w1)"
    and "m_kmalloc k (host_page_num b * 8) w1 = (True, w2)" and "m_kmalloc k (72 + nr * 8) w2 = (True, w3)" and "m_kmalloc k 8 w3 = (True, w4)"
  shows "map_alloc k mb vma d va len nr s =
    map_pages k mb vma d (knext s + 2) (knext s + 3) (knext s) (alloc_state s mb b va len nr w4)"
proof -
  have sucs: "x + 3 = Suc (Suc (Suc x))" "x + 4 = Suc (Suc (Suc (Suc x)))" for x by simp_all
  show ?thesis using assms by (simp add: map_alloc_def run_simps mem_eq sucs alloc_state_def Let_def)
qed

lemma map_alloc_spec:
  fixes s :: "'w kmem"
  assumes "driver_ok k pg" and "p2p_ptr (drv s) Get_Pages" and n: "unat nr = n" "n < 281474976710656"
    and b: "kheap s mb = Some (Mbuf b)" "ppages b = None" "mb_map b = None" "cpu_pages_per_gpu_page b = 16"
      "unat (host_page_num b) = 16 * n" "dev_page_num b = nr"
    and f: "heap_fresh s"
  shows "runs_to (map_alloc k mb (Some v) d va len nr) s (map_result k s mb b d v va (pg va (GPU_PAGE_SIZE * nr)))"
proof -
  let ?phys = "pg va (GPU_PAGE_SIZE * nr)" and ?a = "knext s" and ?R = "map_result k s mb b d v va (pg va (GPU_PAGE_SIZE * nr))"
  have nr: "nr = of_nat n" using n(1) by auto
  have "unat (GPU_PAGE_SIZE * nr) = 65536 * n" using n by (simp add: unat_word_ariths)
  then have len: "length ?phys = n" using assms(1) by (simp add: driver_ok_def unat_div)
  have mb: "mb < ?a" using f b(1) by (metis heap_fresh_def not_less option.distinct(1))
  have fr: "kheap s p = None" if "?a \<le> p" for p using f that by (simp add: heap_fresh_def)
  obtain ok1 w1 where k1: "m_kmalloc k (nr * 8) (mworld s) = (ok1, w1)" by fastforce
  obtain ok2 w2 where k2: "m_kmalloc k (host_page_num b * 8) w1 = (ok2, w2)" by fastforce
  obtain ok3 w3 where k3: "m_kmalloc k (72 + nr * 8) w2 = (ok3, w3)" by fastforce
  obtain ok4 w4 where k4: "m_kmalloc k 8 w3 = (ok4, w4)" by fastforce
  note defs = map_alloc_def map_out_def Let_def map_result_def mem_frame_def same_mb_def heap_fresh_def
  have ref: "\<exists>sz w. \<not> fst (m_kmalloc k sz w)" if "m_kmalloc k sz' w' = (False, w'')" for sz' w' w'' using that by (metis fst_conv)
  consider "\<not> ok1" | "ok1" "\<not> ok2" | "ok1" "ok2" "\<not> ok3" | "ok1" "ok2" "ok3" "\<not> ok4" | "ok1" "ok2" "ok3" "ok4" by blast
  then show ?thesis
  proof cases
    case 1
    then show ?thesis using b k1 mb fr ref [of "nr * 8" "mworld s" w1] by (auto simp: defs fun_eq_iff)
  next
    case 2
    then show ?thesis using b k1 k2 mb fr ref [of "host_page_num b * 8" w1 w2] by (auto simp: defs fun_eq_iff)
  next
    case 3
    then show ?thesis using b k1 k2 k3 mb fr ref [of "72 + nr * 8" w2 w3] by (auto simp: defs fun_eq_iff)
  next
    case 4
    then show ?thesis using b k1 k2 k3 k4 mb fr ref [of 8 w3 w4] by (auto simp: defs fun_eq_iff)
  next
    case 5
    let ?s = "alloc_state s mb b va len nr w4" and ?b = "b\<lparr>ppages := Some (?a + 1), mb_map := Some (?a + 2)\<rparr>"
    let ?vm = "blank_vmap\<lparr>vmap_page_size := GPU_PAGE_SIZE, vmap_size := len, gpuvaddr := va, vmap_dev_page_num := nr,
      vmap_pages := None, vmap_addrs := replicate n 0, vmap_data := Some (?a + 3)\<rparr>"
    have "runs_to (map_pages k mb (Some v) d (?a + 2) (?a + 3) ?a) ?s (map_outcome k ?s mb ?b [?a, ?a + 1, ?a + 2, ?a + 3] d v va ?phys)"
      by (rule map_pages_spec [OF assms(1) _ n, where vm = ?vm]) (use assms(2) b mb n in \<open>simp_all add: alloc_state_def Let_def\<close>)
    then have "runs_to (map_pages k mb (Some v) d (?a + 2) (?a + 3) ?a) ?s ?R"
      by (rule runs_to_mono) (erule map_outcome_result, use f mb in \<open>simp_all add: mem_frame_def same_mb_def alloc_state_def Let_def\<close>)
    moreover have "map_alloc k mb (Some v) d va len nr s = map_pages k mb (Some v) d (?a + 2) (?a + 3) ?a ?s"
      by (rule map_alloc_eq) (use 5 b k1 k2 k3 k4 mb in simp_all)
    ultimately show ?thesis by (simp add: runs_to_def)
  qed
qed
text \<open>Fields of the descriptor set before the allocations do not matter for the result.\<close>

lemma same_mb_trans: "same_mb a b \<Longrightarrow> same_mb b c \<Longrightarrow> same_mb a c"
  by (simp add: same_mb_def)

lemma map_result_upd:
  assumes "map_result k (s\<lparr>kheap := (kheap s)(mb \<mapsto> Mbuf b1)\<rparr>) mb b1 d v va phys r t"
    and "same_mb b b1" and "remap b1 = remap b" and "dev_page_addrs b1 = dev_page_addrs b"
  shows "map_result k s mb b d v va phys r t"
proof -
  have cv: "c_vaddr b1 = c_vaddr b" using assms(2) by (simp add: same_mb_def)
  have fm: "mem_frame (s\<lparr>kheap := h\<rparr>) t = mem_frame s t" for h by (simp add: mem_frame_def)
  have h: "(\<forall>p. p \<noteq> mb \<and> p \<notin> X \<longrightarrow> f p = (g(mb \<mapsto> x)) p) = (\<forall>p. p \<noteq> mb \<and> p \<notin> X \<longrightarrow> f p = g p)" for f g X and x :: kobj by auto
  have ex: "(\<exists>b'. same_mb b1 b' \<and> P b') \<Longrightarrow> (\<exists>b'. same_mb b b' \<and> P b')" for P using same_mb_trans [OF assms(2)] by blast
  have upd: "kheap (s\<lparr>kheap := g\<rparr>) = g" "knext (s\<lparr>kheap := g\<rparr>) = knext s" "mcalls (s\<lparr>kheap := g\<rparr>) = mcalls s"
    "(g(mb \<mapsto> x, mb \<mapsto> y)) = g(mb \<mapsto> y)" for g and x y :: kobj by simp_all
  show ?thesis using assms(1) unfolding map_result_def Let_def cv fm upd h assms(3,4)
    by (elim conjE, intro conjI ex)
qed

lemma div_round_up_gpu:
  assumes "unat len \<le> 18446744073709486080"
  shows "unat (DIV_ROUND_UP len GPU_PAGE_SIZE) = (unat len + 65535) div 65536"
proof -
  have "unat (len + 65536 - 1) = unat len + 65535" using assms by (simp add: unat_word_ariths)
  then show ?thesis by (simp add: DIV_ROUND_UP_def unat_div)
qed

lemma map_inner_spec:
  fixes s :: "'w kmem"
  assumes "driver_ok k pg" and "p2p_ptr (drv s) Get_Pages" and f: "heap_fresh s"
    and b: "kheap s mb = Some (Mbuf b)" "ppages b = None" "mb_map b = None" "mb_vma b = Some v" "mb_dev b = Some i"
    and d: "i < length (devs s)" "pci_mem_va (devs s ! i) \<noteq> 0"
    and len: "65536 \<le> unat len" "unat len \<le> 18446744073709486080"
  shows "runs_to (fgds_map_dev_addr_inner k mb va len) s
    (map_result k s mb b (devs s ! i) v va (pg va (GPU_PAGE_SIZE * DIV_ROUND_UP len GPU_PAGE_SIZE)))"
proof -
  let ?nr = "DIV_ROUND_UP len GPU_PAGE_SIZE"
  let ?b = "b\<lparr>cpu_pages_per_gpu_page := 16, dev_page_num := ?nr, host_page_num := ?nr * 16\<rparr>"
  let ?s = "s\<lparr>kheap := (kheap s)(mb \<mapsto> Mbuf ?b)\<rparr>"
  define n where "n = unat ?nr"
  have "n \<le> 18446744073709551615 div 65536" unfolding n_def div_round_up_gpu [OF len(2)] using len(2) by (intro div_le_mono) simp
  then have n: "n < 281474976710656" by simp
  then have host: "unat (?nr * 16) = 16 * n" unfolding n_def by (simp add: unat_word_ariths)
  have nlt: "\<not> len < GPU_PAGE_SIZE" using len(1) by (simp add: word_less_nat_alt)
  have mb: "mb < knext s" using f b(1) by (metis heap_fresh_def not_less option.distinct(1))
  have "runs_to (map_alloc k mb (Some v) (devs s ! i) va len ?nr) ?s (map_result k ?s mb ?b (devs s ! i) v va (pg va (GPU_PAGE_SIZE * ?nr)))"
    by (rule map_alloc_spec [OF assms(1) _ n_def [symmetric] n]) (use assms(2) b host f mb in \<open>simp_all add: heap_fresh_def\<close>)
  then have "runs_to (map_alloc k mb (Some v) (devs s ! i) va len ?nr) ?s (map_result k s mb b (devs s ! i) v va (pg va (GPU_PAGE_SIZE * ?nr)))"
    by (rule runs_to_mono) (erule map_result_upd, simp_all add: same_mb_def)
  moreover have "fgds_map_dev_addr_inner k mb va len s = map_alloc k mb (Some v) (devs s ! i) va len ?nr ?s"
    using b d nlt by (simp add: fgds_map_dev_addr_inner_def run_simps mem_eq assert_or_def Let_def)
  ultimately show ?thesis by (simp add: runs_to_def)
qed

end
