(* ===== verification/Kmod_Buffer.thy ===== *)
theory Kmod_Buffer
  imports Kmod_Bind
begin

text \<open>
  The life of a buffer in the module: made by \<open>mmap\<close>, bound by the map ioctl, found by its index, released by the unmap
  ioctl (module/fgds-mem.c and \<open>fgds_ioctl\<close> of module/fgds.c). The theorems state what a mapping inserts, that a complete
  life leaves the module as it was, and the requests that the code does not survive.
\<close>

section \<open>Release\<close>

lemma mem_free_eq:
  "kheap s p = Some x \<Longrightarrow> kfree p s = Inr ((), s\<lparr>kheap := (kheap s)(p := None)\<rparr>)"
  "kheap s p = Some (Region g) \<Longrightarrow> load_region p s = Inr (g, s)"
  "hash_lock s = Unlocked \<Longrightarrow> hash_acquire s = Inr ((), s\<lparr>hash_lock := Locked\<rparr>)"
  "hash_lock s = Locked \<Longrightarrow> hash_release s = Inr ((), s\<lparr>hash_lock := Unlocked\<rparr>)"
  by (simp_all add: run)

text \<open>Dropping the last reference of a bound descriptor.\<close>

lemma mbuffer_put_last:
  assumes b: "bound_mb s mb b objs va phys pgs" "remap b" "ref b = 1" and l: "hash_lock s = Unlocked" and p: "p2p_ptr (drv s) Put_Pages"
  shows "runs_to (fgds_mbuffer_put k (Some mb)) s (\<lambda>_ t.
    kheap t = (\<lambda>p. if p \<in> insert mb (set objs) then None else kheap s p) \<and> mbhash t = (\<lambda>i. remove1 mb (mbhash s i)) \<and>
    hash_lock t = Unlocked \<and> vmas t = vmas s \<and> devs t = devs s \<and> drv t = drv s \<and> base_index_cnt t = base_index_cnt s \<and>
    knext t = knext s \<and> mcalls t = mcalls s @ [M_put_pages va (map Some phys)])"
proof -
  obtain a pp mp gd v where o: "objs = [a, pp, mp, gd]" and h: "kheap s mb = Some (Mbuf b)"
     "dev_page_addrs b = Some a" "kheap s a = Some (U64s phys)" "ppages b = Some pp" "kheap s pp = Some (Pages (map Some pgs))"
     "mb_map b = Some mp" "kheap s mp = Some (Vmap v)" "gpuvaddr v = va" "vmap_pages v = None"
     "vmap_data v = Some gd" "kheap s gd = Some (Region \<lparr>gd_pages = Some (map Some phys)\<rparr>)"
    using b(1) unfolding bound_mb_def by blast
  then have d: "mb \<noteq> a" "mb \<noteq> pp" "mb \<noteq> mp" "mb \<noteq> gd" "a \<noteq> pp" "a \<noteq> mp" "a \<noteq> gd" "pp \<noteq> mp" "pp \<noteq> gd" "mp \<noteq> gd" by auto
  obtain r w where w: "m_put_pages k va (map Some phys) (mworld s) = (r, w)" by fastforce
  have "release_gpu_memory k (Some mp) u = Inr ((), u\<lparr>mworld := w, mcalls := mcalls u @ [M_put_pages va (map Some phys)],
      kheap := (kheap u)(gd := None, mp := None)\<rparr>)"
    if "kheap u mp = Some (Vmap v)" "kheap u gd = Some (Region \<lparr>gd_pages = Some (map Some phys)\<rparr>)" "drv u = drv s" "mworld u = mworld s" for u
    using that h(8-10) d(10) p w
    by (simp add: release_gpu_memory_def release_gpu_memory_core_def nvfs_nvidia_p2p_put_pages_def run_simps mem_eq mem_free_eq
      mext_def mlogged_def)
  note rel = this
  show ?thesis using h d d [symmetric] b(2,3) l
    by (simp add: runs_to_def o fgds_mbuffer_put_def fgds_mbuffer_put_internal_def fgds_mbuffer_put_ref_def fgds_mbuffer_free_def
      run_simps mem_eq mem_free_eq rel) (auto simp: fun_eq_iff)
qed

lemma lookup_buffer:
  assumes "va \<noteq> 0" and "va mod PAGE_SIZE = 0" and "m_vma_lookup k va (mworld s) = Some v"
    and "vm_private_data (vmas s v) = Some mb" and "kheap s mb = Some (Mbuf b)" and "c_vaddr b = va" and "map_len b = len"
  shows "fgds_lookup_mmap_buffer k va len s = Inr (Some mb, s)"
  using assms by (simp add: fgds_lookup_mmap_buffer_def run_simps mem_eq)

text \<open>A descriptor as \<open>mmap\<close> leaves it, and the argument of a map ioctl for it.\<close>

definition map_ready :: "'w menv \<Rightarrow> 'w kmem \<Rightarrow> fgds_ioctl_map_s \<Rightarrow> nat \<Rightarrow> nat \<Rightarrow> mbuffer \<Rightarrow> nat \<Rightarrow> bool" where
  "map_ready k s a v mb b i \<longleftrightarrow> heap_fresh s \<and> p2p_ptr (drv s) Get_Pages \<and> \<not> m_copy_failed k (mworld s) \<and>
     host_vaddr a \<noteq> 0 \<and> host_vaddr a mod PAGE_SIZE = 0 \<and> m_vma_lookup k (host_vaddr a) (mworld s) = Some v \<and>
     vm_private_data (vmas s v) = Some mb \<and> kheap s mb = Some (Mbuf b) \<and> c_vaddr b = host_vaddr a \<and>
     map_len b = host_vaddr_size a \<and> mb_vma b = Some v \<and> ppages b = None \<and> mb_map b = None \<and> dev_page_addrs b = None \<and> \<not> remap b \<and>
     mb_dev b = Some i \<and> i < length (devs s) \<and> pci_mem_va (devs s ! i) \<noteq> 0 \<and> host_vaddr_size a < map_gpu_addr a"

definition gpu_pages :: "(u64 \<Rightarrow> u64 \<Rightarrow> u64 list) \<Rightarrow> fgds_ioctl_map_s \<Rightarrow> u64 list" where
  "gpu_pages pg a = pg (map_gpu_addr a) (GPU_PAGE_SIZE * DIV_ROUND_UP (gpu_addr_size a) GPU_PAGE_SIZE)"

definition with_dev :: "fgds_ioctl_map_s \<Rightarrow> mbuffer \<Rightarrow> mbuffer" where
  "with_dev a b = b\<lparr>mb_dev_addr := map_gpu_addr a, mb_dev_len := gpu_addr_size a\<rparr>"

lemma map_ioctl_eq:
  assumes "map_ready k s a v mb b i"
  shows "fgds_ioctl k FGDS_IOCTL_MAP a s = fgds_map_dev_addr_inner k mb (map_gpu_addr a) (gpu_addr_size a)
    (s\<lparr>kheap := (kheap s)(mb \<mapsto> Mbuf (with_dev a b))\<rparr>)"
  using assms lookup_buffer [of "host_vaddr a" k s v mb b] not_le [of "map_gpu_addr a" "host_vaddr_size a"]
  by (simp add: map_ready_def fgds_ioctl_def fgds_map_dev_addr_def run_simps mem_eq with_dev_def)

lemma map_ioctl_spec:
  assumes "map_ready k s a v mb b i" and "driver_ok k pg" and "65536 \<le> unat (gpu_addr_size a)"
    and "unat (gpu_addr_size a) \<le> 18446744073709486080"
  shows "runs_to (fgds_ioctl k FGDS_IOCTL_MAP a) s (\<lambda>r t. \<exists>s'. s' = s\<lparr>kheap := (kheap s)(mb \<mapsto> Mbuf (with_dev a b))\<rparr> \<and>
    map_result k s' mb (with_dev a b) (devs s ! i) v (map_gpu_addr a) (gpu_pages pg a) r t)"
proof -
  let ?s = "s\<lparr>kheap := (kheap s)(mb \<mapsto> Mbuf (with_dev a b))\<rparr>"
  have f: "heap_fresh s" and h: "kheap s mb = Some (Mbuf b)" using assms(1) by (simp_all add: map_ready_def)
  then have mb: "mb < knext s" by (metis heap_fresh_def not_less option.distinct(1))
  have "runs_to (fgds_map_dev_addr_inner k mb (map_gpu_addr a) (gpu_addr_size a)) ?s
    (map_result k ?s mb (with_dev a b) (devs ?s ! i) v (map_gpu_addr a) (pg (map_gpu_addr a) (GPU_PAGE_SIZE * DIV_ROUND_UP (gpu_addr_size a) GPU_PAGE_SIZE)))"
    by (rule map_inner_spec [OF assms(2)]) (use assms mb in \<open>simp_all add: map_ready_def with_dev_def heap_fresh_def\<close>)
  then show ?thesis using map_ioctl_eq [OF assms(1)] by (simp add: runs_to_def gpu_pages_def)
qed

section \<open>A buffer's life\<close>

text \<open>What \<open>mmap\<close> makes: a descriptor with one reference, in its bucket and behind the area.\<close>

definition mmap_index :: "'w kmem \<Rightarrow> u64" where
  "mmap_index s = FGDS_MIN_BASE_INDEX + scast (base_index_cnt s + 1)"

definition mmap_mb :: "'w kmem \<Rightarrow> nat \<Rightarrow> nat \<Rightarrow> mbuffer" where
  "mmap_mb s v i = blank_mbuffer\<lparr>ref := 1, c_vaddr := vm_start (vmas s v), map_len := vm_end (vmas s v) - vm_start (vmas s v),
     base_index := mmap_index s, mb_dev_id := idx (devs s ! i), mb_vma := Some v, mb_dev := Some i\<rparr>"

definition mmap_post :: "'w menv \<Rightarrow> 'w kmem \<Rightarrow> nat \<Rightarrow> nat \<Rightarrow> 'w kmem \<Rightarrow> bool" where
  "mmap_post k s v i t \<longleftrightarrow> kheap t = (kheap s)(knext s \<mapsto> Mbuf (mmap_mb s v i)) \<and> knext t = Suc (knext s) \<and>
     mbhash t = (mbhash s)(m_hash k (mmap_index s) := knext s # mbhash s (m_hash k (mmap_index s))) \<and>
     hash_lock t = Unlocked \<and> base_index_cnt t = base_index_cnt s + 1 \<and> drv t = drv s \<and> devs t = devs s \<and> mcalls t = mcalls s \<and>
     vm_private_data (vmas t v) = Some (knext s) \<and> (\<forall>u. u \<noteq> v \<longrightarrow> vmas t u = vmas s u)"

lemma mmap_spec:
  assumes "hash_lock s = Unlocked" and "i < length (devs s)" and "vm_private_data (vmas s v) = None" and "\<forall>sz w. fst (m_kmalloc k sz w)"
  shows "runs_to (fgds_mmap nc k (Some i) v) s (\<lambda>r t. r = 0 \<and> mmap_post k s v i t)"
proof -
  obtain w where w: "m_kmalloc k 144 (mworld s) = (True, w)" using assms(4) by (metis eq_fst_iff)
  show ?thesis using assms(1-3) w
    by (simp add: fgds_mmap_def fgds_setup_mmap_buffer_def Let_def runs_to_def run_simps mem_eq mem_free_eq assert_or_def
      mmap_post_def mmap_mb_def mmap_index_def blank_mbuffer_def)
qed

lemma bar_pages_nth:
  "j < 16 * length phys \<Longrightarrow> bar_pages k d phys ! j =
     m_virt_to_page k (pci_mem_va d + (phys ! (j div 16) - paddr d) + of_nat (j mod 16) * PAGE_SIZE)"
proof (induction phys arbitrary: j)
  case (Cons x xs)
  show ?case
  proof (cases "j < 16")
    case True
    then show ?thesis by (simp add: bar_pages_def nth_append)
  next
    case False
    have "bar_pages k d (x # xs) ! j = bar_pages k d xs ! (j - 16)" using False by (simp add: bar_pages_def nth_append)
    moreover have "j div 16 = Suc ((j - 16) div 16)" "j mod 16 = (j - 16) mod 16" using False by (simp_all add: le_div_geq le_mod_geq)
    ultimately show ?thesis using Cons False by simp
  qed
qed simp

lemma in_bar_bounds:
  assumes "in_bar d x" and "65536 \<le> unat (bar_size d)"
  shows "unat (x - paddr d) + 65536 \<le> unat (bar_size d)"
proof -
  have "unat (x - paddr d) \<le> unat (bar_size d - 65536)" using assms(1) by (simp add: in_bar_def word_le_nat_alt)
  also have "unat (bar_size d - 65536) = unat (bar_size d) - 65536" using assms(2) by (simp add: unat_sub word_le_nat_alt)
  finally show ?thesis using assms(2) by simp
qed

lemma length_gpu_pages:
  assumes "driver_ok k pg" and "unat (gpu_addr_size a) \<le> 18446744073709486080"
  shows "length (gpu_pages pg a) = (unat (gpu_addr_size a) + 65535) div 65536"
proof -
  define n where "n = (unat (gpu_addr_size a) + 65535) div 65536"
  have "n \<le> 18446744073709551615 div 65536" unfolding n_def using assms(2) by (intro div_le_mono) simp
  then have "n < 281474976710656" by simp
  moreover have "unat (DIV_ROUND_UP (gpu_addr_size a) GPU_PAGE_SIZE) = n" unfolding n_def by (rule div_round_up_gpu [OF assms(2)])
  ultimately have "unat (GPU_PAGE_SIZE * DIV_ROUND_UP (gpu_addr_size a) GPU_PAGE_SIZE) = 65536 * n" by (simp add: unat_word_ariths)
  then show ?thesis using assms(1) unfolding n_def by (simp add: gpu_pages_def driver_ok_def unat_div)
qed

text \<open>The parts of a result.\<close>

lemma map_result_ok:
  assumes "map_result k s mb b d v va phys 0 t"
  obtains b' where "same_mb b b'" and "remap b'" and "bound_mb t mb b' [knext s, knext s + 1, knext s + 2, knext s + 3] va phys (bar_pages k d phys)"
    and "\<forall>p. p \<noteq> mb \<and> p \<notin> set [knext s, knext s + 1, knext s + 2, knext s + 3] \<longrightarrow> kheap t p = kheap s p"
    and "\<forall>x\<in>set phys. in_bar d x" and "mem_frame s t" and "heap_fresh t"
    and "mcalls t = mcalls s @ [M_get_pages va (GPU_PAGE_SIZE * of_nat (length phys)) (knext s + 2) 0, M_insert v (c_vaddr b) (map Some (bar_pages k d phys)) 0]"
proof -
  from assms obtain b' where b': "mem_frame s t" "heap_fresh t" "same_mb b b'"
    "mcalls t = mcalls s @ M_get_pages va (GPU_PAGE_SIZE * of_nat (length phys)) (knext s + 2) 0 #
      (if \<forall>x\<in>set phys. in_bar d x then [M_insert v (c_vaddr b) (map Some (bar_pages k d phys)) 0] else [])"
    "if \<forall>x\<in>set phys. in_bar d x then \<exists>w. 0 = fst (m_insert_pages k v (c_vaddr b) (map Some (bar_pages k d phys)) w) else 0 = - EINVAL"
    "remap b'" "bound_mb t mb b' [knext s, knext s + 1, knext s + 2, knext s + 3] va phys (bar_pages k d phys)"
    "\<forall>p. p \<noteq> mb \<and> p \<notin> set [knext s, knext s + 1, knext s + 2, knext s + 3] \<longrightarrow> kheap t p = kheap s p"
    unfolding map_result_def Let_def by fastforce
  moreover have ok: "\<forall>x\<in>set phys. in_bar d x" using b'(5) by (simp split: if_splits)
  ultimately show thesis by (intro that [of b']) simp_all
qed

lemma map_result_failed:
  assumes "map_result k s mb b d v va phys r t" and "r \<noteq> 0"
  obtains b' where "same_mb b b'" and "remap b' = remap b" and "mb_map b' = None" and "ppages b' = None"
    and "kheap t = (kheap s)(mb \<mapsto> Mbuf b')" and "mem_frame s t" and "heap_fresh t"
    and "(\<forall>sz w. fst (m_kmalloc k sz w)) \<longrightarrow> dev_page_addrs b' = Some (knext s)"
proof -
  from assms obtain b' where "mem_frame s t" "heap_fresh t" "same_mb b b'" "remap b' = remap b" "mb_map b' = None" "ppages b' = None"
    "kheap t = (kheap s)(mb \<mapsto> Mbuf b')" "(\<forall>sz w. fst (m_kmalloc k sz w)) \<longrightarrow> dev_page_addrs b' = Some (knext s)"
    unfolding map_result_def Let_def by auto
  then show thesis by (intro that [of b'])
qed

text \<open>
  The module at rest: new objects get new addresses, every hashed descriptor is live, the lock is free and
  the driver's functions are bound.
\<close>

definition kmem_ok :: "'w kmem \<Rightarrow> bool" where
  "kmem_ok s \<longleftrightarrow> heap_fresh s \<and> hash_lock s = Unlocked \<and> (\<forall>j. \<forall>p\<in>set (mbhash s j). kheap s p \<noteq> None) \<and>
     p2p_ptr (drv s) Get_Pages \<and> p2p_ptr (drv s) Put_Pages"

text \<open>An area of the process that no buffer uses, a mapped GPU, and a map argument for them.\<close>

definition area_ok :: "'w kmem \<Rightarrow> nat \<Rightarrow> nat \<Rightarrow> fgds_ioctl_map_s \<Rightarrow> bool" where
  "area_ok s v i a \<longleftrightarrow> i < length (devs s) \<and> pci_mem_va (devs s ! i) \<noteq> 0 \<and> vm_private_data (vmas s v) = None \<and>
     host_vaddr a = vm_start (vmas s v) \<and> host_vaddr_size a = vm_end (vmas s v) - vm_start (vmas s v) \<and>
     host_vaddr a \<noteq> 0 \<and> host_vaddr a mod PAGE_SIZE = 0 \<and> host_vaddr_size a < map_gpu_addr a \<and>
     65536 \<le> unat (gpu_addr_size a) \<and> unat (gpu_addr_size a) \<le> 18446744073709486080"

text \<open>A kernel that gives memory, copies arguments and finds the area.\<close>

definition serves :: "'w menv \<Rightarrow> nat \<Rightarrow> u64 \<Rightarrow> bool" where
  "serves k v start \<longleftrightarrow> (\<forall>sz w. fst (m_kmalloc k sz w)) \<and> (\<forall>w. m_vma_lookup k start w = Some v \<and> \<not> m_copy_failed k w)"

section \<open>An example kernel\<close>

text \<open>A process with one area of 128 KB, one mapped GPU, and a driver that pins every range at 1 MB of the BAR.\<close>

definition demo_pg :: "u64 \<Rightarrow> u64 \<Rightarrow> u64 list" where
  "demo_pg va len = map (\<lambda>i. 0x200000100000 + of_nat i * 65536) [0..<unat (len div GPU_PAGE_SIZE)]"

definition menv_ok :: "unit menv" where
  "menv_ok = \<lparr>m_kmalloc = \<lambda>_ w. (True, w), m_vma_lookup = \<lambda>_ _. Some 0,
     m_get_pages = \<lambda>va len w. ((0, Some (map Some (demo_pg va len))), w), m_put_pages = \<lambda>_ _ w. (0, w),
     m_insert_pages = \<lambda>_ _ _ w. (0, w), m_virt_to_page = \<lambda>a. a, m_hash = \<lambda>i. unat i mod 4096, m_copy_failed = \<lambda>_. False,
     m_def_flags = 0, m_noncached = \<lambda>p. p\<rparr>"

definition demo_dev :: fgds_dev where
  "demo_dev = \<lparr>pdev = Some 7, bar_size = 0x1000000000, paddr = 0x200000000000, idx = 0,
     p2p_pgmap = Some (0x200000000000, 0x200fffffffff), pci_mem_va = 0xffffa00000000000, remapped = True\<rparr>"

definition kmem_demo :: "unit kmem" where
  "kmem_demo = \<lparr>kheap = Map.empty, knext = 0, mbhash = \<lambda>_. [], hash_lock = Unlocked, base_index_cnt = 0,
     vmas = \<lambda>_. \<lparr>vm_start = 0x7f0000000000, vm_end = 0x7f0000020000, vm_flags = 0, vm_page_prot = 0, vm_private_data = None\<rparr>,
     drv = \<lparr>p2p_ptr = \<lambda>_. True, sym_refs = \<lambda>_. 1\<rparr>, devs = [demo_dev], mcalls = [], mworld = ()\<rparr>"

definition demo_arg :: "u64 \<Rightarrow> fgds_ioctl_map_s" where
  "demo_arg len = \<lparr>dev_id = 0, host_vaddr = 0x7f0000000000, host_vaddr_size = 0x20000, map_gpu_addr = 0x7f1000000000, gpu_addr_size = len\<rparr>"

text \<open>The same kernel after the area was mapped.\<close>

definition kmem_mapped :: "unit kmem" where
  "kmem_mapped = kmem_demo\<lparr>kheap := [0 \<mapsto> Mbuf (mmap_mb kmem_demo 0 0)], knext := 1,
     mbhash := \<lambda>j. if j = 1 then [0] else [],
     vmas := \<lambda>_. \<lparr>vm_start = 0x7f0000000000, vm_end = 0x7f0000020000, vm_flags = 0, vm_page_prot = 0, vm_private_data = Some 0\<rparr>\<rparr>"

lemma demo_kmem_ok: "kmem_ok kmem_demo"
  by (simp add: kmem_ok_def heap_fresh_def kmem_demo_def)

lemma demo_area_ok: "area_ok kmem_demo 0 0 (demo_arg 0x20000)"
  by (simp add: area_ok_def kmem_demo_def demo_arg_def demo_dev_def)

lemma demo_serves: "serves menv_ok 0 x"
  by (simp add: serves_def menv_ok_def)

lemma demo_driver: "driver_ok menv_ok demo_pg"
  by (simp add: driver_ok_def menv_ok_def demo_pg_def)

lemma demo_ready: "map_ready (menv_ok\<lparr>m_get_pages := g\<rparr>) kmem_mapped (demo_arg len) 0 0 (mmap_mb kmem_demo 0 0) 0"
  by (simp add: map_ready_def heap_fresh_def kmem_mapped_def kmem_demo_def menv_ok_def demo_arg_def mmap_mb_def blank_mbuffer_def demo_dev_def)

lemma demo_ready': "map_ready menv_ok kmem_mapped (demo_arg len) 0 0 (mmap_mb kmem_demo 0 0) 0"
  using demo_ready [of "m_get_pages menv_ok"] by simp

lemma demo_pages: "gpu_pages demo_pg (demo_arg 0x20000) = [0x200000100000, 0x200000110000]"
  "gpu_pages demo_pg (demo_arg 0x2000) = [0x200000100000]"
  by (simp_all add: gpu_pages_def demo_pg_def demo_arg_def DIV_ROUND_UP_def upt_rec)

lemma demo_bar: "in_bar (devs kmem_demo ! 0) 0x200000100000" "in_bar (devs kmem_demo ! 0) 0x200000110000"
  by (simp_all add: in_bar_def kmem_demo_def demo_dev_def)

lemma demo_devs [simp]: "devs kmem_mapped = devs kmem_demo" "devs kmem_demo ! 0 = demo_dev"
  by (simp_all add: kmem_mapped_def kmem_demo_def)

section \<open>Mapping\<close>

text \<open>
  C32. The map ioctl binds exactly the GPU pages. Let the request pass the checks on its arguments for a descriptor fresh
  from \<open>mmap\<close> (\<open>map_ready\<close>: it names the area, page aligned and with the length mapped, and a GPU address above that length,
  on a device whose BAR is mapped), let the driver pin the range, and let the range have at least 64 KB and at most
  2^64 - 65536 bytes and the BAR at least 64 KB. Then \<open>fgds_ioctl\<close> does not fault. (For a shorter range it can.) If it
  returns 0, the last thing it did was to insert, at the start of the area, 16 host pages for each 64 KB GPU page, in
  order: host page \<open>j\<close> is the page of the BAR mapping at the offset of GPU page \<open>j div 16\<close> plus \<open>j mod 16\<close> times 4096,
  and every such GPU page lies inside the BAR. Otherwise everything allocated is freed and the descriptor is not bound.
\<close>

theorem map_ioctl_exact:
  assumes "map_ready k s a v mb b i" and "driver_ok k pg" and "65536 \<le> unat (gpu_addr_size a)"
    and "unat (gpu_addr_size a) \<le> 18446744073709486080" and "65536 \<le> unat (bar_size (devs s ! i))"
  shows "runs_to (fgds_ioctl k FGDS_IOCTL_MAP a) s (\<lambda>r t. let d = devs s ! i; phys = gpu_pages pg a in
    if r = 0 then \<exists>pgs. last (mcalls t) = M_insert v (host_vaddr a) pgs 0 \<and>
        length pgs = 16 * ((unat (gpu_addr_size a) + 65535) div 65536) \<and>
        (\<forall>j. j < length pgs \<longrightarrow> pgs ! j = Some (m_virt_to_page k (pci_mem_va d + (phys ! (j div 16) - paddr d) + of_nat (j mod 16) * PAGE_SIZE))) \<and>
        (\<forall>x\<in>set phys. unat (x - paddr d) + 65536 \<le> unat (bar_size d))
    else (\<forall>p. p \<noteq> mb \<longrightarrow> kheap t p = kheap s p) \<and>
        (\<exists>b'. kheap t mb = Some (Mbuf b') \<and> \<not> remap b' \<and> mb_map b' = None \<and> ppages b' = None))" (is "runs_to _ _ ?Q")
proof -
  let ?s = "s\<lparr>kheap := (kheap s)(mb \<mapsto> Mbuf (with_dev a b))\<rparr>" and ?d = "devs s ! i" and ?phys = "gpu_pages pg a"
  have cv: "c_vaddr (with_dev a b) = host_vaddr a" "\<not> remap (with_dev a b)" using assms(1) by (simp_all add: map_ready_def with_dev_def)
  note len = length_gpu_pages [OF assms(2,4)]
  show ?thesis
  proof (rule runs_to_mono [OF map_ioctl_spec [OF assms(1-4)]], elim exE conjE)
    fix r t s'
    assume "s' = ?s" and R: "map_result k s' mb (with_dev a b) ?d v (map_gpu_addr a) ?phys r t"
    show "?Q r t"
    proof (cases "r = 0")
      case True
      with R obtain b' where "\<forall>x\<in>set ?phys. in_bar ?d x" "last (mcalls t) = M_insert v (host_vaddr a) (map Some (bar_pages k ?d ?phys)) 0"
        by (auto elim!: map_result_ok simp: cv)
      then show ?thesis using True assms(5) len in_bar_bounds
        by (auto simp: Let_def bar_pages_nth intro!: exI [of _ "map Some (bar_pages k ?d ?phys)"])
    next
      case False
      from map_result_failed [OF R False] obtain b' where "remap b' = remap (with_dev a b)" "mb_map b' = None" "ppages b' = None"
        "kheap t = (kheap s')(mb \<mapsto> Mbuf b')" by metis
      then show ?thesis using False cv by (simp add: Let_def \<open>s' = ?s\<close>)
    qed
  qed
qed


theorem map_ioctl_exact_witness:
  "runs_to (fgds_ioctl menv_ok FGDS_IOCTL_MAP (demo_arg 0x20000)) kmem_mapped (\<lambda>r t. r = 0 \<longrightarrow>
    (\<exists>pgs. last (mcalls t) = M_insert 0 0x7f0000000000 pgs 0 \<and> length pgs = 32))"
proof -
  have "65536 \<le> unat (gpu_addr_size (demo_arg 0x20000))" "unat (gpu_addr_size (demo_arg 0x20000)) \<le> 18446744073709486080"
    "65536 \<le> unat (bar_size (devs kmem_mapped ! 0))" by (simp_all add: demo_arg_def demo_dev_def)
  from map_ioctl_exact [OF demo_ready' demo_driver this] show ?thesis
    by (rule runs_to_mono) (auto simp: Let_def demo_arg_def)
qed

lemma mmap_map_ready:
  assumes "mmap_post k s v i t" and "kmem_ok s" and "area_ok s v i a" and "serves k v (host_vaddr a)"
  shows "map_ready k t a v (knext s) (mmap_mb s v i) i"
  using assms unfolding area_ok_def
  by (elim conjE) (simp add: map_ready_def mmap_post_def kmem_ok_def serves_def heap_fresh_def mmap_mb_def blank_mbuffer_def)

text \<open>The area, with its buffer, as the two ioctls find it.\<close>

lemma unmap_ioctl_eq:
  assumes "serves k v (host_vaddr a)" and "host_vaddr a \<noteq> 0" and "host_vaddr a mod PAGE_SIZE = 0"
    and "vm_private_data (vmas s v) = Some mb" and "kheap s mb = Some (Mbuf b)" and "c_vaddr b = host_vaddr a" and "map_len b = host_vaddr_size a"
  shows "fgds_ioctl k FGDS_IOCTL_UNMAP a s = sq (fgds_mbuffer_put k (Some mb)) (ret 0) s"
  using assms lookup_buffer [of "host_vaddr a" k s v mb b]
  by (simp add: fgds_ioctl_def fgds_map_dev_release_def serves_def run_simps)

lemma dangling_ioctl:
  assumes "serves k v (host_vaddr a)" and "host_vaddr a \<noteq> 0" and "host_vaddr a mod PAGE_SIZE = 0"
    and "vm_private_data (vmas s v) = Some mb" and "kheap s mb = None" and "cmd = FGDS_IOCTL_MAP \<or> cmd = FGDS_IOCTL_UNMAP"
  shows "fgds_ioctl k cmd a s = Inl Use_After_Free"
  using assms(6) by (elim disjE) (use assms(1-5) in \<open>simp_all add: fgds_ioctl_def fgds_map_dev_release_def fgds_map_dev_addr_def fgds_lookup_mmap_buffer_def serves_def run\<close>)

lemma unmap_bound:
  assumes "map_ready k s a v mb b i" and "serves k v (host_vaddr a)" and "ref b = 1" and "hash_lock s = Unlocked" and "p2p_ptr (drv s) Put_Pages"
    and R: "map_result k (s\<lparr>kheap := (kheap s)(mb \<mapsto> Mbuf (with_dev a b))\<rparr>) mb (with_dev a b) d v (map_gpu_addr a) phys 0 t"
  shows "runs_to (fgds_ioctl k FGDS_IOCTL_UNMAP a) t (\<lambda>r u. r = 0 \<and> kheap u = (kheap s)(mb := None) \<and>
    mbhash u = (\<lambda>i. remove1 mb (mbhash s i)) \<and> hash_lock u = Unlocked \<and> vmas u = vmas s \<and>
    mcalls u = mcalls s @ [M_get_pages (map_gpu_addr a) (GPU_PAGE_SIZE * of_nat (length phys)) (knext s + 2) 0,
      M_insert v (host_vaddr a) (map Some (bar_pages k d phys)) 0, M_put_pages (map_gpu_addr a) (map Some phys)])"
proof -
  let ?s = "s\<lparr>kheap := (kheap s)(mb \<mapsto> Mbuf (with_dev a b))\<rparr>"
  let ?objs = "[knext ?s, knext ?s + 1, knext ?s + 2, knext ?s + 3]"
  from map_result_ok [OF R] obtain b' where b': "same_mb (with_dev a b) b'" "remap b'"
      "bound_mb t mb b' ?objs (map_gpu_addr a) phys (bar_pages k d phys)"
      "\<forall>p. p \<noteq> mb \<and> p \<notin> set ?objs \<longrightarrow> kheap t p = kheap ?s p" "mem_frame ?s t"
      "mcalls t = mcalls ?s @ [M_get_pages (map_gpu_addr a) (GPU_PAGE_SIZE * of_nat (length phys)) (knext ?s + 2) 0,
        M_insert v (c_vaddr (with_dev a b)) (map Some (bar_pages k d phys)) 0]" by metis
  have fr: "\<forall>p\<ge>knext s. kheap s p = None" and cv: "c_vaddr (with_dev a b) = host_vaddr a"
    using assms(1) by (simp_all add: map_ready_def heap_fresh_def with_dev_def)
  have eq: "fgds_ioctl k FGDS_IOCTL_UNMAP a t = sq (fgds_mbuffer_put k (Some mb)) (ret 0) t"
    by (rule unmap_ioctl_eq [OF assms(2), where b = b']) (use assms(1) b' in \<open>auto simp: map_ready_def same_mb_def with_dev_def bound_mb_def mem_frame_def\<close>)
  have h: "(\<lambda>p. if p \<in> insert mb (set ?objs) then None else kheap t p) = (kheap s)(mb := None)"
    using b'(4) fr by (auto simp: fun_eq_iff)
  have "ref b' = 1" using b'(1) assms(3) by (simp add: same_mb_def with_dev_def)
  then have "runs_to (sq (fgds_mbuffer_put k (Some mb)) (ret 0)) t (\<lambda>r u. r = 0 \<and> kheap u = (kheap s)(mb := None) \<and>
    mbhash u = (\<lambda>i. remove1 mb (mbhash s i)) \<and> hash_lock u = Unlocked \<and> vmas u = vmas s \<and>
    mcalls u = mcalls s @ [M_get_pages (map_gpu_addr a) (GPU_PAGE_SIZE * of_nat (length phys)) (knext s + 2) 0,
      M_insert v (host_vaddr a) (map Some (bar_pages k d phys)) 0, M_put_pages (map_gpu_addr a) (map Some phys)])"
    unfolding runs_to_sq runs_to_ret
    by (intro runs_to_mono [OF mbuffer_put_last [OF b'(3,2)]]) (use assms(4,5) b'(5,6) cv h in \<open>auto simp: mem_frame_def\<close>)
  then show ?thesis by (simp add: runs_to_def eq)
qed


lemma map_result_zero:
  assumes "map_result k s mb b d v va phys r t" and "\<forall>sz w. fst (m_kmalloc k sz w)" and "\<forall>x\<in>set phys. in_bar d x"
    and "\<forall>pgs w. fst (m_insert_pages k v (c_vaddr b) pgs w) = 0"
  shows "r = 0"
  using assms unfolding map_result_def Let_def by auto

lemma map_result_nonzero:
  assumes "map_result k s mb b d v va phys r t" and "(\<exists>x\<in>set phys. \<not> in_bar d x) \<or> (\<forall>pgs w. fst (m_insert_pages k v (c_vaddr b) pgs w) \<noteq> 0)"
  shows "r \<noteq> 0"
  using assms unfolding map_result_def Let_def by (auto split: if_splits)

text \<open>A process that maps the device file once and then issues ioctls for the area, in order.\<close>

fun session :: "'w menv \<Rightarrow> fgds_ioctl_map_s \<Rightarrow> ioctl_cmd list \<Rightarrow> ('w kmem, int list) prog" where
  "session k a [] = ret []"
| "session k a (c # cs) = bnd (fgds_ioctl k c a) (\<lambda>r. bnd (session k a cs) (\<lambda>rs. ret (r # rs)))"

definition client :: "bool \<Rightarrow> 'w menv \<Rightarrow> nat \<Rightarrow> nat \<Rightarrow> fgds_ioctl_map_s \<Rightarrow> ioctl_cmd list \<Rightarrow> ('w kmem, int list) prog" where
  "client nc k i v a cs = bnd (fgds_mmap nc k (Some i) v) (\<lambda>r. bnd (session k a cs) (\<lambda>rs. ret (r # rs)))"

lemma bnd_eqI: "runs_to m s (\<lambda>x t. f x t = R) \<Longrightarrow> bnd m f s = R"
  by (auto simp: runs_to_def bnd_def split: sum.splits)

lemma session_append: "session k a (cs @ ds) s = bnd (session k a cs) (\<lambda>rs. bnd (session k a ds) (\<lambda>ss. ret (rs @ ss))) s"
  by (induction cs arbitrary: s) (simp_all add: run_simps split: sum.split prod.split)

lemma client_append: "client nc k i v a (cs @ ds) s = bnd (client nc k i v a cs) (\<lambda>rs. bnd (session k a ds) (\<lambda>ss. ret (rs @ ss))) s"
  by (simp add: client_def run_simps session_append split: sum.split prod.split)

text \<open>From \<open>mmap\<close> to the map ioctl.\<close>

lemma mmap_then_map:
  assumes "kmem_ok s" and "area_ok s v i a" and "serves k v (host_vaddr a)" and "driver_ok k pg"
  shows "runs_to (client nc k i v a [FGDS_IOCTL_MAP]) s (\<lambda>rs t. \<exists>r2. rs = [0, r2] \<and>
    (\<exists>t1. mmap_post k s v i t1 \<and> map_ready k t1 a v (knext s) (mmap_mb s v i) i \<and>
      map_result k (t1\<lparr>kheap := (kheap t1)(knext s \<mapsto> Mbuf (with_dev a (mmap_mb s v i)))\<rparr>) (knext s) (with_dev a (mmap_mb s v i))
        (devs s ! i) v (map_gpu_addr a) (gpu_pages pg a) r2 t))"
proof -
  have m: "runs_to (fgds_mmap nc k (Some i) v) s (\<lambda>r t. r = 0 \<and> mmap_post k s v i t)"
    using assms(1-3) by (intro mmap_spec) (simp_all add: kmem_ok_def area_ok_def serves_def)
  have "runs_to (fgds_ioctl k FGDS_IOCTL_MAP a) t1 (\<lambda>r2 t. \<exists>t1. mmap_post k s v i t1 \<and> map_ready k t1 a v (knext s) (mmap_mb s v i) i \<and>
      map_result k (t1\<lparr>kheap := (kheap t1)(knext s \<mapsto> Mbuf (with_dev a (mmap_mb s v i)))\<rparr>) (knext s) (with_dev a (mmap_mb s v i))
        (devs s ! i) v (map_gpu_addr a) (gpu_pages pg a) r2 t)"
    if p: "mmap_post k s v i t1" for t1
  proof -
    have r: "map_ready k t1 a v (knext s) (mmap_mb s v i) i" by (rule mmap_map_ready [OF p assms(1-3)])
    have d: "devs t1 = devs s" using p by (simp add: mmap_post_def)
    have len: "65536 \<le> unat (gpu_addr_size a)" "unat (gpu_addr_size a) \<le> 18446744073709486080" using assms(2) by (simp_all add: area_ok_def)
    show ?thesis by (rule runs_to_mono [OF map_ioctl_spec [OF r assms(4) len]]) (use p r d in auto)
  qed
  then show ?thesis unfolding client_def runs_to_bnd session.simps runs_to_ret by (intro runs_to_mono [OF m]) auto
qed

lemma buffer_life:
  assumes ok: "kmem_ok s" "area_ok s v i a" "serves k v (host_vaddr a)" "driver_ok k pg"
    and bar: "\<forall>x\<in>set (gpu_pages pg a). in_bar (devs s ! i) x" and ins: "\<forall>pgs w. fst (m_insert_pages k v (host_vaddr a) pgs w) = 0"
  shows "runs_to (client nc k i v a [FGDS_IOCTL_MAP, FGDS_IOCTL_UNMAP]) s (\<lambda>rs t. rs = [0, 0, 0] \<and>
      kheap t = kheap s \<and> mbhash t = mbhash s \<and> hash_lock t = Unlocked \<and> vm_private_data (vmas t v) = Some (knext s) \<and>
      (\<exists>m. mcalls t = mcalls s @ [M_get_pages (map_gpu_addr a) (GPU_PAGE_SIZE * of_nat (length (gpu_pages pg a))) m 0,
        M_insert v (host_vaddr a) (map Some (bar_pages k (devs s ! i) (gpu_pages pg a))) 0,
        M_put_pages (map_gpu_addr a) (map Some (gpu_pages pg a))]))" (is "runs_to _ _ ?Q")
proof -
  have "runs_to (bnd (client nc k i v a [FGDS_IOCTL_MAP]) (\<lambda>rs. bnd (session k a [FGDS_IOCTL_UNMAP]) (\<lambda>ss. ret (rs @ ss)))) s ?Q"
  proof (subst runs_to_bnd, rule runs_to_mono [OF mmap_then_map [OF ok]], clarify)
  fix r2 t t1
  assume p: "mmap_post k s v i t1" and r: "map_ready k t1 a v (knext s) (mmap_mb s v i) i"
    and R: "map_result k (t1\<lparr>kheap := (kheap t1)(knext s \<mapsto> Mbuf (with_dev a (mmap_mb s v i)))\<rparr>) (knext s) (with_dev a (mmap_mb s v i))
        (devs s ! i) v (map_gpu_addr a) (gpu_pages pg a) r2 t"
  have "c_vaddr (with_dev a (mmap_mb s v i)) = host_vaddr a" using ok(2) by (simp add: with_dev_def mmap_mb_def area_ok_def)
  then have z: "r2 = 0" using map_result_zero [OF R] ok(3) bar ins by (simp add: serves_def)
  have fresh: "kheap s (knext s) = None" "\<forall>j. knext s \<notin> set (mbhash s j)" using ok(1) by (simp add: kmem_ok_def heap_fresh_def, use ok(1) in \<open>metis kmem_ok_def heap_fresh_def order_refl\<close>)
  have t1: "(kheap t1)(knext s := None) = kheap s" "(\<lambda>j. remove1 (knext s) (mbhash t1 j)) = mbhash s"
    using p fresh by (auto simp: mmap_post_def fun_eq_iff remove1_idem)
  show "runs_to (bnd (session k a [FGDS_IOCTL_UNMAP]) (\<lambda>ss. ret ([0, r2] @ ss))) t ?Q"
    unfolding runs_to_bnd session.simps runs_to_ret
    by (rule runs_to_mono [OF unmap_bound [OF r ok(3) _ _ _ R [unfolded z]]])
      (use p ok(1) t1 z in \<open>auto simp: mmap_mb_def mmap_post_def kmem_ok_def\<close>)
  qed
  then show ?thesis using client_append [of nc k i v a "[FGDS_IOCTL_MAP]" "[FGDS_IOCTL_UNMAP]" s] by (simp add: runs_to_def)
qed

text \<open>
  C33. A buffer's life leaves no trace in the module. When memory is available, the pages lie inside the BAR and the
  insertion succeeds, \<open>mmap\<close>, the map ioctl and the unmap ioctl all return 0; the pages are pinned, inserted and put
  once, with the same table; and the store of objects and the hash table are what they were before.
\<close>

theorem buffer_roundtrip:
  assumes "kmem_ok s" and "area_ok s v i a" and "serves k v (host_vaddr a)" and "driver_ok k pg"
    and "\<forall>x\<in>set (gpu_pages pg a). in_bar (devs s ! i) x" and "\<forall>pgs w. fst (m_insert_pages k v (host_vaddr a) pgs w) = 0"
  shows "runs_to (client nc k i v a [FGDS_IOCTL_MAP, FGDS_IOCTL_UNMAP]) s (\<lambda>rs t. rs = [0, 0, 0] \<and>
    kheap t = kheap s \<and> mbhash t = mbhash s \<and> hash_lock t = Unlocked \<and>
    (\<exists>m. mcalls t = mcalls s @ [M_get_pages (map_gpu_addr a) (GPU_PAGE_SIZE * of_nat (length (gpu_pages pg a))) m 0,
      M_insert v (host_vaddr a) (map Some (bar_pages k (devs s ! i) (gpu_pages pg a))) 0,
      M_put_pages (map_gpu_addr a) (map Some (gpu_pages pg a))]))"
  by (rule runs_to_mono [OF buffer_life [OF assms]]) simp

theorem buffer_roundtrip_witness:
  "runs_to (client True menv_ok 0 0 (demo_arg 0x20000) [FGDS_IOCTL_MAP, FGDS_IOCTL_UNMAP]) kmem_demo
    (\<lambda>rs t. rs = [0, 0, 0] \<and> kheap t = Map.empty \<and> length (mcalls t) = 3)"
proof -
  have "\<forall>x\<in>set (gpu_pages demo_pg (demo_arg 0x20000)). in_bar (devs kmem_demo ! 0) x" using demo_bar by (simp add: demo_pages)
  moreover have "\<forall>pgs w. fst (m_insert_pages menv_ok 0 (host_vaddr (demo_arg 0x20000)) pgs w) = 0" by (simp add: menv_ok_def)
  ultimately show ?thesis
    by (intro runs_to_mono [OF buffer_roundtrip [OF demo_kmem_ok demo_area_ok demo_serves demo_driver]]) (auto simp: kmem_demo_def)
qed

text \<open>
  C34. The area keeps pointing at the freed buffer. After the same life the unmap ioctl has freed the descriptor but
  left the \<open>vm_private_data\<close> of the area as it was: the next map or unmap ioctl for the area reads freed memory.
\<close>

theorem unmap_leaves_dangling_area:
  assumes "kmem_ok s" and "area_ok s v i a" and "serves k v (host_vaddr a)" and "driver_ok k pg"
    and "\<forall>x\<in>set (gpu_pages pg a). in_bar (devs s ! i) x" and "\<forall>pgs w. fst (m_insert_pages k v (host_vaddr a) pgs w) = 0"
    and "cmd = FGDS_IOCTL_MAP \<or> cmd = FGDS_IOCTL_UNMAP"
  shows "client nc k i v a [FGDS_IOCTL_MAP, FGDS_IOCTL_UNMAP, cmd] s = Inl Use_After_Free"
proof -
  have a: "host_vaddr a \<noteq> 0" "host_vaddr a mod PAGE_SIZE = 0" using assms(2) unfolding area_ok_def by blast+
  have "kheap s (knext s) = None" using assms(1) by (simp add: kmem_ok_def heap_fresh_def)
  then have "runs_to (client nc k i v a [FGDS_IOCTL_MAP, FGDS_IOCTL_UNMAP]) s (\<lambda>rs t. fgds_ioctl k cmd a t = Inl Use_After_Free)"
    by (intro runs_to_mono [OF buffer_life [OF assms(1-6)]] dangling_ioctl [OF assms(3) a _ _ assms(7)]) auto
  then show ?thesis using client_append [of nc k i v a "[FGDS_IOCTL_MAP, FGDS_IOCTL_UNMAP]" "[cmd]" s]
    by (auto simp: runs_to_def run_simps split: sum.splits)
qed

theorem unmap_leaves_dangling_area_witness:
  "client True menv_ok 0 0 (demo_arg 0x20000) [FGDS_IOCTL_MAP, FGDS_IOCTL_UNMAP, FGDS_IOCTL_UNMAP] kmem_demo = Inl Use_After_Free"
  by (rule unmap_leaves_dangling_area [OF demo_kmem_ok demo_area_ok demo_serves demo_driver])
    (use demo_bar in \<open>simp_all add: demo_pages menv_ok_def\<close>)

text \<open>
  C35. A mapping that fails late is freed twice. When memory is available but a GPU page lies outside the BAR or the
  insertion is refused, the map ioctl frees its arrays and keeps the pointer \<open>dev_page_addrs\<close> in the descriptor; the
  unmap ioctl frees that array again.
\<close>

theorem failed_map_double_free:
  assumes "kmem_ok s" and "area_ok s v i a" and "serves k v (host_vaddr a)" and "driver_ok k pg"
    and "(\<exists>x\<in>set (gpu_pages pg a). \<not> in_bar (devs s ! i) x) \<or> (\<forall>pgs w. fst (m_insert_pages k v (host_vaddr a) pgs w) \<noteq> 0)"
  shows "client nc k i v a [FGDS_IOCTL_MAP, FGDS_IOCTL_UNMAP] s = Inl Double_Free"
proof -
  let ?b = "with_dev a (mmap_mb s v i)"
  have a: "host_vaddr a \<noteq> 0" "host_vaddr a mod PAGE_SIZE = 0" using assms(2) unfolding area_ok_def by blast+
  have cv: "c_vaddr ?b = host_vaddr a" "map_len ?b = host_vaddr_size a" "ref ?b = 1" "\<not> remap ?b"
    using assms(2) by (simp_all add: with_dev_def mmap_mb_def area_ok_def blank_mbuffer_def)
  have "fgds_ioctl k FGDS_IOCTL_UNMAP a t = Inl Double_Free"
    if p: "mmap_post k s v i t1" and r: "map_ready k t1 a v (knext s) (mmap_mb s v i) i"
      and R: "map_result k (t1\<lparr>kheap := (kheap t1)(knext s \<mapsto> Mbuf ?b)\<rparr>) (knext s) ?b (devs s ! i) v (map_gpu_addr a) (gpu_pages pg a) r2 t" for t1 r2 t
  proof -
    let ?t1 = "t1\<lparr>kheap := (kheap t1)(knext s \<mapsto> Mbuf ?b)\<rparr>"
    have "r2 \<noteq> 0" using map_result_nonzero [OF R] assms(5) cv(1) by simp
    from map_result_failed [OF R this] obtain b' where b': "same_mb ?b b'" "remap b' = remap ?b" "ppages b' = None"
      "kheap t = (kheap ?t1)(knext s \<mapsto> Mbuf b')" "mem_frame ?t1 t" "dev_page_addrs b' = Some (knext ?t1)"
      using assms(3) unfolding serves_def by metis
    have "kheap s (Suc (knext s)) = None" using assms(1) by (simp add: kmem_ok_def heap_fresh_def)
    then have free: "kheap t (knext s) = Some (Mbuf b')" "kheap t (knext ?t1) = None" "knext ?t1 = Suc (knext s)"
      using b'(4) p by (simp_all add: mmap_post_def)
    have "fgds_ioctl k FGDS_IOCTL_UNMAP a t = sq (fgds_mbuffer_put k (Some (knext s))) (ret 0) t"
      by (rule unmap_ioctl_eq [OF assms(3) a _ free(1)])
        (use b'(1,5) cv p in \<open>simp_all add: same_mb_def mem_frame_def mmap_post_def\<close>)
    also have "\<dots> = Inl Double_Free"
      using free b'(1,2,5,6) cv p
      by (simp add: fgds_mbuffer_put_def fgds_mbuffer_put_internal_def fgds_mbuffer_put_ref_def fgds_mbuffer_free_def run_simps mem_eq
        mem_free_eq same_mb_def mem_frame_def mmap_post_def kfree_def assert_or_def)
    finally show ?thesis .
  qed
  then have "runs_to (client nc k i v a [FGDS_IOCTL_MAP]) s (\<lambda>rs t. fgds_ioctl k FGDS_IOCTL_UNMAP a t = Inl Double_Free)"
    by (intro runs_to_mono [OF mmap_then_map [OF assms(1-4)]]) blast
  then show ?thesis using client_append [of nc k i v a "[FGDS_IOCTL_MAP]" "[FGDS_IOCTL_UNMAP]" s]
    by (auto simp: runs_to_def run_simps split: sum.splits)
qed


theorem failed_map_double_free_witness:
  "client True (menv_ok\<lparr>m_insert_pages := \<lambda>_ _ _ w. (- ENOMEM, w)\<rparr>) 0 0 (demo_arg 0x20000) [FGDS_IOCTL_MAP, FGDS_IOCTL_UNMAP] kmem_demo = Inl Double_Free"
  by (rule failed_map_double_free [OF demo_kmem_ok demo_area_ok, of _ demo_pg])
    (use demo_driver in \<open>simp_all add: serves_def driver_ok_def menv_ok_def\<close>)

section \<open>Requests the mapping does not survive\<close>

text \<open>With memory available, the map ioctl comes to the point where it calls the driver.\<close>

lemma map_ioctl_alloc:
  assumes r: "map_ready k s a v mb b i" and m: "\<forall>sz w. fst (m_kmalloc k sz w)"
    and n: "\<not> (gpu_addr_size a < GPU_PAGE_SIZE \<and> gpu_addr_size a mod PAGE_SIZE \<noteq> 0)"
    and nr: "nr = DIV_ROUND_UP (gpu_addr_size a) GPU_PAGE_SIZE"
    and b1: "b1 = (with_dev a b)\<lparr>cpu_pages_per_gpu_page := 16, dev_page_num := nr,
      host_page_num := (if gpu_addr_size a < GPU_PAGE_SIZE then DIV_ROUND_UP (gpu_addr_size a) PAGE_SIZE else nr * 16)\<rparr>"
  obtains w where "fgds_ioctl k FGDS_IOCTL_MAP a s = map_pages k mb (Some v) (devs s ! i) (knext s + 2) (knext s + 3) (knext s)
    (alloc_state (s\<lparr>kheap := (kheap s)(mb \<mapsto> Mbuf b1)\<rparr>) mb b1 (map_gpu_addr a) (gpu_addr_size a) nr w)"
proof -
  let ?s = "s\<lparr>kheap := (kheap s)(mb \<mapsto> Mbuf b1)\<rparr>"
  have h: "kheap s mb = Some (Mbuf b)" "mb < knext s" using r unfolding map_ready_def by (metis heap_fresh_def not_less option.distinct(1))+
  have "\<exists>w'. m_kmalloc k sz w = (True, w')" for sz w using m by (metis eq_fst_iff)
  then obtain w1 w2 w3 w4 where "m_kmalloc k (nr * 8) (mworld ?s) = (True, w1)" "m_kmalloc k (host_page_num b1 * 8) w1 = (True, w2)"
    "m_kmalloc k (72 + nr * 8) w2 = (True, w3)" "m_kmalloc k 8 w3 = (True, w4)" by metis
  from map_alloc_eq [OF _ _ this, of mb] h
  have "map_alloc k mb (Some v) (devs s ! i) (map_gpu_addr a) (gpu_addr_size a) nr ?s =
    map_pages k mb (Some v) (devs s ! i) (knext s + 2) (knext s + 3) (knext s) (alloc_state ?s mb b1 (map_gpu_addr a) (gpu_addr_size a) nr w4)"
    by simp
  moreover have "fgds_ioctl k FGDS_IOCTL_MAP a s = map_alloc k mb (Some v) (devs s ! i) (map_gpu_addr a) (gpu_addr_size a) nr ?s"
    using r n unfolding map_ioctl_eq [OF r] fgds_map_dev_addr_inner_def
    by (simp add: run_simps mem_eq assert_or_def Let_def map_ready_def with_dev_def nr b1)
  ultimately show thesis using that by metis
qed

text \<open>
  C36. A driver that refuses crashes the kernel. The result of \<open>nvfs_nvidia_p2p_get_pages\<close> is not checked: when the driver
  returns no table, the map ioctl of any non-empty range reads the first entry of a null pointer.
\<close>

theorem driver_refusal_null_deref:
  assumes "map_ready k s a v mb b i" and "\<forall>sz w. fst (m_kmalloc k sz w)" and "\<forall>va len w. snd (fst (m_get_pages k va len w)) = None"
    and "0 < unat (gpu_addr_size a)" and "unat (gpu_addr_size a) \<le> 18446744073709486080"
    and "\<not> (gpu_addr_size a < GPU_PAGE_SIZE \<and> gpu_addr_size a mod PAGE_SIZE \<noteq> 0)"
  shows "fgds_ioctl k FGDS_IOCTL_MAP a s = Inl Null_Deref"
proof -
  define nr where "nr = DIV_ROUND_UP (gpu_addr_size a) GPU_PAGE_SIZE"
  have "65536 div 65536 \<le> unat nr" unfolding nr_def div_round_up_gpu [OF assms(5)] using assms(4) by (intro div_le_mono) simp
  then have pages: "[0..<unat nr] = 0 # [1..<unat nr]" by (simp add: upt_conv_Cons)
  have p: "p2p_ptr (drv s) Get_Pages" using assms(1) by (simp add: map_ready_def)
  define r w' where "r = (\<lambda>w. fst (fst (m_get_pages k (map_gpu_addr a) (GPU_PAGE_SIZE * nr) w)))"
    and "w' = (\<lambda>w. snd (m_get_pages k (map_gpu_addr a) (GPU_PAGE_SIZE * nr) w))"
  then have g: "m_get_pages k (map_gpu_addr a) (GPU_PAGE_SIZE * nr) w = ((r w, None), w' w)" for w
    using assms(3) by (simp add: prod_eq_iff)
  show ?thesis
    by (rule map_ioctl_alloc [OF assms(1,2,6) nr_def refl])
      (simp add: map_pages_def run_simps mem_eq mem_free_eq alloc_state_def Let_def nvfs_nvidia_p2p_get_pages_def p g mext_def mlogged_def pages the_or_def)
qed

theorem driver_refusal_null_deref_witness:
  "fgds_ioctl (menv_ok\<lparr>m_get_pages := \<lambda>_ _ w. ((- EINVAL, None), w)\<rparr>) FGDS_IOCTL_MAP (demo_arg 0x20000) kmem_mapped = Inl Null_Deref"
  by (rule driver_refusal_null_deref [OF demo_ready]) (simp_all add: menv_ok_def demo_arg_def)

lemma set_ppages_overrun:
  assumes "kheap s mb = Some (Mbuf b)" and "ppages b = Some pp" and "kheap s pp = Some (Pages xs)" and "length xs < n"
  shows "for_each [0..<n] (\<lambda>j. set_ppage mb j (g j)) s = Inl Out_Of_Bounds"
proof -
  let ?m = "length xs"
  have up: "[0..<n] = [0..<?m] @ ?m # [Suc ?m..<n]" using assms(4) upt_add_eq_append [of 0 ?m "n - ?m"] by (simp add: upt_conv_Cons)
  have app: "for_each (as @ bs) f s = sq (for_each as f) (for_each bs f) s" for as bs and f :: "nat \<Rightarrow> ('a kmem, unit) prog" and s
    by (induction as arbitrary: s) (simp_all add: run_simps split: sum.split prod.split)
  have ne: "mb \<noteq> pp" using assms(1,3) by auto
  have "for_each [0..<?m] (\<lambda>j. set_ppage mb j (g j)) s = Inr ((), s\<lparr>kheap := (kheap s)(pp \<mapsto> Pages (map (\<lambda>j. Some (g j)) [0..<?m]))\<rparr>)"
    using set_ppages_spec [OF assms(1-3), of 0 ?m g] by (simp add: runs_to_iff)
  then show ?thesis unfolding up app using assms(1,2) ne by (simp add: run_simps set_ppage_def mem_eq the_or_def load_pages_def assert_or_def)
qed

lemma page_fill_overrun:
  assumes "kheap s mb = Some (Mbuf b)" and "ppages b = Some pp" and "cpu_pages_per_gpu_page b = 16" and "kheap s pp = Some (Pages xs)"
    and "length xs < 16" and "kheap s a = Some (U64s (y # ys))" and "in_bar d y"
  shows "page_fill_loop k mb d a (0 # is) s = Inl Out_Of_Bounds"
  using assms by (simp add: run_simps mem_eq load_u64s_def assert_or_def Let_def in_bar_def not_less set_ppages_overrun)

text \<open>
  C37. A range shorter than a GPU page overruns an array. The array of host pages is sized by the range, but 16 entries are
  written for each GPU page: mapping a multiple of 4 KB below 64 KB writes behind the end of the array.
\<close>

theorem short_map_overruns:
  assumes "map_ready k s a v mb b i" and "\<forall>sz w. fst (m_kmalloc k sz w)" and "driver_ok k pg"
    and "0 < unat (gpu_addr_size a)" and "unat (gpu_addr_size a) < 65536" and "gpu_addr_size a mod PAGE_SIZE = 0"
    and "\<forall>x\<in>set (gpu_pages pg a). in_bar (devs s ! i) x"
  shows "fgds_ioctl k FGDS_IOCTL_MAP a s = Inl Out_Of_Bounds"
proof -
  define x where "x = unat (gpu_addr_size a)"
  have "unat (gpu_addr_size a mod PAGE_SIZE) = 0" using assms(6) by simp
  then have x: "0 < x" "x < 65536" "x mod 4096 = 0" using assms(4,5) by (simp_all add: x_def unat_mod)
  have "unat (DIV_ROUND_UP (gpu_addr_size a) GPU_PAGE_SIZE) = (x + 65535) div 65536" unfolding x_def by (rule div_round_up_gpu) (use assms(5) in simp)
  also have "\<dots> = 1" using x by (simp add: div_if)
  finally have nr: "DIV_ROUND_UP (gpu_addr_size a) GPU_PAGE_SIZE = 1" by (metis unat_1 word_unat_eq_iff)
  have "unat (gpu_addr_size a + 4096 - 1) = x + 4095" unfolding x_def using assms(5) by (simp add: unat_word_ariths)
  moreover obtain q where q: "x = 4096 * q" using x(3) by (metis mod_0_imp_dvd dvdE)
  moreover have "(4096 * q + 4095) div 4096 = q" by (simp add: div_mult_self4)
  ultimately have host: "unat (DIV_ROUND_UP (gpu_addr_size a) PAGE_SIZE) < 16" using x(2) by (simp add: DIV_ROUND_UP_def unat_div)
  have small: "gpu_addr_size a < GPU_PAGE_SIZE" using assms(5) by (simp add: word_less_nat_alt)
  have "length (gpu_pages pg a) = 1" using assms(3) by (simp add: gpu_pages_def driver_ok_def nr)
  then obtain y where y: "gpu_pages pg a = [y]" by (cases "gpu_pages pg a") auto
  have p: "p2p_ptr (drv s) Get_Pages" and mb: "kheap s mb = Some (Mbuf b)" "mb < knext s"
    using assms(1) unfolding map_ready_def by (metis heap_fresh_def not_less option.distinct(1))+
  have bar: "in_bar (devs s ! i) y" using assms(7) by (simp add: y)
  define b1 where "b1 = (with_dev a b)\<lparr>cpu_pages_per_gpu_page := 16, dev_page_num := DIV_ROUND_UP (gpu_addr_size a) GPU_PAGE_SIZE, host_page_num :=
    (if gpu_addr_size a < GPU_PAGE_SIZE then DIV_ROUND_UP (gpu_addr_size a) PAGE_SIZE else DIV_ROUND_UP (gpu_addr_size a) GPU_PAGE_SIZE * 16)\<rparr>"
  show ?thesis
  proof (rule map_ioctl_alloc [OF assms(1,2) _ refl b1_def])
    fix w
    have "pg (map_gpu_addr a) GPU_PAGE_SIZE = [y]" using y by (simp add: gpu_pages_def nr)
    moreover obtain w' where "m_get_pages k (map_gpu_addr a) GPU_PAGE_SIZE w = ((0, Some (map Some (pg (map_gpu_addr a) GPU_PAGE_SIZE))), w')"
      using assms(3) unfolding driver_ok_def by blast
    ultimately have g: "m_get_pages k (map_gpu_addr a) GPU_PAGE_SIZE w = ((0, Some [Some y]), w')" by simp
    assume e: "fgds_ioctl k FGDS_IOCTL_MAP a s = map_pages k mb (Some v) (devs s ! i) (knext s + 2) (knext s + 3) (knext s)
      (alloc_state (s\<lparr>kheap := (kheap s)(mb \<mapsto> Mbuf b1)\<rparr>) mb b1 (map_gpu_addr a) (gpu_addr_size a) (DIV_ROUND_UP (gpu_addr_size a) GPU_PAGE_SIZE) w)"
    show ?thesis unfolding e nr using small host mb bar
      by (simp add: map_pages_def run_simps mem_eq mem_free_eq alloc_state_def Let_def nvfs_nvidia_p2p_get_pages_def p g mext_def mlogged_def
        the_or_def load_u64s_def assert_or_def page_fill_overrun b1_def nr del: page_fill_loop.simps)
  qed (use assms(6) in simp)
qed


theorem short_map_overruns_witness:
  "fgds_ioctl menv_ok FGDS_IOCTL_MAP (demo_arg 0x2000) kmem_mapped = Inl Out_Of_Bounds"
  by (rule short_map_overruns [OF demo_ready' _ demo_driver])
    (use demo_bar in \<open>simp_all add: menv_ok_def demo_pages\<close>, simp_all add: demo_arg_def)

section \<open>References\<close>

text \<open>The search of a bucket.\<close>

lemma get_loop_spec:
  assumes "\<forall>p\<in>set ps. \<exists>b. kheap s p = Some (Mbuf b) \<and> ref b \<noteq> 0"
  shows "runs_to (get_loop i ps) s (\<lambda>r t. case r of None \<Rightarrow> t = s | Some p \<Rightarrow> p \<in> set ps \<and>
    (\<exists>b. kheap s p = Some (Mbuf b) \<and> base_index b = i \<and> ref b \<noteq> 0 \<and> t = s\<lparr>kheap := (kheap s)(p \<mapsto> Mbuf (b\<lparr>ref := ref b + 1\<rparr>))\<rparr>))"
  using assms
proof (induction ps)
  case (Cons p ps)
  then obtain b where b: "kheap s p = Some (Mbuf b)" "ref b \<noteq> 0" by auto
  show ?case
  proof (cases "base_index b = i")
    case True
    then show ?thesis using b by (simp add: fgds_mbuffer_get_ref_def)
  next
    case False
    have "runs_to (get_loop i ps) s (\<lambda>r t. case r of None \<Rightarrow> t = s | Some p \<Rightarrow> p \<in> set ps \<and>
      (\<exists>b. kheap s p = Some (Mbuf b) \<and> base_index b = i \<and> ref b \<noteq> 0 \<and> t = s\<lparr>kheap := (kheap s)(p \<mapsto> Mbuf (b\<lparr>ref := ref b + 1\<rparr>))\<rparr>))"
      using Cons by simp
    then show ?thesis using b False by (simp, elim runs_to_mono) (auto split: option.splits)
  qed
qed simp

text \<open>
  Looking a buffer up and dropping the reference again changes nothing. For a bucket whose buffers are live and
  referenced, \<open>fgds_mbuffer_get\<close> followed by \<open>fgds_mbuffer_put\<close> of what it found restores the state, and the buffer found is
  one with the index asked for.
\<close>

theorem get_put_neutral:
  assumes "\<forall>p\<in>set (mbhash s (m_hash k i)). \<exists>b. kheap s p = Some (Mbuf b) \<and> ref b \<noteq> 0"
  shows "runs_to (bnd (fgds_mbuffer_get k i) (\<lambda>p. sq (fgds_mbuffer_put k p) (ret p))) s (\<lambda>p t. t = s \<and>
    (\<forall>q. p = Some q \<longrightarrow> (\<exists>b. kheap s q = Some (Mbuf b) \<and> base_index b = i)))"
proof -
  have same: "s\<lparr>kheap := (kheap s)(q \<mapsto> Mbuf b)\<rparr> = s" if "kheap s q = Some (Mbuf b)" for q b by (rule kheap_same [OF that])
  show ?thesis unfolding fgds_mbuffer_get_def fgds_mbuffer_get_unlocked_def runs_to_bnd runs_to_gets
    by (rule runs_to_mono [OF get_loop_spec [OF assms]])
      (auto simp: fgds_mbuffer_put_def fgds_mbuffer_put_internal_def fgds_mbuffer_put_ref_def same split: option.splits)
qed

theorem get_put_neutral_witness:
  "runs_to (bnd (fgds_mbuffer_get menv_ok 0x100000001) (\<lambda>p. sq (fgds_mbuffer_put menv_ok p) (ret p))) kmem_mapped (\<lambda>p t. t = kmem_mapped)"
  by (rule runs_to_mono [OF get_put_neutral]) (simp_all add: kmem_mapped_def menv_ok_def mmap_mb_def blank_mbuffer_def)

end
