(* ===== verification/Fgds_Stack.thy ===== *)
theory Fgds_Stack
  imports Fgds_Trace Kmod_Buffer
begin

text \<open>
  The library on top of the module. The \<open>mmap\<close> and \<open>ioctl\<close> calls of the library reach the model of the module: the kernel makes an
  area for the \<open>mmap\<close> and calls the module's \<open>fgds_mmap\<close>, and it passes the argument of the \<open>ioctl\<close> to \<open>fgds_ioctl\<close>. The world of the library is
  the state of the module and the number of the next area. What the library needs of the other side is the locale \<open>piece_server\<close>, which the
  module interprets; the registration lemma is proved once, in the locale.
\<close>

section \<open>The module behind the system calls\<close>

type_synonym 'w machine = "'w kmem \<times> nat"

definition new_area :: "u64 \<Rightarrow> u64 \<Rightarrow> vma" where
  "new_area start len = \<lparr>vm_start = start, vm_end = start + len, vm_flags = 0, vm_page_prot = 0, vm_private_data = None\<rparr>"

text \<open>
  \<open>mmap\<close> of the device file of device \<open>i\<close>: area \<open>n\<close> is placed at \<open>place n\<close>. A fault of the module is an oops of the kernel; here the
  call then fails without effect.
\<close>

definition module_mmap :: "bool \<Rightarrow> 'w menv \<Rightarrow> nat \<Rightarrow> (nat \<Rightarrow> u64) \<Rightarrow> u64 \<Rightarrow> int \<Rightarrow> 'w machine \<Rightarrow> u64 option \<times> 'w machine" where
  "module_mmap nc k i place len f = (\<lambda>(s, n).
     case fgds_mmap nc k (Some i) n (s\<lparr>vmas := (vmas s)(n := new_area (place n) len)\<rparr>) of
       Inl _ \<Rightarrow> (None, (s, n))
     | Inr (r, t) \<Rightarrow> (if r = 0 then Some (place n) else None, (t, Suc n)))"

text \<open>The C library turns a negative result into -1.\<close>

definition module_ioctl :: "'w menv \<Rightarrow> int \<Rightarrow> ioctl_cmd \<Rightarrow> fgds_ioctl_map_s \<Rightarrow> 'w machine \<Rightarrow> int \<times> 'w machine" where
  "module_ioctl k f cmd a = (\<lambda>(s, n). case fgds_ioctl k cmd a s of
       Inl _ \<Rightarrow> (-1, (s, n))
     | Inr (r, t) \<Rightarrow> (if r < 0 then -1 else r, (t, n)))"

definition over_module :: "bool \<Rightarrow> 'w menv \<Rightarrow> nat \<Rightarrow> (nat \<Rightarrow> u64) \<Rightarrow> 'w machine os \<Rightarrow> 'w machine os" where
  "over_module nc k i place base = base\<lparr>os_mmap := module_mmap nc k i place, os_ioctl := module_ioctl k\<rparr>"

section \<open>Pieces\<close>

text \<open>Where the pieces of a buffer of length \<open>len\<close> at \<open>g\<close> begin, and how long they are.\<close>

abbreviation piece_start :: "u64 \<Rightarrow> nat \<Rightarrow> u64" where "piece_start g j \<equiv> g + of_nat (j * seg_size)"
abbreviation piece_size :: "u64 \<Rightarrow> nat \<Rightarrow> nat" where "piece_size len j \<equiv> min seg_size (unat len - j * seg_size)"

lemma seg_count_less: "j < unat (seg_count len) \<Longrightarrow> j * seg_size < unat len"
proof -
  assume "j < unat (seg_count len)"
  then have "Suc j * seg_size \<le> unat len + seg_size - 1" unfolding seg_count_unat by (simp add: less_eq_div_iff_mult_less_eq Suc_le_eq)
  then show ?thesis by simp
qed

lemma regmem_len_sum:
  assumes "reg_size_ok len" and "i < unat (seg_count len)"
  shows "(\<Sum>x\<leftarrow>[0..<i]. regmem_len (seg_count len) (len mod FGDS_MMAP_SEGMENT_SIZE) (int x)) = of_nat (i * seg_size)"
proof -
  have "regmem_len (seg_count len) (len mod FGDS_MMAP_SEGMENT_SIZE) (int x) = of_nat seg_size" if x: "x < i" for x
  proof -
    have "Suc x * seg_size < unat len \<or> Suc x * seg_size \<le> i * seg_size" using x by simp
    then have "seg_size \<le> unat len - x * seg_size" using seg_count_less [OF assms(2)] x by (simp add: Suc_le_eq [symmetric])
    then show ?thesis using regmem_len_piece [OF assms(1), of x] x assms(2) by (simp add: min_def)
  qed
  then have "(\<Sum>x\<leftarrow>[0..<i]. regmem_len (seg_count len) (len mod FGDS_MMAP_SEGMENT_SIZE) (int x)) = (\<Sum>x\<leftarrow>[0..<i]. of_nat seg_size)"
    by (intro arg_cong [where f = sum_list] map_cong) simp_all
  then show ?thesis by (simp add: sum_list_triv)
qed

text \<open>What \<open>fgds_regmem\<close> does after its loop: it stores and links the node, without a system call.\<close>

lemma regmem_after_loop:
  assumes "valid_dev e" and "reg_size_ok len" and "\<And>x. os_malloc os x (world s) = (True, world s)"
    and "regmem_loop os e g (seg_count len) (len mod FGDS_MMAP_SEGMENT_SIZE) [0..<unat (seg_count len)] 0 []
      (s\<lparr>node_heap := (node_heap s)(next_ptr s \<mapsto> blank_node), next_ptr := Suc (next_ptr s),
      g_dev_ctx := (g_dev_ctx s)(nat e := (g_dev_ctx s (nat e))\<lparr>device_id := e\<rparr>),
      world := world s, vaddrs_live := Suc (vaddrs_live s)\<rparr>) = Inr (Some vs, t0)"
    and "fgds_regmem os e g len s = Inr (r, t)"
  shows "fst r = 0 \<and> world t = world t0 \<and> calls t = calls t0"
proof -
  let ?tail = "sq (store_node (next_ptr s) (reg_node g len vs)) (sq (insert_fgds_mmap_node e (Some (next_ptr s)))
      (if vs = [] then fail Uninitialised else ret (0, Some (hd vs))))"
  have page: "len mod FGDS_GPU_PAGE_SIZE = 0" using assms(2) by (simp add: reg_size_ok_def)
  have "nat (int_of_size (seg_count len)) = unat (seg_count len)" using seg_count_bounds(3) [OF assms(2)] by simp
  then have "fgds_regmem os e g len s = ?tail t0"
    unfolding fgds_regmem_def seg_count_def [symmetric] Let_def
    using assms(1,3,4) page by (simp add: malloc_node_def malloc_def upd_ctx_def assert_or_def silent_def run_simps reg_node_def)
  with assms(5) have x: "?tail t0 = Inr (r, t)" by simp
  have "always same_world ?tail" "always (logged (\<lambda>_. False)) ?tail"
    by (intro trace world_insert, simp_all add: store_node_def load_node_def trace same_world_def)
  with x have "same_world t0 t" "logged (\<lambda>_. False) t0 t" unfolding always_def by blast+
  then have "world t = world t0" "calls t = calls t0" by (auto simp: same_world_def logged_def list_all_iff)
  moreover have "fst r = 0" using x by (auto simp: run_simps split: sum.splits if_splits)
  ultimately show ?thesis by blast
qed

section \<open>What registration needs of the other side\<close>

text \<open>
  The contract behind \<open>fgds_regmem\<close>. \<open>can_serve m w\<close>: in the world \<open>w\<close> the system calls can bind \<open>m\<close> more pieces. An \<open>mmap\<close>
  followed by a map ioctl for a GPU range that can be bound then succeeds, and fills the new area with \<open>contents\<close> of the range.
\<close>

locale piece_server =
  fixes os :: "'w os" and can_serve :: "nat \<Rightarrow> 'w \<Rightarrow> bool" and range_ok :: "u64 \<Rightarrow> u64 \<Rightarrow> bool"
    and filled :: "'w \<Rightarrow> (u64 \<times> 'p) list" and contents :: "u64 \<Rightarrow> u64 \<Rightarrow> 'p"
  assumes alloc_law: "can_serve m w \<Longrightarrow> os_malloc os x w = (True, w)"
    and serve_law: "can_serve (Suc m) w \<Longrightarrow> range_ok a len \<Longrightarrow> \<exists>v w1. os_mmap os len f w = (Some v, w1) \<and>
      (\<forall>p. host_vaddr p = v \<longrightarrow> host_vaddr_size p = len \<longrightarrow> map_gpu_addr p = a \<longrightarrow> gpu_addr_size p = len \<longrightarrow>
        (\<exists>w2. os_ioctl os f FGDS_IOCTL_MAP p w1 = (0, w2) \<and> can_serve m w2 \<and> filled w2 = filled w @ [(v, contents a len)]))"
begin

text \<open>One round of the mapping loop.\<close>

lemma loop_round:
  assumes "can_serve (Suc m) (world s)" and "range_ok (g + mapped) (regmem_len cnt rem (int j))" and "valid_dev e"
    and "initialized (g_dev_ctx s (nat e))"
  obtains v w c where "can_serve m w" and "filled w = filled (world s) @ [(v, contents (g + mapped) (regmem_len cnt rem (int j)))]"
    and "map fst (maps_of c) = [v]"
    and "\<And>Q. runs_to (regmem_loop os e g cnt rem (j # js) mapped vs) s Q =
      runs_to (regmem_loop os e g cnt rem js (mapped + regmem_len cnt rem (int j)) (vs @ [v])) (s\<lparr>world := w, calls := calls s @ c\<rparr>) Q"
proof -
  let ?b = "g_dev_ctx s (nat e)" and ?L = "regmem_len cnt rem (int j)"
  obtain v w1 where v: "os_mmap os ?L (dev_fd ?b) (world s) = (Some v, w1)"
    and i: "\<forall>p. host_vaddr p = v \<longrightarrow> host_vaddr_size p = ?L \<longrightarrow> map_gpu_addr p = g + mapped \<longrightarrow> gpu_addr_size p = ?L \<longrightarrow>
      (\<exists>w. os_ioctl os (dev_fd ?b) FGDS_IOCTL_MAP p w1 = (0, w) \<and> can_serve m w \<and>
        filled w = filled (world s) @ [(v, contents (g + mapped) ?L)])"
    using serve_law [OF assms(1,2), of "dev_fd ?b"] by blast
  let ?p = "map_param ?b (g + mapped) v ?L"
  obtain w where w: "os_ioctl os (dev_fd ?b) FGDS_IOCTL_MAP ?p w1 = (0, w)" "can_serve m w"
      "filled w = filled (world s) @ [(v, contents (g + mapped) ?L)]"
    using spec [OF i, of ?p] by (auto simp: map_param_def)
  then have eq: "runs_to (regmem_loop os e g cnt rem (j # js) mapped vs) s Q =
      runs_to (regmem_loop os e g cnt rem js (mapped + ?L) (vs @ [v]))
        (s\<lparr>world := w, calls := calls s @ [C_mmap ?L (dev_fd ?b) (Some v), C_ioctl (dev_fd ?b) FGDS_IOCTL_MAP ?p 0]\<rparr>) Q" for Q
    using v assms(3,4) by (simp add: sys_defs fgds_regmem_ctx_def)
  show thesis by (rule that [OF w(2,3) _ eq]) simp
qed

lemma loop_served:
  assumes "valid_dev e" and "initialized (g_dev_ctx s (nat e))" and "can_serve (m + length js) (world s)"
    and "\<forall>i<length js. range_ok (start (js ! i)) (regmem_len cnt rem (int (js ! i)))"
    and "\<forall>i<length js. start (js ! i) = g + mapped + (\<Sum>x\<leftarrow>take i js. regmem_len cnt rem (int x))"
  shows "runs_to (regmem_loop os e g cnt rem js mapped vs) s (\<lambda>r t. \<exists>xs c. r = Some (vs @ xs) \<and> length xs = length js \<and>
    can_serve m (world t) \<and> calls t = calls s @ c \<and> map fst (maps_of c) = xs \<and>
    filled (world t) = filled (world s) @ zip xs (map (\<lambda>j. contents (start j) (regmem_len cnt rem (int j))) js))"
  using assms(2-5)
proof (induction js arbitrary: s mapped vs)
  case Nil
  then show ?case by (simp add: exI [of _ "[]"])
next
  case (Cons j js)
  let ?L = "regmem_len cnt rem (int j)"
  have j: "start j = g + mapped" "range_ok (start j) ?L" using Cons.prems(3,4) by force+
  have can: "can_serve (Suc (m + length js)) (world s)" and range: "range_ok (g + mapped) ?L" using Cons.prems(2) j by simp_all
  obtain v w c where w: "can_serve (m + length js) w" "filled w = filled (world s) @ [(v, contents (g + mapped) ?L)]" "map fst (maps_of c) = [v]"
    and round: "\<And>Q. runs_to (regmem_loop os e g cnt rem (j # js) mapped vs) s Q =
      runs_to (regmem_loop os e g cnt rem js (mapped + ?L) (vs @ [v])) (s\<lparr>world := w, calls := calls s @ c\<rparr>) Q"
    by (rule loop_round [OF can range assms(1) Cons.prems(1), of js vs], rule that)
  let ?s = "s\<lparr>world := w, calls := calls s @ c\<rparr>"
  have "\<forall>i<length js. range_ok (start (js ! i)) (regmem_len cnt rem (int (js ! i)))" using Cons.prems(3) by auto
  moreover have "\<forall>i<length js. start (js ! i) = g + (mapped + ?L) + (\<Sum>x\<leftarrow>take i js. regmem_len cnt rem (int x))"
  proof (intro allI impI)
    fix i
    assume "i < length js"
    then have "start ((j # js) ! Suc i) = g + mapped + (\<Sum>x\<leftarrow>take (Suc i) (j # js). regmem_len cnt rem (int x))"
      by (intro spec [OF Cons.prems(4), THEN mp]) simp
    then show "start (js ! i) = g + (mapped + ?L) + (\<Sum>x\<leftarrow>take i js. regmem_len cnt rem (int x))" by (simp add: add.assoc)
  qed
  ultimately have rest: "runs_to (regmem_loop os e g cnt rem js (mapped + ?L) (vs @ [v])) ?s (\<lambda>r t. \<exists>xs c. r = Some ((vs @ [v]) @ xs) \<and>
      length xs = length js \<and> can_serve m (world t) \<and> calls t = calls ?s @ c \<and> map fst (maps_of c) = xs \<and>
      filled (world t) = filled (world ?s) @ zip xs (map (\<lambda>j. contents (start j) (regmem_len cnt rem (int j))) js))"
    using Cons.prems(1) w(1) by (intro Cons.IH) simp_all
  show ?case unfolding round
  proof (rule runs_to_mono [OF rest], elim exE conjE)
    fix r t xs c'
    assume t: "r = Some ((vs @ [v]) @ xs)" "length xs = length js" "can_serve m (world t)" "calls t = calls ?s @ c'" "map fst (maps_of c') = xs"
      "filled (world t) = filled (world ?s) @ zip xs (map (\<lambda>j. contents (start j) (regmem_len cnt rem (int j))) js)"
    show "\<exists>xs c. r = Some (vs @ xs) \<and> length xs = length (j # js) \<and> can_serve m (world t) \<and> calls t = calls s @ c \<and> map fst (maps_of c) = xs \<and>
        filled (world t) = filled (world s) @ zip xs (map (\<lambda>j. contents (start j) (regmem_len cnt rem (int j))) (j # js))"
      by (rule exI [of _ "v # xs"], rule exI [of _ "c @ c'"]) (use t w(2,3) j(1) in simp)
  qed
qed

text \<open>The whole registration.\<close>

lemma regmem_served:
  assumes "reg_inv s" and "reg_ready s e" and "initialized (g_dev_ctx s (nat e))" and "reg_size_ok len"
    and "can_serve (m + unat (seg_count len)) (world s)"
    and "\<forall>j<unat (seg_count len). range_ok (piece_start g j) (of_nat (piece_size len j))"
  shows "runs_to (fgds_regmem os e g len) s (\<lambda>r t. \<exists>vs. r = (0, Some (hd vs)) \<and> reg_done s e g len vs t \<and> can_serve m (world t) \<and>
    filled (world t) = filled (world s) @ zip vs (map (\<lambda>j. contents (piece_start g j) (of_nat (piece_size len j))) [0..<unat (seg_count len)]))"
proof -
  let ?n = "unat (seg_count len)" and ?rem = "len mod FGDS_MMAP_SEGMENT_SIZE"
  let ?F = "map (\<lambda>j. contents (piece_start g j) (of_nat (piece_size len j))) [0..<?n]"
  have e: "valid_dev e" using assms(2) by (simp add: reg_ready_def)
  define u where "u = s\<lparr>node_heap := (node_heap s)(next_ptr s \<mapsto> blank_node), next_ptr := Suc (next_ptr s),
      g_dev_ctx := (g_dev_ctx s)(nat e := (g_dev_ctx s (nat e))\<lparr>device_id := e\<rparr>),
      world := world s, vaddrs_live := Suc (vaddrs_live s)\<rparr>"
  have L: "regmem_len (seg_count len) ?rem (int j) = of_nat (piece_size len j)" if "j < ?n" for j by (rule regmem_len_piece [OF assms(4) that])
  have F: "map (\<lambda>j. contents (piece_start g j) (regmem_len (seg_count len) ?rem (int j))) [0..<?n] = ?F" using L by (intro map_cong) simp_all
  have "runs_to (regmem_loop os e g (seg_count len) ?rem [0..<?n] 0 []) u (\<lambda>r t. \<exists>xs c. r = Some ([] @ xs) \<and> length xs = length [0..<?n] \<and>
      can_serve m (world t) \<and> calls t = calls u @ c \<and> map fst (maps_of c) = xs \<and>
      filled (world t) = filled (world u) @ zip xs (map (\<lambda>j. contents (piece_start g j) (regmem_len (seg_count len) ?rem (int j))) [0..<?n]))"
    by (rule loop_served [OF e]) (use assms(3,5,6) L regmem_len_sum [OF assms(4)] in \<open>simp_all add: u_def\<close>)
  note run = this [unfolded F]
  from run obtain vs' t0 c where loop: "regmem_loop os e g (seg_count len) ?rem [0..<?n] 0 [] u = Inr (Some vs', t0)"
      and t0: "can_serve m (world t0)" "calls t0 = calls s @ c" "map fst (maps_of c) = vs'" "filled (world t0) = filled (world s) @ zip vs' ?F"
    by (auto simp: runs_to_iff u_def)
  have "runs_to (fgds_regmem os e g len) s (\<lambda>r t. reg_outcome s e g len r t \<and> fst r = 0 \<and> world t = world t0 \<and> calls t = calls t0)"
    using regmem_after_loop [OF e assms(4) alloc_law [OF assms(5)] loop [unfolded u_def]] regmem_spec [OF assms(1-4), of os g]
    by (fastforce simp: runs_to_iff)
  then show ?thesis
  proof (rule runs_to_mono, elim conjE)
    fix r t
    assume o: "reg_outcome s e g len r t" and r: "fst r = 0" and t: "world t = world t0" "calls t = calls t0"
    then obtain vs where vs: "r = (0, Some (hd vs))" "reg_done s e g len vs t" by (auto simp: reg_outcome_def)
    have "c = reg_calls ((g_dev_ctx s (nat e))\<lparr>device_id := e\<rparr>) (reg_node g len vs)" using vs(2) t(2) t0(2) by (simp add: reg_done_def)
    then have "vs' = map (\<lambda>j. vs ! j) [0..<length vs]" using t0(3) by (simp add: reg_calls_maps reg_node_def comp_def)
    then have "vs' = vs" by (simp add: map_nth)
    then show "\<exists>vs. r = (0, Some (hd vs)) \<and> reg_done s e g len vs t \<and> can_serve m (world t) \<and> filled (world t) = filled (world s) @ zip vs ?F"
      using vs t(1) t0(1,4) by auto
  qed
qed

end

section \<open>One piece\<close>

text \<open>
  A machine that serves device \<open>i\<close>: the kernel gives memory, finds the first \<open>areas\<close> areas it placed, and inserts pages; the driver pins every
  range, with the physical address \<open>phys\<close> of each 64 KB page.
\<close>

definition pages_of :: "(u64 \<Rightarrow> u64) \<Rightarrow> u64 \<Rightarrow> u64 \<Rightarrow> u64 list" where
  "pages_of phys va len = map (\<lambda>q. phys (va + of_nat q * GPU_PAGE_SIZE)) [0..<unat (len div GPU_PAGE_SIZE)]"

definition kernel_ok :: "'w menv \<Rightarrow> (nat \<Rightarrow> u64) \<Rightarrow> nat \<Rightarrow> (u64 \<Rightarrow> u64) \<Rightarrow> bool" where
  "kernel_ok k place areas phys \<longleftrightarrow> driver_ok k (pages_of phys) \<and> (\<forall>n<areas. serves k n (place n) \<and> place n \<noteq> 0 \<and> place n mod PAGE_SIZE = 0) \<and>
     (\<forall>v a pgs w. fst (m_insert_pages k v a pgs w) = 0)"

definition module_ok :: "nat \<Rightarrow> fgds_dev \<Rightarrow> 'w kmem \<Rightarrow> bool" where
  "module_ok i d s \<longleftrightarrow> kmem_ok s \<and> i < length (devs s) \<and> devs s ! i = d \<and> pci_mem_va d \<noteq> 0"

text \<open>The areas filled with pages, in order.\<close>

fun inserts :: "mcall list \<Rightarrow> (nat \<times> u64 \<times> u64 option list) list" where
  "inserts [] = []"
| "inserts (M_insert v a pgs r # cs) = (if r = 0 then (v, a, pgs) # inserts cs else inserts cs)"
| "inserts (_ # cs) = inserts cs"

lemma inserts_append [simp]: "inserts (cs @ ds) = inserts cs @ inserts ds"
  by (induction cs rule: inserts.induct) simp_all

text \<open>A map ioctl on the descriptor that \<open>mmap\<close> made keeps the module's store well formed.\<close>

lemma kmem_ok_mapped:
  assumes "kmem_ok s" and "mmap_post k s n i t1" and "kheap t (knext s) \<noteq> None"
    and "mem_frame (t1\<lparr>kheap := (kheap t1)(knext s \<mapsto> Mbuf b)\<rparr>) t" and "heap_fresh t"
    and "\<forall>p. p \<noteq> knext s \<and> p \<notin> set [knext t1, knext t1 + 1, knext t1 + 2, knext t1 + 3] \<longrightarrow>
      kheap t p = kheap (t1\<lparr>kheap := (kheap t1)(knext s \<mapsto> Mbuf b)\<rparr>) p"
  shows "kmem_ok t"
proof -
  have "kheap t x \<noteq> None" if x: "x \<in> set (mbhash t j)" for x j
  proof (cases "x = knext s")
    case False
    then have "x \<in> set (mbhash s j)" using x assms(2,4) by (auto simp: mem_frame_def mmap_post_def split: if_splits)
    then have "kheap s x \<noteq> None" using assms(1) by (simp add: kmem_ok_def)
    moreover have "\<forall>p\<ge>knext s. kheap s p = None" using assms(1) by (simp add: kmem_ok_def heap_fresh_def)
    ultimately have "kheap s x \<noteq> None" "x < knext s" by (auto simp: not_le [symmetric])
    then show ?thesis using False assms(2,6) by (auto simp: mmap_post_def)
  qed (use assms(3) in simp)
  then show ?thesis using assms(1,2,4,5) by (auto simp: kmem_ok_def mem_frame_def mmap_post_def)
qed

lemma module_piece:
  assumes "module_ok i d s" and "kernel_ok k place areas phys" and n: "n < areas"
    and a: "host_vaddr a = place n" "host_vaddr_size a = len" "gpu_addr_size a = len" "len < map_gpu_addr a"
    and len: "65536 \<le> unat len" "unat len \<le> 18446744073709486080" and bar: "\<forall>x\<in>set (gpu_pages (pages_of phys) a). in_bar d x"
  shows "\<exists>t1 t. module_mmap nc k i place len f (s, n) = (Some (place n), (t1, Suc n)) \<and>
    module_ioctl k f' FGDS_IOCTL_MAP a (t1, m) = (0, (t, m)) \<and> module_ok i d t \<and>
    inserts (mcalls t) = inserts (mcalls s) @ [(n, place n, map Some (bar_pages k d (gpu_pages (pages_of phys) a)))]"
proof -
  let ?s = "s\<lparr>vmas := (vmas s)(n := new_area (place n) len)\<rparr>" and ?phys = "gpu_pages (pages_of phys) a" and ?mb = "knext s"
  have ok: "kmem_ok ?s" "i < length (devs ?s)" "devs ?s ! i = d" "pci_mem_va d \<noteq> 0"
    using assms(1) by (simp_all add: module_ok_def kmem_ok_def heap_fresh_def)
  have k: "driver_ok k (pages_of phys)" "serves k n (host_vaddr a)" "place n \<noteq> 0" "place n mod PAGE_SIZE = 0"
    "\<forall>v a pgs w. fst (m_insert_pages k v a pgs w) = 0" using assms(2) n a(1) by (simp_all add: kernel_ok_def)
  have area: "area_ok ?s n i a" unfolding area_ok_def using ok a len k(3,4) by (simp add: new_area_def)
  obtain t1 where t1: "fgds_mmap nc k (Some i) n ?s = Inr (0, t1)" and p: "mmap_post k ?s n i t1"
  proof -
    have "runs_to (fgds_mmap nc k (Some i) n) ?s (\<lambda>r t. r = 0 \<and> mmap_post k ?s n i t)"
      using ok k(2) by (intro mmap_spec) (simp_all add: kmem_ok_def new_area_def serves_def)
    then show thesis using that by (auto simp: runs_to_iff)
  qed
  let ?b = "with_dev a (mmap_mb ?s n i)" and ?t1 = "t1\<lparr>kheap := (kheap t1)(?mb \<mapsto> Mbuf (with_dev a (mmap_mb ?s n i)))\<rparr>"
  have r: "map_ready k t1 a n ?mb (mmap_mb ?s n i) i" using mmap_map_ready [OF p ok(1) area k(2)] by simp
  have d: "devs t1 ! i = d" using p ok(3) by (simp add: mmap_post_def)
  obtain q t where q: "fgds_ioctl k FGDS_IOCTL_MAP a t1 = Inr (q, t)" and R: "map_result k ?t1 ?mb ?b d n (map_gpu_addr a) ?phys q t"
    using map_ioctl_spec [OF r k(1)] a(3) len d by (auto simp: runs_to_iff)
  have cv: "c_vaddr ?b = place n" by (simp add: with_dev_def mmap_mb_def new_area_def)
  have "q = 0" using map_result_zero [OF R _ bar] k(2,5) by (simp add: serves_def)
  with R obtain b' where b': "same_mb ?b b'" "bound_mb t ?mb b' [knext ?t1, knext ?t1 + 1, knext ?t1 + 2, knext ?t1 + 3] (map_gpu_addr a) ?phys (bar_pages k d ?phys)"
      "\<forall>p. p \<noteq> ?mb \<and> p \<notin> set [knext ?t1, knext ?t1 + 1, knext ?t1 + 2, knext ?t1 + 3] \<longrightarrow> kheap t p = kheap ?t1 p" "mem_frame ?t1 t" "heap_fresh t"
      "mcalls t = mcalls ?t1 @ [M_get_pages (map_gpu_addr a) (GPU_PAGE_SIZE * of_nat (length ?phys)) (knext ?t1 + 2) 0,
        M_insert n (c_vaddr ?b) (map Some (bar_pages k d ?phys)) 0]"
    by (auto elim!: map_result_ok)
  have "kmem_ok t" by (rule kmem_ok_mapped [OF ok(1) p, of t "with_dev a (mmap_mb ?s n i)"]) (use b'(2-5) in \<open>auto simp: bound_mb_def\<close>)
  moreover have "devs t = devs s" "inserts (mcalls t) = inserts (mcalls s) @ [(n, place n, map Some (bar_pages k d ?phys))]"
    using b'(4,6) p cv by (simp_all add: mem_frame_def mmap_post_def)
  ultimately show ?thesis using t1 q \<open>q = 0\<close> ok by (simp add: module_mmap_def module_ioctl_def module_ok_def)
qed

section \<open>The module serves pieces\<close>

text \<open>The part of an ioctl argument that decides which pages are mapped, and the pages.\<close>

definition range_arg :: "u64 \<Rightarrow> u64 \<Rightarrow> fgds_ioctl_map_s" where
  "range_arg a len = \<lparr>dev_id = 0, host_vaddr = 0, host_vaddr_size = len, map_gpu_addr = a, gpu_addr_size = len\<rparr>"

definition range_pages :: "'w menv \<Rightarrow> (u64 \<Rightarrow> u64) \<Rightarrow> fgds_dev \<Rightarrow> u64 \<Rightarrow> u64 \<Rightarrow> u64 option list" where
  "range_pages k phys d a len = map Some (bar_pages k d (gpu_pages (pages_of phys) (range_arg a len)))"

definition range_in_bar :: "(u64 \<Rightarrow> u64) \<Rightarrow> fgds_dev \<Rightarrow> u64 \<Rightarrow> u64 \<Rightarrow> bool" where
  "range_in_bar phys d a len \<longleftrightarrow> 65536 \<le> unat len \<and> unat len \<le> 18446744073709486080 \<and> len < a \<and>
     (\<forall>x\<in>set (gpu_pages (pages_of phys) (range_arg a len)). in_bar d x)"

definition machine_ready :: "'w menv \<Rightarrow> nat \<Rightarrow> (nat \<Rightarrow> u64) \<Rightarrow> 'w machine os \<Rightarrow> nat \<Rightarrow> (u64 \<Rightarrow> u64) \<Rightarrow> fgds_dev \<Rightarrow> nat \<Rightarrow> 'w machine \<Rightarrow> bool" where
  "machine_ready k i place base areas phys d m w \<longleftrightarrow> kernel_ok k place areas phys \<and> (\<forall>x v. os_malloc base x v = (True, v)) \<and>
     module_ok i d (fst w) \<and> snd w + m \<le> areas"

definition areas_filled :: "'w machine \<Rightarrow> (u64 \<times> u64 option list) list" where
  "areas_filled w = map snd (inserts (mcalls (fst w)))"

interpretation served: piece_server "over_module nc k i place base" "machine_ready k i place base areas phys d" "range_in_bar phys d"
  areas_filled "range_pages k phys d" for nc k i place base areas phys d
proof (unfold_locales, goal_cases)
  case (1 m w x)
  then show ?case by (cases w) (simp add: machine_ready_def over_module_def)
next
  case (2 m w a len f)
  obtain s n where w: "w = (s, n)" by (cases w)
  have ok: "module_ok i d s" "kernel_ok k place areas phys" "n < areas" using 2(1) w by (auto simp: machine_ready_def)
  have r: "65536 \<le> unat len" "unat len \<le> 18446744073709486080" "len < a" "\<forall>x\<in>set (gpu_pages (pages_of phys) (range_arg a len)). in_bar d x"
    using 2(2) by (simp_all add: range_in_bar_def)
  have piece: "\<exists>t1 t. module_mmap nc k i place len f (s, n) = (Some (place n), (t1, Suc n)) \<and> module_ioctl k f FGDS_IOCTL_MAP p (t1, Suc n) = (0, (t, Suc n)) \<and>
      module_ok i d t \<and> inserts (mcalls t) = inserts (mcalls s) @ [(n, place n, range_pages k phys d a len)]"
    if p: "host_vaddr p = place n" "host_vaddr_size p = len" "map_gpu_addr p = a" "gpu_addr_size p = len" for p
  proof -
    have "gpu_pages (pages_of phys) p = gpu_pages (pages_of phys) (range_arg a len)" using p by (simp add: gpu_pages_def range_arg_def)
    then show ?thesis using module_piece [OF ok p(1,2,4), of nc f f "Suc n"] p(3) r by (simp add: range_pages_def)
  qed
  obtain t1 where t1: "module_mmap nc k i place len f (s, n) = (Some (place n), (t1, Suc n))"
    using piece [of "(range_arg a len)\<lparr>host_vaddr := place n\<rparr>"] by (auto simp: range_arg_def)
  have "\<exists>w2. module_ioctl k f FGDS_IOCTL_MAP p (t1, Suc n) = (0, w2) \<and> machine_ready k i place base areas phys d m w2 \<and>
      areas_filled w2 = areas_filled w @ [(place n, range_pages k phys d a len)]"
    if "host_vaddr p = place n" "host_vaddr_size p = len" "map_gpu_addr p = a" "gpu_addr_size p = len" for p
    using piece [OF that] t1 2(1) w by (auto simp: machine_ready_def areas_filled_def)
  then show ?case using t1 w by (auto simp: over_module_def)
qed

section \<open>Registration\<close>

definition buffer_ok :: "(u64 \<Rightarrow> u64) \<Rightarrow> fgds_dev \<Rightarrow> u64 \<Rightarrow> u64 \<Rightarrow> bool" where
  "buffer_ok phys d g len \<longleftrightarrow> reg_size_ok len \<and> unat g + unat len < 2 ^ 64 \<and> FGDS_MMAP_SEGMENT_SIZE < g \<and>
     (\<forall>q < unat len div 65536. in_bar d (phys (g + of_nat q * GPU_PAGE_SIZE)))"

definition piece_pages :: "'w menv \<Rightarrow> (u64 \<Rightarrow> u64) \<Rightarrow> fgds_dev \<Rightarrow> u64 \<Rightarrow> u64 \<Rightarrow> nat \<Rightarrow> u64 list" where
  "piece_pages k phys d g len j = bar_pages k d (map (\<lambda>q. phys (piece_start g j + of_nat q * GPU_PAGE_SIZE)) [0..<piece_size len j div 65536])"

lemma piece_shape:
  assumes "buffer_ok phys d g len" and "j < unat (seg_count len)"
  shows "65536 dvd piece_size len j" and "0 < piece_size len j" and "j * seg_size + piece_size len j \<le> unat len"
    and "unat (of_nat (piece_size len j) :: u64) = piece_size len j" and "unat (piece_start g j) = unat g + j * seg_size"
proof -
  have L: "reg_size_ok len" "unat g + unat len < 2 ^ 64" using assms(1) by (simp_all add: buffer_ok_def)
  then have "len mod FGDS_GPU_PAGE_SIZE = 0" by (simp add: reg_size_ok_def)
  then have dv: "65536 dvd unat len" by (simp add: word_unat_eq_iff unat_mod mod_eq_0_iff_dvd)
  have j: "j * seg_size < unat len" by (rule seg_count_less [OF assms(2)])
  show "0 < piece_size len j" "j * seg_size + piece_size len j \<le> unat len" using j by auto
  have "65536 dvd j * seg_size" by (rule dvd_mult) simp
  then have "65536 dvd unat len - j * seg_size" using dv by (rule dvd_diff_nat [rotated])
  then show "65536 dvd piece_size len j" by (simp add: min_def)
  show "unat (of_nat (piece_size len j) :: u64) = piece_size len j" by (rule unat_of_nat_u64) simp
  have "unat (of_nat (j * seg_size) :: u64) = j * seg_size" by (rule unat_of_nat_u64) (use j L(2) in simp)
  then show "unat (piece_start g j) = unat g + j * seg_size" using unat_add_no_wrap [of g "of_nat (j * seg_size)"] j L(2) by simp
qed

lemma piece_gpu_pages:
  assumes "buffer_ok phys d g len" and "j < unat (seg_count len)"
  shows "gpu_pages (pages_of phys) (range_arg (piece_start g j) (of_nat (piece_size len j))) =
      map (\<lambda>q. phys (piece_start g j + of_nat q * GPU_PAGE_SIZE)) [0..<piece_size len j div 65536]"
    and "\<forall>x\<in>set (gpu_pages (pages_of phys) (range_arg (piece_start g j) (of_nat (piece_size len j)))). in_bar d x"
proof -
  note P = piece_shape [OF assms]
  obtain n where n: "piece_size len j = 65536 * n" using P(1) by (auto elim: dvdE)
  have small: "piece_size len j \<le> seg_size" by simp
  then have n': "n \<le> 16384" unfolding n by simp
  have "unat (DIV_ROUND_UP (of_nat (piece_size len j)) GPU_PAGE_SIZE) = (unat (of_nat (piece_size len j) :: u64) + 65535) div 65536"
    by (rule div_round_up_gpu) (use P(4) small in simp)
  then have "unat (DIV_ROUND_UP (of_nat (piece_size len j)) GPU_PAGE_SIZE) = n" unfolding P(4) unfolding n by simp
  then have "unat (GPU_PAGE_SIZE * DIV_ROUND_UP (of_nat (piece_size len j)) GPU_PAGE_SIZE) = 65536 * n" using n' by (simp add: unat_word_ariths)
  then have "unat (GPU_PAGE_SIZE * DIV_ROUND_UP (of_nat (piece_size len j)) GPU_PAGE_SIZE div GPU_PAGE_SIZE) = n" by (simp add: unat_div)
  moreover have "piece_size len j div 65536 = n" unfolding n by simp
  ultimately show eq: "gpu_pages (pages_of phys) (range_arg (piece_start g j) (of_nat (piece_size len j))) =
      map (\<lambda>q. phys (piece_start g j + of_nat q * GPU_PAGE_SIZE)) [0..<piece_size len j div 65536]"
    by (simp add: gpu_pages_def pages_of_def range_arg_def)
  have "in_bar d (phys (piece_start g j + of_nat q * GPU_PAGE_SIZE))" if q: "q < piece_size len j div 65536" for q
  proof -
    have "q < n" using q unfolding n by simp
    moreover have "j * seg_size + 65536 * n \<le> unat len" using P(3) unfolding n .
    ultimately have "j * 16384 + q < unat len div 65536" by (simp add: less_eq_div_iff_mult_less_eq Suc_le_eq [symmetric])
    moreover have "piece_start g j + of_nat q * GPU_PAGE_SIZE = g + of_nat (j * 16384 + q) * GPU_PAGE_SIZE" by (simp add: algebra_simps)
    ultimately show ?thesis using assms(1) unfolding buffer_ok_def by metis
  qed
  then show "\<forall>x\<in>set (gpu_pages (pages_of phys) (range_arg (piece_start g j) (of_nat (piece_size len j)))). in_bar d x"
    unfolding eq by auto
qed

lemma piece_in_bar:
  assumes "buffer_ok phys d g len" and "j < unat (seg_count len)"
  shows "range_in_bar phys d (piece_start g j) (of_nat (piece_size len j))"
    and "range_pages k phys d (piece_start g j) (of_nat (piece_size len j)) = map Some (piece_pages k phys d g len j)"
proof -
  note P = piece_shape [OF assms]
  have "FGDS_MMAP_SEGMENT_SIZE < g" using assms(1) by (simp add: buffer_ok_def)
  then have "(of_nat (piece_size len j) :: u64) < piece_start g j" using P(4,5) by (simp add: word_less_nat_alt)
  moreover have "65536 \<le> unat (of_nat (piece_size len j) :: u64)" "unat (of_nat (piece_size len j) :: u64) \<le> 18446744073709486080"
    using P(1,2,4) by (auto dest: dvd_imp_le)
  ultimately show "range_in_bar phys d (piece_start g j) (of_nat (piece_size len j))"
    using piece_gpu_pages(2) [OF assms] unfolding range_in_bar_def by blast
  show "range_pages k phys d (piece_start g j) (of_nat (piece_size len j)) = map Some (piece_pages k phys d g len j)"
    unfolding range_pages_def piece_gpu_pages(1) [OF assms] piece_pages_def ..
qed

lemma regmem_over_module:
  assumes "kernel_ok k place areas phys" and "buffer_ok phys d g len" and "reg_inv s" and "reg_ready s e" and "initialized (g_dev_ctx s (nat e))"
    and "module_ok i d (fst (world s))" and "\<forall>m w. os_malloc base m w = (True, w)" and "snd (world s) + unat (seg_count len) \<le> areas"
  shows "runs_to (fgds_regmem (over_module nc k i place base) e g len) s (\<lambda>r t. \<exists>vs. r = (0, Some (hd vs)) \<and> reg_done s e g len vs t \<and>
    module_ok i d (fst (world t)) \<and>
    areas_filled (world t) = areas_filled (world s) @ zip vs (map (\<lambda>j. map Some (piece_pages k phys d g len j)) [0..<unat (seg_count len)]))"
proof -
  let ?n = "unat (seg_count len)"
  have size: "reg_size_ok len" using assms(2) by (simp add: buffer_ok_def)
  have can: "machine_ready k i place base areas phys d (0 + ?n) (world s)" using assms(1,6-8) by (simp add: machine_ready_def)
  have range: "\<forall>j<?n. range_in_bar phys d (piece_start g j) (of_nat (piece_size len j))" using piece_in_bar(1) [OF assms(2)] by blast
  have pages: "map (\<lambda>j. range_pages k phys d (piece_start g j) (of_nat (piece_size len j))) [0..<?n] = map (\<lambda>j. map Some (piece_pages k phys d g len j)) [0..<?n]"
    by (intro map_cong refl piece_in_bar(2) [OF assms(2)]) simp
  show ?thesis by (rule runs_to_mono [OF served.regmem_served [OF assms(3-5) size can range, of nc, unfolded pages]]) (auto simp: machine_ready_def)
qed

section \<open>Bytes\<close>

text \<open>
  The page of the BAR mapping that holds byte \<open>x\<close> of a buffer at GPU address \<open>g\<close>: the physical address of the 64 KB page of the byte,
  seen through the mapping, and within it the host page.
\<close>

definition byte_page :: "'w menv \<Rightarrow> (u64 \<Rightarrow> u64) \<Rightarrow> fgds_dev \<Rightarrow> u64 \<Rightarrow> nat \<Rightarrow> u64" where
  "byte_page k phys d g x = m_virt_to_page k (pci_mem_va d + (phys (g + of_nat (x div 65536) * GPU_PAGE_SIZE) - paddr d) +
     of_nat (x mod 65536 div 4096) * PAGE_SIZE)"

lemma piece_page:
  assumes "buffer_ok phys d g len" and "x < unat len"
  shows "x mod seg_size div 4096 < length (piece_pages k phys d g len (x div seg_size))"
    and "piece_pages k phys d g len (x div seg_size) ! (x mod seg_size div 4096) = byte_page k phys d g x"
    and "x div seg_size < unat (seg_count len)"
proof -
  define j p where "j = x div seg_size" and "p = x mod seg_size"
  have x: "x = j * seg_size + p" "p < seg_size" by (simp_all add: j_def p_def)
  have n: "unat (seg_count len) = (unat len + seg_size - 1) div seg_size" by (rule seg_count_unat)
  have "Suc j * seg_size \<le> unat len + seg_size - 1" using x(1) assms(2) by simp
  then have j: "j < unat (seg_count len)" unfolding n by (simp add: Suc_le_eq [symmetric] less_eq_div_iff_mult_less_eq)
  then show "x div seg_size < unat (seg_count len)" by (simp add: j_def)
  obtain m where m: "piece_size len j = 65536 * m" using piece_shape(1) [OF assms(1) j] by (auto elim: dvdE)
  have "p < piece_size len j" using x assms(2) by simp
  then have p: "p div 65536 < m" unfolding m by (simp add: less_mult_imp_div_less mult.commute)
  have "p div 4096 < 16 * m" using \<open>p < piece_size len j\<close> unfolding m by (simp add: less_mult_imp_div_less)
  then have len: "p div 4096 < 16 * length (map (\<lambda>q. phys (piece_start g j + of_nat q * GPU_PAGE_SIZE)) [0..<piece_size len j div 65536])" unfolding m by simp
  then show "x mod seg_size div 4096 < length (piece_pages k phys d g len (x div seg_size))" by (simp add: piece_pages_def j_def p_def)
  have idx: "p div 4096 div 16 = p div 65536" "p div 4096 mod 16 = x mod 65536 div 4096"
  proof -
    show "p div 4096 div 16 = p div 65536" by (simp add: div_mult2_eq [symmetric])
    have "x mod 65536 = p mod 65536" unfolding x(1) by (simp add: mod_add_left_eq [symmetric])
    moreover have "p div 4096 mod 16 = p mod 65536 div 4096" using mod_mult2_eq [of p 4096 16] by simp
    ultimately show "p div 4096 mod 16 = x mod 65536 div 4096" by simp
  qed
  have "x div 65536 = j * 16384 + p div 65536" unfolding x(1) by simp
  then have addr: "piece_start g j + of_nat (p div 65536) * GPU_PAGE_SIZE = g + of_nat (x div 65536) * GPU_PAGE_SIZE" by (simp add: algebra_simps)
  have "p div 65536 < piece_size len j div 65536" using p unfolding m by simp
  then have "map (\<lambda>q. phys (piece_start g j + of_nat q * GPU_PAGE_SIZE)) [0..<piece_size len j div 65536] ! (p div 65536) =
      phys (piece_start g j + of_nat (p div 65536) * GPU_PAGE_SIZE)" by simp
  then show "piece_pages k phys d g len (x div seg_size) ! (x mod seg_size div 4096) = byte_page k phys d g x"
    unfolding piece_pages_def byte_page_def j_def [symmetric] p_def [symmetric] bar_pages_nth [OF len] idx addr by (rule arg_cong)
qed

end
