(* ===== verification/Spec2Isabelle.thy ===== *)
theory Spec2Isabelle
  imports Fgds_Async Fgds_Minimal Fgds_Refine Fgds_Stack
begin

text \<open>
  \<^bold>\<open>The program.\<close> FGDS moves data between files and the memory of NVIDIA GPUs without a copy in host memory. It has two
  halves. The user library (src/libfgds) registers GPU buffers and transfers file data to and from them; the kernel
  module (src/module) maps the memory of the GPUs, which the PCI bus shows as a BAR, into the kernel and binds pages of it
  into processes. \<open>fgds_open\<close> opens the character device of a GPU. \<open>fgds_regmem\<close> cuts a GPU buffer into pieces of 1 GB
  and makes, for each piece, an \<open>mmap\<close> of the device (served by \<open>fgds_mmap\<close>) and a map ioctl (served by \<open>fgds_ioctl\<close>), which
  asks the NVIDIA driver for the physical pages and inserts the matching pages of the BAR into the area. From then on the
  file system can read and write the area, and so the memory of the GPU: \<open>fgds_read\<close> and \<open>fgds_write\<close> translate a window
  of the buffer into host address ranges (\<open>fgds_do_xfer_addr\<close>) and transfer them with \<open>pread\<close>/\<open>pwrite\<close> or, from 512 KB
  and 2 MB on, through an io_uring; the asynchronous calls do the same from a CUDA stream. Two example programs
  (src/example) use the library and a newer driver interface.

  \<^bold>\<open>How it is modelled.\<close> A C function is a function of the monad \<open>('s, 'a) prog\<close> of \<open>Fgds_Prelude\<close>, which returns a
  result and a state, or a \<open>fault\<close>: an access out of bounds, to freed, null or uninitialised memory, a misused mutex, a
  deadlock, a loop that does not end. Error codes are ordinary results. Structs are records, linked lists and kernel
  objects live in explicit stores from pointers to objects (so that aliasing and freed memory are visible), integers are
  words of their width or, where the code uses them as such and no operation can wrap, \<open>int\<close>. Everything outside the repository
  (system calls, liburing, CUDA, the kernel, the NVIDIA driver) is a record of functions on an abstract world, a parameter of
  the model, whose answers are logged. \<open>runs_to m s Q\<close> says that \<open>m\<close> returns without a fault and that \<open>Q\<close> holds of the
  result and the state, so every theorem stated with it includes termination and the absence of faults. What a theorem
  requires of the environment is a hypothesis, with a witness that a concrete environment meets it; most
  safety theorems require nothing.

  \<^bold>\<open>The library\<close> (libfgds/fgds.cc, integration.cc, include/fgds.h, include/common.h).
  \<^item> \<open>Fgds_State\<close>: the records \<open>fgds_mmap_node\<close>, \<open>fgds_mmap_buffer\<close>, the globals as the state \<open>lib\<close>, the system calls, the locks.
    The fields \<open>end_addr\<close> and \<open>shadow_blocks\<close> of the ioctl argument, which no code reads or writes, are left out.
  \<^item> \<open>Fgds_Registry\<close>: the list of registered buffers (insert, find, delete, free) and its invariant \<open>reg_inv\<close>; \<open>Fgds_Refine\<close>: it
    implements a list of entries, for every sequence of operations (\<open>registry_refines\<close>).
  \<^item> \<open>Fgds_Xfer\<close>: \<open>fgds_do_xfer_addr\<close> with its 32 and 64 bit arithmetic: the ranges are the bytes of the window, in order
    (\<open>xfer_byte_exact\<close>), inside one mapping each when the window lies in the buffer; windows that are not covered are
    refused; a negative offset is not.
  \<^item> \<open>Fgds_Device\<close>: \<open>fgds_open\<close> and \<open>fgds_close\<close>, all or nothing with the exact sequence of opens and closes, release of
    descriptor, ring, nodes and mutexes, what a failed open leaves behind.
  \<^item> \<open>Fgds_Regmem\<close>: \<open>fgds_regmem\<close> and \<open>fgds_deregmem\<close>: all or nothing in any environment, translation after registration,
    removal, round trip, and the use after free in every state with two buffers at one address.
  \<^item> \<open>Fgds_Trace\<close>: relations kept by every step of a program (a locale over a reflexive and transitive relation, interpreted on the
    log, on the parts of the state that transfers keep, and on the world), used to say which calls a function makes.
  \<^item> \<open>Fgds_IO\<close> and \<open>Fgds_Transfer\<close>: the direct and the io_uring transfers. On a ring that completes each request, in any order, each
    byte moves once between its host address and its file offset (\<open>fgds_read_exact\<close>, \<open>fgds_write_exact\<close>); in any environment
    they return and keep registry, locks and descriptors, and when no request of an earlier call waits in the submission
    queue, which is read from the log, they issue transfers inside the window only (\<open>io_safe_anywhere\<close>).
  \<^item> \<open>Fgds_Async\<close>: the asynchronous calls, streams as queues, and their interleavings as a step relation.

  \<^bold>\<open>The examples.\<close> \<open>Fgds_Example\<close> is example/example.cc on top of the library: \<open>demo_copies\<close> is the whole path from opening
  to closing, and \<open>demos_contained\<close> says what happens when anything fails. \<open>Fgds_Minimal\<close> is example/minimal_example.cc: the
  name of the device node with \<open>sscanf\<close> and \<open>snprintf\<close>, the round trip, the cleanup on every branch.

  \<^bold>\<open>The module\<close> (src/module).
  \<^item> \<open>Kmod_Pdevinfo\<close> (nvfs-pci.h): the 64 bit word of a PCI device, its setters and getters as bit operations, with round trips.
  \<^item> \<open>Kmod_Pci\<close> (nvfs-pci.c): the tables, the enumeration and the exchange sort of the GPUs, equal to the library's sort, the hash
    index, distances and usage counts; an access of the rank matrix out of bounds is a fault, and none occurs.
  \<^item> \<open>Kmod_P2p\<close> (nvfs-p2p.c): the symbols of the NVIDIA driver, all or none, and the wrappers.
  \<^item> \<open>Kmod_Ctrl\<close> (fgds.c, fgds.h): choice and mapping of the GPUs, the character devices, load and unload, with an invariant of the
    device table.
  \<^item> \<open>Kmod_Mem\<close>, \<open>Kmod_Bind\<close>, \<open>Kmod_Buffer\<close> (fgds-mem.c, fgds-mem.h, \<open>fgds_ioctl\<close>): \<open>mmap\<close>, the map and unmap ioctls, the hash table and
    reference counts on a store of kernel objects; the pages inserted are those of the GPU range (\<open>map_ioctl_exact\<close>), a buffer's
    life restores the store, and four ways in which it does not.

  \<^bold>\<open>Together.\<close> \<open>Fgds_Stack\<close> states what registration needs of the other side of its system calls (the locale \<open>piece_server\<close>),
  proves that the module behind \<open>mmap\<close> and \<open>ioctl\<close> gives it, and \<open>registered_bytes_backed\<close> below says that after \<open>fgds_regmem\<close>
  the host address of each byte of the buffer is in an area filled with the BAR page of that byte.

  \<^bold>\<open>Interfaces.\<close> Four contracts are locales, each interpreted on the definitions of the model: \<open>node_registry\<close> (the list operations, used by
  registration and by the refinement), \<open>device_index\<close> (a hashed table, interpreted for GPUs and for peers), \<open>step_relation\<close>
  (what every step of a program keeps) and \<open>piece_server\<close>.

  \<^bold>\<open>Loops and fuel.\<close> Loops over a range are recursions on the list of its indices. A search of the list of buffers has as fuel
  the number of nodes allocated so far, which bounds the length of an acyclic list (\<open>reg_inv_length\<close>); \<open>xfer_loop\<close> has the
  number of ranges; the loops of a transfer have the number of bytes, since each round moves at least one; waiting for the
  remaining completions has the number of submitted requests, and polling for finished ones has 512, the size of the
  completion queue of a ring of 256 entries. A loop out of fuel is the fault \<open>Diverges\<close>, and the theorems prove that it does
  not occur; for polling this rests on the ring giving at most 512 completions (\<open>peek_ends\<close>).

  \<^bold>\<open>Not modelled.\<close> Output (\<open>printf\<close>, \<open>printk\<close>, the text of \<open>seq_file\<close>) and \<open>errno\<close>. Concurrency inside one library call: two threads
  in the library at once, and the double-checked initialisation of the ring, since the memory model they need is not part of
  the code. \<open>nvfs_peer_affinity_show\<close>, which is commented out in nvfs-pci.c; \<open>fgds_release\<close>, which returns 0. The declarations
  of nvfs-core.h, nvfs-mmap.h and nvfs-p2p.h that no function of the module uses. The smoke test, the benchmarks, the Python
  bindings, the scripts and the build: they call the library and have no state of its own. The contents of memory are
  modelled only where a program looks at them (\<open>Fgds_Minimal\<close>); for the library, what is proved is which bytes go where.
\<close>

section \<open>A machine for the examples\<close>

text \<open>
  A process that opened device 0, a module with one mapped GPU, a kernel that places areas 1 GB apart, and a
  driver that puts GPU address 0x7f1000000000 at the start of the BAR.
\<close>

definition stack_place :: "nat \<Rightarrow> u64" where
  "stack_place n = 0x7f0000000000 + of_nat n * FGDS_MMAP_SEGMENT_SIZE"

definition stack_phys :: "u64 \<Rightarrow> u64" where
  "stack_phys a = 0x200000000000 + (a - 0x7f1000000000)"

definition stack_env :: "unit menv" where
  "stack_env = menv_ok\<lparr>m_vma_lookup := \<lambda>a _. Some (if a = 0x7f0000000000 then 0 else 1),
     m_get_pages := \<lambda>va len w. ((0, Some (map Some (pages_of stack_phys va len))), w)\<rparr>"

definition stack_os :: "unit machine os" where
  "stack_os = \<lparr>os_open = (\<lambda>_ w. (3, w)), os_close = (\<lambda>_ w. (0, w)), os_malloc = (\<lambda>_ w. (True, w)),
     os_mmap = (\<lambda>_ _ w. (None, w)), os_munmap = (\<lambda>_ _ w. (0, w)), os_ioctl = (\<lambda>_ _ _ w. (-1, w)),
     os_pread = (\<lambda>_ _ n _ w. (n, w)), os_pwrite = (\<lambda>_ _ n _ w. (n, w)), ring_queue_init = (\<lambda>_ w. (-1, w)),
     ring_queue_exit = (\<lambda>_ w. w), ring_get_sqe = (\<lambda>_ w. (False, w)), ring_prep_rw = (\<lambda>_ _ _ _ n _ w. w),
     ring_submit = (\<lambda>_ w. (0, w)), ring_wait_cqe = (\<lambda>_ w. ((-4, 0), w)), ring_peek_cqe = (\<lambda>_ w. (-11, w)),
     ring_cqe_seen = (\<lambda>_ w. w)\<rparr>"

definition stack_lib :: "unit machine lib" where
  "stack_lib = (lib_init (kmem_demo, 0))\<lparr>
     g_dev_ctx := (\<lambda>_. ctx_init)(0 := ctx_init\<lparr>dev_fd := 3, initialized := True\<rparr>),
     fgds_initialized := (\<lambda>_. False)(0 := True)\<rparr>"

lemma stack_lib_ok: "reg_inv stack_lib" "reg_ready stack_lib 0" "initialized (g_dev_ctx stack_lib (nat 0))"
  "module_ok 0 demo_dev (fst (world stack_lib))" "snd (world stack_lib) = 0"
proof -
  show "reg_inv stack_lib"
    by (rule reg_invI(1) [where P = "\<lambda>_. []"]) (auto simp: stack_lib_def lib_init_def ctx_init_def)
  show "module_ok 0 demo_dev (fst (world stack_lib))" using demo_kmem_ok
    by (simp add: module_ok_def stack_lib_def lib_init_def demo_dev_def kmem_demo_def)
qed (simp_all add: stack_lib_def lib_init_def ctx_init_def reg_ready_def)

lemma stack_kernel_ok: "kernel_ok stack_env stack_place 2 stack_phys"
proof -
  have two: "(\<forall>n<2. P n) \<longleftrightarrow> P 0 \<and> P 1" for P :: "nat \<Rightarrow> bool" by (auto simp: numeral_2_eq_2 less_Suc_eq)
  show ?thesis unfolding kernel_ok_def two
    by (simp add: driver_ok_def serves_def stack_env_def menv_ok_def stack_place_def pages_of_def)
qed

lemma stack_buffer_ok: "buffer_ok stack_phys demo_dev 0x7f1000000000 0x50000000"
proof -
  have "of_nat q * (65536 :: u64) \<le> 0xfffff0000" if "q < 20480" for q
    using that by (simp add: word_le_nat_alt unat_word_ariths unat_of_nat_u64)
  then show ?thesis by (simp add: buffer_ok_def reg_size_ok_def in_bar_def stack_phys_def demo_dev_def)
qed

section \<open>From the GPU buffer to the pages the device reads\<close>

text \<open>
  C2. A registered buffer is backed by its own GPU pages. The library's \<open>fgds_regmem\<close> runs over the module: each
  \<open>mmap\<close> and each map ioctl it makes is served by \<open>fgds_mmap\<close> and \<open>fgds_ioctl\<close>. On a machine whose driver pins
  every range, whose BAR holds the buffer and whose kernel finds its areas, registration succeeds, and afterwards
  every byte \<open>x\<close> of the buffer has a host address in an area the module filled: the area starts at the piece of
  the byte, and at the offset of the byte in its piece it holds the BAR page of exactly the GPU page of \<open>x\<close>. So
  an address that \<open>fgds_do_xfer_addr\<close> later computes for byte \<open>x\<close> is an address of byte \<open>x\<close> in the memory of the GPU.
\<close>

theorem registered_bytes_backed:
  assumes "kernel_ok k place areas phys" and "buffer_ok phys d g len" and "reg_inv (s :: 'w machine lib)" and "reg_ready s e"
    and "initialized (g_dev_ctx s (nat e))" and "module_ok i d (fst (world s))" and "\<forall>m w. os_malloc base m w = (True, w)"
    and "snd (world s) + unat (seg_count len) \<le> areas"
  shows "runs_to (fgds_regmem (over_module nc k i place base) e g len) s (\<lambda>r t. \<exists>vs. r = (0, Some (hd vs)) \<and>
    reg_done s e g len vs t \<and> module_ok i d (fst (world t)) \<and>
    (\<forall>x<unat len. \<exists>v start pgs. (v, start, pgs) \<in> set (inserts (mcalls (fst (world t)))) \<and>
      host_byte (reg_node g len vs) x = start + of_nat (x mod seg_size) \<and> x mod seg_size div 4096 < length pgs \<and>
      pgs ! (x mod seg_size div 4096) = Some (byte_page k phys d g x)))" (is "runs_to _ _ ?Q")
proof (rule runs_to_mono [OF regmem_over_module [OF assms]], elim exE conjE)
  fix r :: "int \<times> u64 option" and t :: "'w machine lib" and vs
  let ?n = "unat (seg_count len)" and ?pgs = "\<lambda>j. map Some (piece_pages k phys d g len j)"
  assume r: "r = (0, Some (hd vs))" "reg_done s e g len vs t" "module_ok i d (fst (world t))"
    and filled: "areas_filled (world t) = areas_filled (world s) @ zip vs (map ?pgs [0..<?n])"
  have "\<exists>v start pgs. (v, start, pgs) \<in> set (inserts (mcalls (fst (world t)))) \<and>
      host_byte (reg_node g len vs) x = start + of_nat (x mod seg_size) \<and> x mod seg_size div 4096 < length pgs \<and>
      pgs ! (x mod seg_size div 4096) = Some (byte_page k phys d g x)" if x: "x < unat len" for x
  proof -
    let ?j = "x div seg_size"
    note P = piece_page [OF assms(2) x]
    have "length vs = ?n" using r(2) by (simp add: reg_done_def)
    then have "(vs ! ?j, ?pgs ?j) \<in> set (areas_filled (world t))" unfolding filled using P(3) by (force simp: set_zip)
    then obtain v where "(v, vs ! ?j, ?pgs ?j) \<in> set (inserts (mcalls (fst (world t))))" unfolding areas_filled_def by auto
    moreover have "host_byte (reg_node g len vs) x = vs ! ?j + of_nat (x mod seg_size)" by (simp add: host_byte_def reg_node_def)
    moreover have "x mod seg_size div 4096 < length (?pgs ?j)" using P(1) [of k] by simp
    moreover from this have "?pgs ?j ! (x mod seg_size div 4096) = Some (byte_page k phys d g x)" using P(2) [of k] by simp
    ultimately show ?thesis by blast
  qed
  then show "?Q r t" using r by auto
qed

theorem registered_bytes_backed_witness:
  "runs_to (fgds_regmem (over_module False stack_env 0 stack_place stack_os) 0 0x7f1000000000 0x50000000) stack_lib
    (\<lambda>r t. \<exists>vs. r = (0, Some (hd vs)) \<and> reg_done stack_lib 0 0x7f1000000000 0x50000000 vs t \<and>
      (\<exists>v start pgs. (v, start, pgs) \<in> set (inserts (mcalls (fst (world t)))) \<and>
        host_byte (reg_node 0x7f1000000000 0x50000000 vs) 0x40011234 = start + 0x11234 \<and> pgs ! 0x11 = Some 0xffffa00040011000))"
proof -
  have b: "byte_page stack_env stack_phys demo_dev 0x7f1000000000 0x40011234 = 0xffffa00040011000"
    by (simp add: byte_page_def stack_env_def menv_ok_def stack_phys_def demo_dev_def)
  have m: "\<forall>m w. os_malloc stack_os m w = (True, w)" by (simp add: stack_os_def)
  have "snd (world stack_lib) + unat (seg_count 0x50000000) \<le> 2" by (simp add: stack_lib_ok(5) seg_count_unat)
  from registered_bytes_backed [OF stack_kernel_ok stack_buffer_ok stack_lib_ok(1-4) m this] show ?thesis
  proof (rule runs_to_mono, elim exE conjE)
    fix r t vs
    assume r: "r = (0, Some (hd vs))" "reg_done stack_lib 0 0x7f1000000000 0x50000000 vs t"
      and *: "\<forall>x<unat (0x50000000 :: u64). \<exists>v start pgs. (v, start, pgs) \<in> set (inserts (mcalls (fst (world t)))) \<and>
        host_byte (reg_node 0x7f1000000000 0x50000000 vs) x = start + of_nat (x mod seg_size) \<and> x mod seg_size div 4096 < length pgs \<and>
        pgs ! (x mod seg_size div 4096) = Some (byte_page stack_env stack_phys demo_dev 0x7f1000000000 x)"
    from * have "0x40011234 < unat (0x50000000 :: u64) \<longrightarrow> (\<exists>v start pgs. (v, start, pgs) \<in> set (inserts (mcalls (fst (world t)))) \<and>
        host_byte (reg_node 0x7f1000000000 0x50000000 vs) 0x40011234 = start + of_nat (0x40011234 mod seg_size) \<and>
        0x40011234 mod seg_size div 4096 < length pgs \<and>
        pgs ! (0x40011234 mod seg_size div 4096) = Some (byte_page stack_env stack_phys demo_dev 0x7f1000000000 0x40011234))" by (rule spec)
    with r b show "\<exists>vs. r = (0, Some (hd vs)) \<and> reg_done stack_lib 0 0x7f1000000000 0x50000000 vs t \<and>
      (\<exists>v start pgs. (v, start, pgs) \<in> set (inserts (mcalls (fst (world t)))) \<and>
        host_byte (reg_node 0x7f1000000000 0x50000000 vs) 0x40011234 = start + 0x11234 \<and> pgs ! 0x11 = Some 0xffffa00040011000)"
      by auto
  qed
qed

end
